(* ===== verification/Prelude.thy ===== *)
theory Prelude
  imports Complex_Main "HOL-Library.Word" "HOL-Library.Sublist"
begin

text \<open>
  Shared vocabulary of the development: the machine integers and byte strings of the Rust
  sources, big-endian encodings (\<open>to_be_bytes\<close> and \<open>from_be_bytes\<close>), the result type of
  fallible operations, and the JSON values the protocol exchanges.

  Integers that the source keeps in a fixed width are words; \<open>usize\<close> values (lengths, cursors)
  are natural numbers, since every one of them is bounded by the length of a buffer in memory.
\<close>

unbundle bit_operations_syntax

named_theorems be_simps \<open>big-endian byte sequences of fixed length\<close>
named_theorems str_simps \<open>evaluation of string operations\<close>

section \<open>Machine integers and bytes\<close>

type_synonym byte = "8 word"
type_synonym u8 = "8 word"
type_synonym u16 = "16 word"
type_synonym u32 = "32 word"
type_synonym u64 = "64 word"
type_synonym bytes = "byte list"

text \<open>Big-endian byte sequences of a natural number, and their value.\<close>

primrec be_enc :: "nat \<Rightarrow> nat \<Rightarrow> bytes" where
  "be_enc 0 v = []"
| "be_enc (Suc n) v = word_of_nat (v div 256 ^ n) # be_enc n v"

fun be_dec :: "bytes \<Rightarrow> nat" where
  "be_dec [] = 0"
| "be_dec (b # bs) = unat b * 256 ^ length bs + be_dec bs"

lemma length_be_enc [simp]: "length (be_enc n v) = n"
  by (induction n) auto

lemma unat_byte_lt [simp]: "unat (b :: byte) < 256"
  using unsigned_less [of b] by simp

lemma be_dec_bound: "be_dec bs < 256 ^ length bs"
proof (induction bs)
  case Nil
  then show ?case by simp
next
  case (Cons b bs)
  have "unat b * 256 ^ length bs + be_dec bs < unat b * 256 ^ length bs + 256 ^ length bs"
    using Cons by simp
  also have "\<dots> = (unat b + 1) * 256 ^ length bs" by (simp add: algebra_simps)
  also have "\<dots> \<le> 256 * 256 ^ length bs"
    using unat_byte_lt [of b] by (intro mult_right_mono) linarith+
  finally show ?case by simp
qed

lemma be_dec_enc: "be_dec (be_enc n v) = v mod 256 ^ n"
proof (induction n)
  case 0
  then show ?case by simp
next
  case (Suc n)
  have "v mod 256 ^ Suc n = (v div 256 ^ n) mod 256 * 256 ^ n + v mod 256 ^ n"
    by (metis mod_mult2_eq power_Suc2 add.commute mult.commute)
  then show ?case
    by (simp add: Suc unat_of_nat take_bit_nat_def)
qed

lemma be_dec_enc_id [simp]: "v < 256 ^ n \<Longrightarrow> be_dec (be_enc n v) = v"
  by (simp add: be_dec_enc)

lemma be_dec_append: "be_dec (xs @ ys) = be_dec xs * 256 ^ length ys + be_dec ys"
  by (induction xs) (auto simp: algebra_simps power_add)

lemma be_enc_cong: "v mod 256 ^ n = w mod 256 ^ n \<Longrightarrow> be_enc n v = be_enc n w"
proof (induction n)
  case 0
  then show ?case by simp
next
  case (Suc n)
  have lo: "v mod 256 ^ n = w mod 256 ^ n"
    using Suc.prems by (metis dvd_triv_right mod_mod_cancel power_Suc)
  have split: "u mod 256 ^ Suc n = 256 ^ n * (u div 256 ^ n mod 256) + u mod 256 ^ n" for u :: nat
    by (metis mod_mult2_eq power_Suc2)
  have "256 ^ n * (v div 256 ^ n mod 256) = 256 ^ n * (w div 256 ^ n mod 256)"
    using Suc.prems lo split [of v] split [of w] by linarith
  then have "(v div 256 ^ n) mod 256 = (w div 256 ^ n) mod 256" by simp
  then have "(word_of_nat (v div 256 ^ n) :: byte) = word_of_nat (w div 256 ^ n)"
    by (simp add: word_of_nat_eq_iff take_bit_nat_def)
  then show ?case using Suc.IH [OF lo] by simp
qed

lemma be_enc_dec [simp]: "length bs = n \<Longrightarrow> be_enc n (be_dec bs) = bs"
proof (induction bs arbitrary: n)
  case Nil
  then show ?case by simp
next
  case (Cons b bs)
  then obtain m where n: "n = Suc m" and m: "length bs = m" by auto
  have lt: "be_dec bs < 256 ^ m" using be_dec_bound [of bs] m by simp
  have "be_enc m (unat b * 256 ^ m + be_dec bs) = be_enc m (be_dec bs)"
    by (rule be_enc_cong) simp
  moreover have "(unat b * 256 ^ m + be_dec bs) div 256 ^ m = unat b"
    using lt by simp
  ultimately show ?case using n m Cons.IH [OF m] by simp
qed

lemma be_enc_1 [be_simps]: "be_enc 1 v = [word_of_nat v]"
  by simp

lemma be_enc_2 [be_simps]: "be_enc 2 v = [word_of_nat (v div 256), word_of_nat v]"
proof -
  have "be_enc (Suc (Suc 0)) v = [word_of_nat (v div 256), word_of_nat v]" by simp
  then show ?thesis by (simp only: numeral_2_eq_2)
qed

lemma be_enc_4 [be_simps]:
  "be_enc 4 v = [word_of_nat (v div 16777216), word_of_nat (v div 65536),
     word_of_nat (v div 256), word_of_nat v]"
proof -
  have four: "4 = Suc (Suc (Suc (Suc 0)))" by simp
  show ?thesis unfolding four by simp
qed

lemma be_enc_8 [be_simps]:
  "be_enc 8 v = [word_of_nat (v div 72057594037927936), word_of_nat (v div 281474976710656),
     word_of_nat (v div 1099511627776), word_of_nat (v div 4294967296),
     word_of_nat (v div 16777216), word_of_nat (v div 65536),
     word_of_nat (v div 256), word_of_nat v]"
proof -
  have eight: "8 = Suc (Suc (Suc (Suc (Suc (Suc (Suc (Suc 0)))))))" by simp
  show ?thesis unfolding eight by simp
qed

text \<open>\<open>u16\<close>, \<open>u32\<close> and \<open>u64\<close> values as bytes.\<close>

definition u16_to_be :: "u16 \<Rightarrow> bytes" where "u16_to_be w = be_enc 2 (unat w)"
definition u32_to_be :: "u32 \<Rightarrow> bytes" where "u32_to_be w = be_enc 4 (unat w)"
definition u16_from_be :: "bytes \<Rightarrow> u16" where "u16_from_be bs = word_of_nat (be_dec bs)"
definition u32_from_be :: "bytes \<Rightarrow> u32" where "u32_from_be bs = word_of_nat (be_dec bs)"

lemma length_u16_to_be [simp]: "length (u16_to_be w) = 2"
  by (simp add: u16_to_be_def)

lemma length_u32_to_be [simp]: "length (u32_to_be w) = 4"
  by (simp add: u32_to_be_def)

lemma unat_u16_lt: "unat (w :: u16) < 65536"
  using unsigned_less [of w] by simp

lemma unat_u32_lt: "unat (w :: u32) < 4294967296"
  using unsigned_less [of w] by simp

lemma unat_ucast_u64: "unat (ucast (w :: u32) :: u64) = unat w"
proof -
  have "unat w < 2 ^ 64" using unat_u32_lt [of w] by simp
  then show ?thesis by (simp add: unsigned_ucast_eq take_bit_nat_eq_self)
qed

lemma u16_from_to [simp]: "u16_from_be (u16_to_be w) = w"
  using unat_u16_lt [of w] by (simp add: u16_from_be_def u16_to_be_def)

lemma u32_from_to [simp]: "u32_from_be (u32_to_be w) = w"
  using unat_u32_lt [of w] by (simp add: u32_from_be_def u32_to_be_def)

lemma unat_u32_from_be: "length bs = 4 \<Longrightarrow> unat (u32_from_be bs) = be_dec bs"
  using be_dec_bound [of bs] by (simp add: u32_from_be_def unat_of_nat take_bit_nat_def)

lemma u32_to_from: "length bs = 4 \<Longrightarrow> u32_to_be (u32_from_be bs) = bs"
  by (simp add: u32_to_be_def unat_u32_from_be)

lemma unat_u16_from_be: "length bs = 2 \<Longrightarrow> unat (u16_from_be bs) = be_dec bs"
  using be_dec_bound [of bs] by (simp add: u16_from_be_def unat_of_nat take_bit_nat_def)

lemma u16_to_from: "length bs = 2 \<Longrightarrow> u16_to_be (u16_from_be bs) = bs"
  by (simp add: u16_to_be_def unat_u16_from_be)

text \<open>A length written as \<open>len as u32\<close> keeps the value below the wrap-around.\<close>

lemma u32_len_from_to [simp]:
  "n < 4294967296 \<Longrightarrow> be_dec (u32_to_be (word_of_nat n)) = n"
  by (simp add: u32_to_be_def unat_of_nat take_bit_nat_def)

section \<open>Results\<close>

text \<open>
  \<open>Result\<close> of the source is a sum with the error on the left.  Errors carry the message text
  where the code inspects it and a constructor otherwise; each component has its own error type.
\<close>

type_synonym ('e, 'a) result = "'e + 'a"

abbreviation Err :: "'e \<Rightarrow> ('e, 'a) result" where "Err \<equiv> Inl"
abbreviation Ok :: "'a \<Rightarrow> ('e, 'a) result" where "Ok \<equiv> Inr"

section \<open>JSON values\<close>

text \<open>
  \<open>serde_json::Value\<close> as the sources use it.  A number is an unsigned 64-bit integer, a
  negative integer or a float, as in \<open>serde_json\<close>; \<open>as_u64\<close> answers \<open>None\<close> for the two
  latter, \<open>as_f64\<close> accepts all three.  A float is a real number: its rounding is not modelled.  An object is the list of its members
  in order, without duplicate keys (\<open>serde_json\<close> keeps the last one it parsed).
\<close>

datatype json =
    JNull
  | JBool bool
  | JPosInt u64
  | JNegInt int
  | JFloat real
  | JString string
  | JArray "json list"
  | JObject "(string \<times> json) list"

text \<open>\<open>v["k"]\<close>: \<open>Null\<close> when \<open>v\<close> is not an object or has no such member; \<open>v.get("k")\<close>.\<close>

fun json_get :: "json \<Rightarrow> string \<Rightarrow> json option" where
  "json_get (JObject ms) k = map_of ms k"
| "json_get _ k = None"

definition json_index :: "json \<Rightarrow> string \<Rightarrow> json" where
  "json_index v k = (case json_get v k of Some x \<Rightarrow> x | None \<Rightarrow> JNull)"

fun as_u64 :: "json \<Rightarrow> u64 option" where
  "as_u64 (JPosInt n) = Some n"
| "as_u64 _ = None"

fun as_f64 :: "json \<Rightarrow> real option" where
  "as_f64 (JPosInt n) = Some (real (unat n))"
| "as_f64 (JNegInt i) = Some (of_int i)"
| "as_f64 (JFloat r) = Some r"
| "as_f64 _ = None"

fun as_str :: "json \<Rightarrow> string option" where
  "as_str (JString s) = Some s"
| "as_str _ = None"

fun as_bool :: "json \<Rightarrow> bool option" where
  "as_bool (JBool b) = Some b"
| "as_bool _ = None"

fun as_array :: "json \<Rightarrow> json list option" where
  "as_array (JArray xs) = Some xs"
| "as_array _ = None"

fun as_object :: "json \<Rightarrow> (string \<times> json) list option" where
  "as_object (JObject ms) = Some ms"
| "as_object _ = None"

fun unwrap_or :: "'a option \<Rightarrow> 'a \<Rightarrow> 'a" where
  "unwrap_or (Some x) _ = x"
| "unwrap_or None d = d"

text \<open>Rust's \<open>Iterator::filter_map\<close>.\<close>

fun filter_map :: "('a \<Rightarrow> 'b option) \<Rightarrow> 'a list \<Rightarrow> 'b list" where
  "filter_map f [] = []"
| "filter_map f (x # xs) = (case f x of None \<Rightarrow> filter_map f xs | Some y \<Rightarrow> y # filter_map f xs)"

lemma set_filter_map: "set (filter_map f xs) = {y. \<exists>x \<in> set xs. f x = Some y}"
  by (induction xs) (auto split: option.splits)

end
