(* ===== verification/Codec.thy ===== *)
theory Codec
  imports Prelude
begin

text \<open>
  The interface of the length-prefixed codecs the program uses four times: multiplexer frames
  (\<open>frame.rs\<close>, \<open>mux.rs\<close>), sync frames (\<open>sync/protocol.rs\<close>), WebSocket frames (\<open>ws.rs\<close>) and
  tunnelled UDP datagrams (\<open>socks5.rs\<close>).

  A codec is seen through one function \<open>dec\<close> that looks at the bytes received so far and
  answers \<open>Need\<close> (more bytes are needed), \<open>Got m n\<close> (the first \<open>n\<close> bytes are the message
  \<open>m\<close>) or \<open>Bad e\<close>.  The locale \<open>stream_decoder\<close> states what a decoder promises,
  \<open>stream_codec\<close> adds the encoder.  Their lemmas (independence of how the bytes are cut into
  reads, recovery of every message sequence that was sent) are proved once here and used
  through one interpretation per codec.
\<close>

datatype ('m, 'e) dec_step = Need | Got 'm nat | Bad 'e

text \<open>
  What a receive loop does with the bytes it has: take complete messages off the front until
  the decoder needs more or fails.  The result is the messages, the unconsumed bytes and the
  error, if any.
\<close>

function drain :: "(bytes \<Rightarrow> ('m, 'e) dec_step) \<Rightarrow> bytes \<Rightarrow> 'm list \<times> bytes \<times> 'e option" where
  "drain dec bs =
     (case dec bs of
        Need \<Rightarrow> ([], bs, None)
      | Bad e \<Rightarrow> ([], bs, Some e)
      | Got m n \<Rightarrow>
          if 0 < n \<and> n \<le> length bs
          then (case drain dec (drop n bs) of (ms, r, e) \<Rightarrow> (m # ms, r, e))
          else ([], bs, None))"
  by pat_completeness auto
termination
  by (relation "measure (\<lambda>(dec, bs). length bs)") auto

declare drain.simps [simp del]

text \<open>The receive loop over a sequence of reads: leftover bytes are kept for the next read.\<close>

fun drain_reads :: "(bytes \<Rightarrow> ('m, 'e) dec_step) \<Rightarrow> bytes \<Rightarrow> bytes list
    \<Rightarrow> 'm list \<times> bytes \<times> 'e option" where
  "drain_reads dec buf [] = ([], buf, None)"
| "drain_reads dec buf (c # cs) =
     (case drain dec (buf @ c) of
        (ms, r, Some e) \<Rightarrow> (ms, r @ concat cs, Some e)
      | (ms, r, None) \<Rightarrow> (case drain_reads dec r cs of (ms', r', e') \<Rightarrow> (ms @ ms', r', e')))"

lemma drain_Need: "dec bs = Need \<Longrightarrow> drain dec bs = ([], bs, None)"
  by (simp add: drain.simps)

lemma drain_Bad: "dec bs = Bad e \<Longrightarrow> drain dec bs = ([], bs, Some e)"
  by (simp add: drain.simps)

locale stream_decoder =
  fixes dec :: "bytes \<Rightarrow> ('m, 'e) dec_step"
  assumes got_bounds: "dec bs = Got m n \<Longrightarrow> 0 < n \<and> n \<le> length bs"
    and got_mono: "dec bs = Got m n \<Longrightarrow> dec (bs @ xs) = Got m n"
    and bad_mono: "dec bs = Bad e \<Longrightarrow> dec (bs @ xs) = Bad e"
begin

lemma drain_Got:
  "dec bs = Got m n \<Longrightarrow>
     drain dec bs = (case drain dec (drop n bs) of (ms, r, e) \<Rightarrow> (m # ms, r, e))"
  using got_bounds [of bs m n] by (simp add: drain.simps [of dec bs])

lemma drain_append:
  "drain dec (bs @ xs) =
     (case drain dec bs of
        (ms, r, Some e) \<Rightarrow> (ms, r @ xs, Some e)
      | (ms, r, None) \<Rightarrow> (case drain dec (r @ xs) of (ms', r', e') \<Rightarrow> (ms @ ms', r', e')))"
proof (induction bs rule: length_induct)
  case (1 bs)
  show ?case
  proof (cases "dec bs")
    case Need
    then show ?thesis by (simp add: drain_Need split: prod.splits)
  next
    case (Bad e)
    then show ?thesis by (simp add: drain_Bad bad_mono)
  next
    case (Got m n)
    from got_bounds [OF Got] have n: "0 < n" "n \<le> length bs" by auto
    then have IH: "drain dec (drop n bs @ xs) =
      (case drain dec (drop n bs) of
         (ms, r, Some e) \<Rightarrow> (ms, r @ xs, Some e)
       | (ms, r, None) \<Rightarrow> (case drain dec (r @ xs) of (ms', r', e') \<Rightarrow> (ms @ ms', r', e')))"
      using "1.IH" by simp
    from n have "drop n (bs @ xs) = drop n bs @ xs" by simp
    with drain_Got [OF got_mono [OF Got]] drain_Got [OF Got] IH show ?thesis
      by (auto split: prod.splits option.splits)
  qed
qed

text \<open>The pieces of a stream may be any encodings the decoder accepts, a different one for each message.\<close>

lemma drain_pieces:
  "list_all2 (\<lambda>w m. \<forall>xs. dec (w @ xs) = Got m (length w)) ws ms \<Longrightarrow>
     drain dec (concat ws @ xs) = (case drain dec xs of (ms', r, e) \<Rightarrow> (ms @ ms', r, e))"
proof (induction rule: list_all2_induct)
  case Nil
  then show ?case by simp
next
  case (Cons w ws m ms)
  then have "dec (w @ (concat ws @ xs)) = Got m (length w)" by blast
  with Cons drain_Got [OF this] show ?case by (simp split: prod.splits)
qed

lemma drain_leftover:
  "drain dec bs = (ms, r, None) \<Longrightarrow> dec r = Need"
proof (induction bs arbitrary: ms rule: length_induct)
  case (1 bs)
  show ?case
  proof (cases "dec bs")
    case Need
    with "1.prems" show ?thesis by (simp add: drain_Need)
  next
    case (Bad e)
    with "1.prems" show ?thesis by (simp add: drain_Bad)
  next
    case (Got m n)
    with "1.prems" obtain ms' where "drain dec (drop n bs) = (ms', r, None)"
      by (auto simp: drain_Got split: prod.splits)
    moreover have "length (drop n bs) < length bs" using got_bounds [OF Got] by auto
    ultimately show ?thesis using "1.IH" by blast
  qed
qed

lemma drain_rest:
  "drain dec bs = (ms, r, e) \<Longrightarrow> drop (length bs - length r) bs = r"
proof (induction bs arbitrary: ms rule: length_induct)
  case (1 bs)
  show ?case
  proof (cases "dec bs")
    case (Got m n)
    with "1.prems" obtain ms' where d: "drain dec (drop n bs) = (ms', r, e)"
      by (auto simp: drain_Got split: prod.splits)
    have n: "0 < n" "n \<le> length bs" using got_bounds [OF Got] by auto
    then have "length (drop n bs) < length bs" by simp
    with "1.IH" d have IH: "drop (length (drop n bs) - length r) (drop n bs) = r" by blast
    then have "length r \<le> length bs - n" by (metis diff_le_self length_drop)
    then have "n + (length (drop n bs) - length r) = length bs - length r" using n by simp
    then show ?thesis using IH by (metis drop_drop add.commute)
  qed (use "1.prems" in \<open>auto simp: drain_Need drain_Bad\<close>)
qed

lemma drain_reads_concat:
  "dec buf = Need \<Longrightarrow> drain_reads dec buf cs = drain dec (buf @ concat cs)"
proof (induction cs arbitrary: buf)
  case Nil
  then show ?case by (simp add: drain_Need)
next
  case (Cons c cs)
  obtain ms r e where d: "drain dec (buf @ c) = (ms, r, e)" by (metis prod_cases3)
  show ?case
  proof (cases e)
    case None
    with d have "dec r = Need" by (simp add: drain_leftover)
    with Cons.IH have "drain_reads dec r cs = drain dec (r @ concat cs)" by simp
    with d None drain_append [of "buf @ c" "concat cs"] show ?thesis
      by (simp split: prod.splits)
  next
    case (Some e')
    with d drain_append [of "buf @ c" "concat cs"] show ?thesis by simp
  qed
qed

lemma drain_reads_cut:
  "dec [] = Need \<Longrightarrow> concat cs = concat cs' \<Longrightarrow>
     drain_reads dec [] cs = drain_reads dec [] cs'"
  by (simp add: drain_reads_concat)

end

locale stream_codec = stream_decoder dec for dec :: "bytes \<Rightarrow> ('m, 'e) dec_step" +
  fixes enc :: "'m \<Rightarrow> bytes"
    and sendable :: "'m \<Rightarrow> bool"
  assumes dec_nil: "dec [] = Need"
    and dec_enc: "sendable m \<Longrightarrow> dec (enc m @ xs) = Got m (length (enc m))"
begin

lemma drain_encoded:
  "list_all sendable ms \<Longrightarrow>
     drain dec (concat (map enc ms) @ xs) =
       (case drain dec xs of (ms', r, e) \<Rightarrow> (ms @ ms', r, e))"
proof (induction ms)
  case Nil
  then show ?case by simp
next
  case (Cons m ms)
  then have "dec (enc m @ (concat (map enc ms) @ xs)) = Got m (length (enc m))"
    by (simp add: dec_enc)
  with Cons drain_Got [OF this] show ?case by (simp split: prod.splits)
qed

lemma drain_roundtrip: "list_all sendable ms \<Longrightarrow> drain dec (concat (map enc ms)) = (ms, [], None)"
  using drain_encoded [of ms "[]"] by (simp add: drain_Need dec_nil)

lemma reads_roundtrip:
  "list_all sendable ms \<Longrightarrow> concat cs = concat (map enc ms) \<Longrightarrow>
     drain_reads dec [] cs = (ms, [], None)"
  by (simp add: drain_reads_concat [OF dec_nil] drain_roundtrip)

lemma enc_nonempty: "sendable m \<Longrightarrow> enc m \<noteq> []"
  using dec_enc [of m "[]"] got_bounds [of "enc m" m "length (enc m)"] by auto

lemma enc_inject: "sendable m \<Longrightarrow> sendable m' \<Longrightarrow> enc m = enc m' \<Longrightarrow> m = m'"
  using dec_enc [of m "[]"] dec_enc [of m' "[]"] by simp

lemma truncated_needs_more: "sendable m \<Longrightarrow> strict_prefix p (enc m) \<Longrightarrow> dec p = Need"
proof (cases "dec p")
  case (Got m' n)
  assume m: "sendable m" and p: "strict_prefix p (enc m)"
  from p obtain q where q: "enc m = p @ q" "q \<noteq> []" by (auto elim: strict_prefixE')
  from got_mono [OF Got, of q] dec_enc [OF m, of "[]"] q have "n = length (enc m)" by simp
  with got_bounds [OF Got] q show ?thesis by simp
next
  case (Bad e)
  assume m: "sendable m" and p: "strict_prefix p (enc m)"
  from p obtain q where q: "enc m = p @ q" by (auto elim: strict_prefixE')
  with bad_mono [OF Bad, of q] dec_enc [OF m, of "[]"] show ?thesis by simp
qed simp

end

end
