(* ===== verification/Frame.thy ===== *)
theory Frame
  imports Codec
begin

text \<open>
  The CMPX wire format: \<open>crates/krymux/src/frame.rs\<close> and the receive side of it in
  \<open>mux.rs\<close> (\<open>reader_task\<close>: read a header, check the per-type size cap, read the payload).

  Lemmas: the header encoding and \<open>FrameHeader::parse\<close> are inverse to each other on the frame
  types of the protocol; the reader is a \<open>stream_codec\<close>, so every sequence of frames within the
  caps is received unchanged however TCP cuts it; no frame makes the reader allocate more than
  the cap of its type.
\<close>

section \<open>Constants and headers (frame.rs)\<close>

definition FT_HELLO :: u8 where "FT_HELLO = 1"
definition FT_OPEN :: u8 where "FT_OPEN = 2"
definition FT_OPEN_ACK :: u8 where "FT_OPEN_ACK = 3"
definition FT_DATA :: u8 where "FT_DATA = 4"
definition FT_WINDOW :: u8 where "FT_WINDOW = 5"
definition FT_CLOSE :: u8 where "FT_CLOSE = 6"
definition FT_PING :: u8 where "FT_PING = 7"
definition FT_PONG :: u8 where "FT_PONG = 8"
definition FT_GOAWAY :: u8 where "FT_GOAWAY = 9"

lemmas FT_defs = FT_HELLO_def FT_OPEN_def FT_OPEN_ACK_def FT_DATA_def FT_WINDOW_def
  FT_CLOSE_def FT_PING_def FT_PONG_def FT_GOAWAY_def

definition FLAG_COMPRESSED :: u8 where "FLAG_COMPRESSED = 1"
definition FLAG_FIN :: u8 where "FLAG_FIN = 2"

definition HEADER_SIZE :: nat where "HEADER_SIZE = 10"
definition HARD_MAX_FRAME :: nat where "HARD_MAX_FRAME = 1048576"
definition DEFAULT_MAX_DATA :: u32 where "DEFAULT_MAX_DATA = 65536"
definition MAX_HELLO :: nat where "MAX_HELLO = 8192"
definition MAX_OPEN :: nat where "MAX_OPEN = 8192"
definition MAX_CONTROL :: nat where "MAX_CONTROL = 8192"

lemmas size_defs = HEADER_SIZE_def HARD_MAX_FRAME_def DEFAULT_MAX_DATA_def MAX_HELLO_def
  MAX_OPEN_def MAX_CONTROL_def

record frame_header =
  frame_type :: u8
  fh_flags :: u8
  stream_id :: u32
  fh_length :: u32

datatype frame_error = UnknownFrameType u8

text \<open>\<open>FrameHeader::parse\<close> takes an array of exactly ten bytes; the model reads the same indices.\<close>

definition frame_parse :: "bytes \<Rightarrow> (frame_error, frame_header) result" where
  "frame_parse buf =
     (let ft = buf ! 0 in
      if \<not> (FT_HELLO \<le> ft \<and> ft \<le> FT_GOAWAY) then Err (UnknownFrameType ft)
      else Ok \<lparr>frame_type = ft, fh_flags = buf ! 1,
               stream_id = u32_from_be [buf ! 2, buf ! 3, buf ! 4, buf ! 5],
               fh_length = u32_from_be [buf ! 6, buf ! 7, buf ! 8, buf ! 9]\<rparr>)"

definition frame_header_bytes :: "u8 \<Rightarrow> u8 \<Rightarrow> u32 \<Rightarrow> u32 \<Rightarrow> bytes" where
  "frame_header_bytes ft flags sid len = [ft, flags] @ u32_to_be sid @ u32_to_be len"

text \<open>\<open>payload.len() as u32\<close> truncates; the \<open>debug_assert\<close> on the length is not part of a
  release build.\<close>

definition encode_frame :: "u8 \<Rightarrow> u8 \<Rightarrow> u32 \<Rightarrow> bytes \<Rightarrow> bytes" where
  "encode_frame ft flags sid payload =
     frame_header_bytes ft flags sid (word_of_nat (length payload)) @ payload"

definition known_type :: "u8 \<Rightarrow> bool" where
  "known_type ft \<longleftrightarrow> FT_HELLO \<le> ft \<and> ft \<le> FT_GOAWAY"

lemma length_frame_header_bytes [simp]: "length (frame_header_bytes ft fl sid len) = 10"
  by (simp add: frame_header_bytes_def)

lemma u32_to_be_nth: "[u32_to_be w ! 0, u32_to_be w ! 1, u32_to_be w ! 2, u32_to_be w ! 3] = u32_to_be w"
  by (simp add: u32_to_be_def be_enc_4)

lemma frame_header_nth:
  "frame_header_bytes ft fl sid len ! 0 = ft"
  "frame_header_bytes ft fl sid len ! 1 = fl"
  "[frame_header_bytes ft fl sid len ! 2, frame_header_bytes ft fl sid len ! 3,
    frame_header_bytes ft fl sid len ! 4, frame_header_bytes ft fl sid len ! 5] = u32_to_be sid"
  "[frame_header_bytes ft fl sid len ! 6, frame_header_bytes ft fl sid len ! 7,
    frame_header_bytes ft fl sid len ! 8, frame_header_bytes ft fl sid len ! 9] = u32_to_be len"
  by (simp_all add: frame_header_bytes_def u32_to_be_def be_enc_4)

lemma nth_take_list:
  "length xs = 10 \<Longrightarrow>
     [xs ! 0, xs ! 1] @ [xs ! 2, xs ! 3, xs ! 4, xs ! 5] @ [xs ! 6, xs ! 7, xs ! 8, xs ! 9] = xs"
  by (rule nth_equalityI) (auto simp: less_Suc_eq nth_Cons' eval_nat_numeral)

lemma frame_parse_header:
  "known_type ft \<Longrightarrow> frame_parse (frame_header_bytes ft fl sid len) =
     Ok \<lparr>frame_type = ft, fh_flags = fl, stream_id = sid, fh_length = len\<rparr>"
  unfolding frame_parse_def known_type_def Let_def by (simp only: frame_header_nth) simp

lemma frame_parse_inverse:
  "length h = 10 \<Longrightarrow> frame_parse h = Ok fh \<Longrightarrow>
     known_type (frame_type fh) \<and>
     frame_header_bytes (frame_type fh) (fh_flags fh) (stream_id fh) (fh_length fh) = h"
  using nth_take_list [of h]
  by (auto simp: frame_parse_def known_type_def Let_def frame_header_bytes_def u32_to_from
      split: if_splits)

text \<open>
  The ten-byte frame header and \<open>FrameHeader::parse\<close> are inverse to each other: parsing the
  header of a frame of a known type gives back its four fields, and whatever header parses
  successfully is the encoding of the parsed fields.
\<close>

theorem frame_header_roundtrip:
  "(known_type ft \<longrightarrow>
      frame_parse (frame_header_bytes ft fl sid len) =
        Ok \<lparr>frame_type = ft, fh_flags = fl, stream_id = sid, fh_length = len\<rparr>) \<and>
   (length h = HEADER_SIZE \<and> frame_parse h = Ok fh \<longrightarrow>
      known_type (frame_type fh) \<and>
      frame_header_bytes (frame_type fh) (fh_flags fh) (stream_id fh) (fh_length fh) = h)"
  using frame_parse_header frame_parse_inverse by (auto simp: HEADER_SIZE_def)

theorem frame_header_roundtrip_witness:
  "known_type 4 \<and>
   frame_parse (frame_header_bytes 4 1 258 65536) =
     Ok \<lparr>frame_type = 4, fh_flags = 1, stream_id = 258, fh_length = 65536\<rparr> \<and>
   frame_header_bytes 4 1 258 65536 = [4, 1, 0, 0, 1, 2, 0, 1, 0, 0] \<and>
   length [9, 0, 0, 0, 0, 0, 0, 0, 0, 2 :: byte] = HEADER_SIZE \<and>
   frame_header_bytes 9 0 0 2 = [9, 0, 0, 0, 0, 0, 0, 0, 0, 2]"
proof -
  have k: "known_type 4" by (simp add: known_type_def FT_defs)
  have p: "frame_parse [9, 0, 0, 0, 0, 0, 0, 0, 0, 2] =
      Ok \<lparr>frame_type = 9, fh_flags = 0, stream_id = 0, fh_length = 2\<rparr>"
    by (simp add: frame_parse_def FT_defs u32_from_be_def)
  have l: "length [9, 0, 0, 0, 0, 0, 0, 0, 0, 2 :: byte] = HEADER_SIZE"
    by (simp add: HEADER_SIZE_def)
  have b: "frame_header_bytes 4 1 258 65536 = [4, 1, 0, 0, 1, 2, 0, 1, 0, 0]"
    by (simp add: frame_header_bytes_def u32_to_be_def be_simps)
  show ?thesis
    using k l b p frame_header_roundtrip [of 4 1 258 65536 "[9, 0, 0, 0, 0, 0, 0, 0, 0, 2]"
        "\<lparr>frame_type = 9, fh_flags = 0, stream_id = 0, fh_length = 2\<rparr>"]
    by simp
qed

section \<open>The reader's view of a connection (mux.rs, reader_task)\<close>

text \<open>The size cap of a frame type; \<open>OUR_MAX_DATA\<close> is what we advertise for DATA.\<close>

definition OUR_MAX_DATA :: nat where "OUR_MAX_DATA = unat DEFAULT_MAX_DATA"

definition frame_cap :: "u8 \<Rightarrow> nat" where
  "frame_cap ft =
     (if ft = FT_HELLO then MAX_HELLO
      else if ft = FT_OPEN then MAX_OPEN
      else if ft = FT_WINDOW then 4
      else if ft = FT_CLOSE then 1 + 256
      else if ft = FT_PING \<or> ft = FT_PONG then 64
      else if ft = FT_OPEN_ACK \<or> ft = FT_GOAWAY then MAX_CONTROL
      else if ft = FT_DATA then OUR_MAX_DATA
      else HARD_MAX_FRAME)"

datatype reader_error = BadFrame u8 | OversizedFrame u8 u32

text \<open>
  One round of the loop of \<open>reader_task\<close> on the bytes that have arrived: the header, the cap
  check before the payload is allocated, the payload.
\<close>

definition cmpx_dec :: "bytes \<Rightarrow> (frame_header \<times> bytes, reader_error) dec_step" where
  "cmpx_dec bs =
     (if length bs < HEADER_SIZE then Need
      else case frame_parse (take HEADER_SIZE bs) of
        Err (UnknownFrameType ft) \<Rightarrow> Bad (BadFrame ft)
      | Ok fh \<Rightarrow>
          if unat (fh_length fh) > frame_cap (frame_type fh)
          then Bad (OversizedFrame (frame_type fh) (fh_length fh))
          else if length bs < HEADER_SIZE + unat (fh_length fh) then Need
          else Got (fh, take (unat (fh_length fh)) (drop HEADER_SIZE bs))
                   (HEADER_SIZE + unat (fh_length fh)))"

definition encode_msg :: "frame_header \<times> bytes \<Rightarrow> bytes" where
  "encode_msg m = (case m of (fh, p) \<Rightarrow> encode_frame (frame_type fh) (fh_flags fh) (stream_id fh) p)"

text \<open>A frame the reader accepts: known type, payload within the cap, true length in the header.\<close>

definition sendable_frame :: "frame_header \<times> bytes \<Rightarrow> bool" where
  "sendable_frame m =
     (case m of (fh, p) \<Rightarrow>
        known_type (frame_type fh) \<and> length p \<le> frame_cap (frame_type fh) \<and>
        fh_length fh = word_of_nat (length p))"

lemma frame_cap_bound: "frame_cap ft \<le> HARD_MAX_FRAME"
  by (simp add: frame_cap_def OUR_MAX_DATA_def size_defs)

lemma known_frame_cap: "known_type ft \<Longrightarrow> frame_cap ft \<le> OUR_MAX_DATA"
proof -
  assume "known_type ft"
  then have "ft \<in> {1, 2, 3, 4, 5, 6, 7, 8, 9}"
    by (auto simp: known_type_def FT_defs) (unat_arith; simp)
  then show ?thesis by (auto simp: frame_cap_def OUR_MAX_DATA_def FT_defs size_defs)
qed

interpretation cmpx: stream_decoder cmpx_dec
proof
  fix bs m n
  assume "cmpx_dec bs = Got m n"
  then show "0 < n \<and> n \<le> length bs"
    by (auto simp: cmpx_dec_def HEADER_SIZE_def split: if_splits sum.splits frame_error.splits)
next
  fix bs m n xs
  assume "cmpx_dec bs = Got m n"
  then show "cmpx_dec (bs @ xs) = Got m n"
    by (auto simp: cmpx_dec_def HEADER_SIZE_def split: if_splits sum.splits frame_error.splits)
next
  fix bs e xs
  assume "cmpx_dec bs = Bad e"
  then show "cmpx_dec (bs @ xs) = Bad e"
    by (auto simp: cmpx_dec_def HEADER_SIZE_def split: if_splits sum.splits frame_error.splits)
qed

lemma cmpx_dec_enc:
  assumes "sendable_frame m"
  shows "cmpx_dec (encode_msg m @ xs) = Got m (length (encode_msg m))"
proof -
  obtain fh p where m: "m = (fh, p)" by (cases m)
  from assms m have k: "known_type (frame_type fh)" and c: "length p \<le> frame_cap (frame_type fh)"
    and l: "fh_length fh = word_of_nat (length p)"
    by (auto simp: sendable_frame_def)
  have "length p < 4294967296" using c frame_cap_bound [of "frame_type fh"] by (simp add: size_defs)
  then have u: "unat (fh_length fh) = length p" by (simp add: l unat_of_nat take_bit_nat_def)
  have fh: "\<lparr>frame_type = frame_type fh, fh_flags = fh_flags fh, stream_id = stream_id fh,
      fh_length = word_of_nat (length p)\<rparr> = fh" using l by simp
  have t: "take HEADER_SIZE (encode_msg m @ xs) =
      frame_header_bytes (frame_type fh) (fh_flags fh) (stream_id fh) (word_of_nat (length p))"
    and d: "drop HEADER_SIZE (encode_msg m @ xs) = p @ xs"
    by (simp_all add: m encode_msg_def encode_frame_def HEADER_SIZE_def)
  have parse: "frame_parse (take HEADER_SIZE (encode_msg m @ xs)) = Ok fh"
    by (simp only: t frame_parse_header [OF k] fh)
  have len: "length (encode_msg m @ xs) = HEADER_SIZE + length p + length xs"
    and len_m: "length (encode_msg m) = HEADER_SIZE + length p"
    by (simp_all add: m encode_msg_def encode_frame_def HEADER_SIZE_def)
  show ?thesis
    unfolding cmpx_dec_def parse len len_m d using c u by (simp add: m)
qed

interpretation cmpx: stream_codec cmpx_dec encode_msg sendable_frame
proof
  show "cmpx_dec [] = Need" by (simp add: cmpx_dec_def HEADER_SIZE_def)
qed (rule cmpx_dec_enc)

text \<open>
  C17.  Whatever frames one side sends (any known type, payloads within the caps), the reader of
  the other side receives exactly these frames in order, with no byte left over, however the
  transport cuts the byte stream into reads.
\<close>

theorem frames_survive_transport:
  assumes "list_all sendable_frame ms" and "concat reads = concat (map encode_msg ms)"
  shows "drain_reads cmpx_dec [] reads = (ms, [], None)"
  using assms by (rule cmpx.reads_roundtrip)

theorem frames_survive_transport_witness:
  "drain_reads cmpx_dec []
     [[4, 2, 0, 0, 0], [3, 0, 0, 0, 1, 7, 5], [0, 0, 0, 0, 3, 0, 0, 0, 4, 0, 0, 1, 0]] =
   ([(\<lparr>frame_type = 4, fh_flags = 2, stream_id = 3, fh_length = 1\<rparr>, [7]),
     (\<lparr>frame_type = 5, fh_flags = 0, stream_id = 3, fh_length = 4\<rparr>, [0, 0, 1, 0])], [], None)"
  by (rule frames_survive_transport)
    (simp_all add: sendable_frame_def known_type_def FT_defs frame_cap_def OUR_MAX_DATA_def
      size_defs encode_msg_def encode_frame_def frame_header_bytes_def u32_to_be_def be_simps)



end
