(* ===== verification/RustStr.thy ===== *)
theory RustStr
  imports Prelude
begin

text \<open>
  The operations of Rust's \<open>str\<close> and of its integer parsers that the sources use.  A \<open>str\<close> is the
  list of its bytes (\<open>string\<close>); indices and lengths count bytes, as in Rust.  Case folding and
  trimming are modelled on ASCII (\<open>to_lowercase\<close> changes \<open>A\<close> to \<open>Z\<close> only, \<open>trim\<close> removes the six
  ASCII white-space characters); bytes of non-ASCII characters are left as they are.

  Lemmas: how the searching and splitting functions cut a string, and that the decimal rendering
  of a number parses back to it.
\<close>

fun find_char :: "char \<Rightarrow> string \<Rightarrow> nat option" where
  "find_char c [] = None"
| "find_char c (x # xs) = (if x = c then Some 0 else map_option Suc (find_char c xs))"

fun starts_with :: "'a list \<Rightarrow> 'a list \<Rightarrow> bool" where
  "starts_with [] s = True"
| "starts_with (p # ps) [] = False"
| "starts_with (p # ps) (x # xs) = (p = x \<and> starts_with ps xs)"

definition ends_with :: "'a list \<Rightarrow> 'a list \<Rightarrow> bool" where
  "ends_with p s = starts_with (rev p) (rev s)"

definition strip_prefix :: "string \<Rightarrow> string \<Rightarrow> string option" where
  "strip_prefix p s = (if starts_with p s then Some (drop (length p) s) else None)"

definition split_once :: "char \<Rightarrow> string \<Rightarrow> (string \<times> string) option" where
  "split_once c s = map_option (\<lambda>i. (take i s, drop (Suc i) s)) (find_char c s)"

definition rfind_char :: "char \<Rightarrow> string \<Rightarrow> nat option" where
  "rfind_char c s = map_option (\<lambda>i. length s - Suc i) (find_char c (rev s))"

definition rsplit_once :: "char \<Rightarrow> string \<Rightarrow> (string \<times> string) option" where
  "rsplit_once c s = map_option (\<lambda>i. (take i s, drop (Suc i) s)) (rfind_char c s)"

definition is_whitespace :: "char \<Rightarrow> bool" where
  "is_whitespace c \<longleftrightarrow> (let n = of_char c :: nat in n = 32 \<or> 9 \<le> n \<and> n \<le> 13)"

definition trim :: "string \<Rightarrow> string" where
  "trim s = rev (dropWhile is_whitespace (rev (dropWhile is_whitespace s)))"

definition trim_start_matches :: "char \<Rightarrow> string \<Rightarrow> string" where
  "trim_start_matches c s = dropWhile (\<lambda>x. x = c) s"

definition trim_end_matches :: "char \<Rightarrow> string \<Rightarrow> string" where
  "trim_end_matches c s = rev (dropWhile (\<lambda>x. x = c) (rev s))"

definition lower_char :: "char \<Rightarrow> char" where
  "lower_char c = (let n = of_char c :: nat in if 65 \<le> n \<and> n \<le> 90 then char_of (n + 32) else c)"

definition to_lowercase :: "string \<Rightarrow> string" where
  "to_lowercase s = map lower_char s"

definition is_digit :: "char \<Rightarrow> bool" where
  "is_digit c \<longleftrightarrow> (let n = of_char c :: nat in 48 \<le> n \<and> n \<le> 57)"

definition is_ascii_hexdigit :: "char \<Rightarrow> bool" where
  "is_ascii_hexdigit c \<longleftrightarrow> (let n = of_char c :: nat in
     48 \<le> n \<and> n \<le> 57 \<or> 65 \<le> n \<and> n \<le> 70 \<or> 97 \<le> n \<and> n \<le> 102)"

definition digit_val :: "char \<Rightarrow> nat" where
  "digit_val c = of_char c - 48"

definition dec_val :: "string \<Rightarrow> nat" where
  "dec_val ds = foldl (\<lambda>a c. a * 10 + digit_val c) 0 ds"

text \<open>\<open>str::parse\<close> of an unsigned type with the given number of values: an optional \<open>+\<close>, then at
  least one digit and nothing else, within range.\<close>

definition parse_uint :: "nat \<Rightarrow> string \<Rightarrow> nat option" where
  "parse_uint bound s =
     (let ds = (case s of [] \<Rightarrow> [] | c # r \<Rightarrow> if c = CHR ''+'' then r else s) in
      if ds \<noteq> [] \<and> list_all is_digit ds \<and> dec_val ds < bound then Some (dec_val ds) else None)"

definition parse_u16 :: "string \<Rightarrow> u16 option" where
  "parse_u16 s = map_option word_of_nat (parse_uint 65536 s)"

text \<open>\<open>str::parse\<close> of \<open>i32\<close>: one optional sign.\<close>

definition parse_i32 :: "string \<Rightarrow> int option" where
  "parse_i32 s =
     (case s of
        [] \<Rightarrow> None
      | c # r \<Rightarrow>
          if c = CHR ''-'' then
            (if r \<noteq> [] \<and> list_all is_digit r \<and> dec_val r \<le> 2147483648
             then Some (- int (dec_val r)) else None)
          else map_option int (parse_uint 2147483648 s))"

text \<open>\<open>Display\<close> of an unsigned integer.\<close>

definition digit_char :: "nat \<Rightarrow> char" where
  "digit_char d = char_of (48 + d)"

fun show_nat :: "nat \<Rightarrow> string" where
  "show_nat n = (if n < 10 then [digit_char n] else show_nat (n div 10) @ [digit_char (n mod 10)])"

declare show_nat.simps [simp del]

lemmas str_defs [str_simps] = ends_with_def strip_prefix_def split_once_def rfind_char_def
  rsplit_once_def is_whitespace_def trim_def trim_start_matches_def trim_end_matches_def
  lower_char_def to_lowercase_def is_digit_def is_ascii_hexdigit_def digit_val_def dec_val_def
  parse_uint_def parse_u16_def parse_i32_def digit_char_def

section \<open>Cutting strings\<close>

lemma starts_with_iff: "starts_with p s \<longleftrightarrow> (\<exists>r. s = p @ r)"
  by (induction p s rule: starts_with.induct) auto

lemma starts_with_append [simp]: "starts_with p (p @ r)"
  by (auto simp: starts_with_iff)

lemma ends_with_iff: "ends_with p s \<longleftrightarrow> (\<exists>r. s = r @ p)"
proof -
  have "(\<exists>r. rev s = rev p @ r) \<longleftrightarrow> (\<exists>r. s = r @ p)"
    by (metis rev_append rev_rev_ident)
  then show ?thesis by (simp add: ends_with_def starts_with_iff)
qed

lemma strip_prefix_Some: "strip_prefix p s = Some r \<longleftrightarrow> s = p @ r"
  by (auto simp: strip_prefix_def starts_with_iff)

lemma find_char_None: "find_char c s = None \<longleftrightarrow> c \<notin> set s"
  by (induction s) auto

lemma find_char_Some:
  "find_char c s = Some i \<longleftrightarrow> i < length s \<and> s ! i = c \<and> c \<notin> set (take i s)"
proof (induction s arbitrary: i)
  case Nil
  then show ?case by simp
next
  case (Cons x xs)
  show ?case by (cases i) (auto simp: Cons)
qed

lemma find_char_append: "c \<notin> set xs \<Longrightarrow> find_char c (xs @ c # ys) = Some (length xs)"
  by (simp add: find_char_Some)

lemma split_once_append: "c \<notin> set xs \<Longrightarrow> split_once c (xs @ c # ys) = Some (xs, ys)"
  by (simp add: split_once_def find_char_append)

lemma split_once_Some: "split_once c s = Some (a, b) \<Longrightarrow> s = a @ c # b \<and> c \<notin> set a"
  by (auto simp: split_once_def find_char_Some id_take_nth_drop [symmetric])

lemma rsplit_once_append: "c \<notin> set ys \<Longrightarrow> rsplit_once c (xs @ c # ys) = Some (xs, ys)"
  using find_char_append [of c "rev ys" "rev xs"]
  by (simp add: rsplit_once_def rfind_char_def)

lemma rsplit_once_None: "rsplit_once c s = None \<longleftrightarrow> c \<notin> set s"
  by (simp add: rsplit_once_def rfind_char_def find_char_None)

section \<open>Numbers in decimal\<close>

lemma digit_char_props:
  assumes "d < 10"
  shows "is_digit (digit_char d)" and "digit_val (digit_char d) = d"
  using assms by (auto simp: is_digit_def digit_char_def digit_val_def of_char_of)

lemma show_nat_nonempty: "show_nat n \<noteq> []"
  by (subst show_nat.simps) simp

lemma show_nat_digits: "list_all is_digit (show_nat n)"
proof (induction n rule: show_nat.induct)
  case (1 n)
  then show ?case
    by (subst show_nat.simps) (auto simp: digit_char_props)
qed

lemma dec_val_snoc: "dec_val (ds @ [c]) = dec_val ds * 10 + digit_val c"
  by (simp add: dec_val_def)

lemma dec_val_show_nat: "dec_val (show_nat n) = n"
proof (induction n rule: show_nat.induct)
  case (1 n)
  show ?case
  proof (cases "n < 10")
    case True
    then show ?thesis by (subst show_nat.simps) (simp add: dec_val_def digit_char_props)
  next
    case False
    with 1 show ?thesis
      by (subst show_nat.simps) (simp add: dec_val_snoc digit_char_props)
  qed
qed

lemma is_digit_not_plus: "is_digit c \<Longrightarrow> c \<noteq> CHR ''+''"
  by (auto simp: is_digit_def)

lemma is_digit_not_colon: "is_digit c \<Longrightarrow> c \<noteq> CHR '':''"
  by (auto simp: is_digit_def)

lemma parse_uint_digits:
  "ds \<noteq> [] \<Longrightarrow> list_all is_digit ds \<Longrightarrow> dec_val ds < b \<Longrightarrow> parse_uint b ds = Some (dec_val ds)"
  by (cases ds) (auto simp: parse_uint_def is_digit_not_plus)

lemma parse_uint_show [simp]: "n < b \<Longrightarrow> parse_uint b (show_nat n) = Some n"
  by (simp add: parse_uint_digits show_nat_nonempty show_nat_digits dec_val_show_nat)

lemma parse_uint_bound: "parse_uint b s = Some n \<Longrightarrow> n < b"
  by (auto simp: parse_uint_def Let_def split: if_splits)

lemma parse_u16_show [simp]: "parse_u16 (show_nat (unat (p :: u16))) = Some p"
  using unat_u16_lt [of p] by (simp add: parse_u16_def)

lemma show_nat_no_colon: "CHR '':'' \<notin> set (show_nat n)"
  using show_nat_digits [of n] by (auto simp: list_all_iff dest: is_digit_not_colon)

section \<open>Text out of bytes\<close>

text \<open>
  \<open>String::from_utf8_lossy\<close>: well-formed UTF-8 sequences are kept, and every maximal ill-formed
  piece becomes U+FFFD.  \<open>utf8_piece\<close> looks at the first piece: its length and whether it is
  well formed.
\<close>

definition is_cont :: "byte list \<Rightarrow> nat \<Rightarrow> bool" where
  "is_cont bs i \<longleftrightarrow> i < length bs \<and> 0x80 \<le> bs ! i \<and> bs ! i \<le> 0xbf"

definition second_ok :: "byte \<Rightarrow> byte list \<Rightarrow> bool" where
  "second_ok b bs \<longleftrightarrow> is_cont bs 1 \<and>
     (b = 0xe0 \<longrightarrow> 0xa0 \<le> bs ! 1) \<and> (b = 0xed \<longrightarrow> bs ! 1 \<le> 0x9f) \<and>
     (b = 0xf0 \<longrightarrow> 0x90 \<le> bs ! 1) \<and> (b = 0xf4 \<longrightarrow> bs ! 1 \<le> 0x8f)"

definition utf8_piece :: "byte list \<Rightarrow> nat \<times> bool" where
  "utf8_piece bs =
     (let b = hd bs in
      if b < 0x80 then (1, True)
      else if 0xc2 \<le> b \<and> b \<le> 0xdf then (if is_cont bs 1 then (2, True) else (1, False))
      else if 0xe0 \<le> b \<and> b \<le> 0xef then
        (if \<not> second_ok b bs then (1, False) else if \<not> is_cont bs 2 then (2, False) else (3, True))
      else if 0xf0 \<le> b \<and> b \<le> 0xf4 then
        (if \<not> second_ok b bs then (1, False) else if \<not> is_cont bs 2 then (2, False)
         else if \<not> is_cont bs 3 then (3, False) else (4, True))
      else (1, False))"

definition byte_char :: "byte \<Rightarrow> char" where
  "byte_char b = char_of (unat b)"

definition replacement_char :: string where
  "replacement_char = map byte_char [0xef, 0xbf, 0xbd]"

lemma utf8_piece_pos: "0 < fst (utf8_piece bs)"
  by (auto simp: utf8_piece_def Let_def)

function from_utf8_lossy :: "byte list \<Rightarrow> string" where
  "from_utf8_lossy bs =
     (if bs = [] then []
      else case utf8_piece bs of (n, ok) \<Rightarrow>
        (if ok then map byte_char (take n bs) else replacement_char) @ from_utf8_lossy (drop n bs))"
  by auto
termination
proof -
  have "length (drop n bs) < length bs" if "bs \<noteq> []" and "(n, ok) = utf8_piece bs" for n ok and bs :: bytes
    using that utf8_piece_pos [of bs] by (cases bs) (auto dest: arg_cong [where f = fst])
  then show ?thesis by (relation "measure length") auto
qed

declare from_utf8_lossy.simps [simp del]

lemma from_utf8_lossy_ascii: "list_all (\<lambda>b. b < 0x80) bs \<Longrightarrow> from_utf8_lossy bs = map byte_char bs"
proof (induction bs)
  case Nil
  then show ?case by (simp add: from_utf8_lossy.simps)
next
  case (Cons b bs)
  then show ?case by (subst from_utf8_lossy.simps) (simp add: utf8_piece_def)
qed

text \<open>\<open>format!("{:02x}")\<close>, \<open>join\<close>, \<open>chunks(2)\<close> and \<open>contains\<close>.\<close>

definition hex_digit :: "nat \<Rightarrow> char" where
  "hex_digit d = char_of (if d < 10 then 48 + d else 87 + d)"

definition hex02 :: "byte \<Rightarrow> string" where
  "hex02 b = [hex_digit (unat b div 16), hex_digit (unat b mod 16)]"

fun join :: "string \<Rightarrow> string list \<Rightarrow> string" where
  "join sep [] = []"
| "join sep [x] = x"
| "join sep (x # xs) = x @ sep @ join sep xs"

fun hex_groups :: "byte list \<Rightarrow> string list" where
  "hex_groups (a # b # r) = (hex02 a @ hex02 b) # hex_groups r"
| "hex_groups _ = []"

fun str_contains :: "string \<Rightarrow> string \<Rightarrow> bool" where
  "str_contains p [] = (p = [])"
| "str_contains p (x # xs) = (starts_with p (x # xs) \<or> str_contains p xs)"

section \<open>Splitting\<close>

text \<open>\<open>str::split\<close> with a set of separators: always at least one piece.\<close>

fun split_where :: "(char \<Rightarrow> bool) \<Rightarrow> string \<Rightarrow> string list" where
  "split_where P [] = [[]]"
| "split_where P (c # cs) =
     (if P c then [] # split_where P cs
      else case split_where P cs of p # ps \<Rightarrow> (c # p) # ps | [] \<Rightarrow> [[c]])"

lemma split_where_nonempty [simp]: "split_where P s \<noteq> []"
  by (induction s) (auto split: list.splits)

lemma split_where_append: "P c \<Longrightarrow> split_where P (a @ c # b) = split_where P a @ split_where P b"
  by (induction a) (auto split: list.splits)

lemma split_where_plain: "(\<And>c. c \<in> set s \<Longrightarrow> \<not> P c) \<Longrightarrow> split_where P s = [s]"
  by (induction s) auto

lemma split_where_extend:
  "(\<And>c. c \<in> set s \<Longrightarrow> \<not> P c) \<Longrightarrow> split_where P (a @ s) = butlast (split_where P a) @ [last (split_where P a) @ s]"
proof (induction a)
  case Nil
  then show ?case by (simp add: split_where_plain)
next
  case (Cons c a)
  obtain p ps where "split_where P a = p # ps" by (cases "split_where P a") auto
  then show ?case using Cons by (cases ps) auto
qed

end
