(* ===== verification/Compress.thy ===== *)
theory Compress
  imports RustStr
begin

text \<open>
  Algorithm names and negotiation: \<open>crates/krymux/src/compress.rs\<close>.

  The process-global dictionary registry \<open>ZSTD_DICT\<close> and the cargo feature \<open>zstd\<close> are one record,
  \<open>codec_env\<close>; it is an argument of the functions that read them.  SHA-256 and the \<open>hex\<close> crate
  are arguments of \<open>set_zstd_dictionary\<close>.  The compression engines themselves (flate2, brotli,
  zstd) are third-party code: a \<open>Compressor\<close> is the constructor that \<open>Compressor::new\<close> selects
  with the engine's state, and the engine's operations are arguments of \<open>push\<close>.

  Lemmas: a level suffix is never read out of a fingerprint and is within 1..22; a negotiated
  algorithm is in the peer's list or \<open>none\<close>; the two ends of a stream negotiate the same algorithm
  whenever the opener picked one its own build supports and the request names no foreign
  dictionary; an encoder and a decoder made for the same name use the same engine and dictionary.
\<close>

section \<open>The dictionary registry\<close>

definition ALGO_NONE :: string where "ALGO_NONE = ''none''"
definition ALGO_DEFLATE :: string where "ALGO_DEFLATE = ''deflate''"
definition ALGO_BROTLI :: string where "ALGO_BROTLI = ''brotli''"
definition ALGO_ZSTD :: string where "ALGO_ZSTD = ''zstd''"
definition ALGO_ZSTDD :: string where "ALGO_ZSTDD = ''zstdd''"

lemmas ALGO_defs = ALGO_NONE_def ALGO_DEFLATE_def ALGO_BROTLI_def ALGO_ZSTD_def ALGO_ZSTDD_def

record zstd_dict_entry =
  dict_bytes :: bytes
  dict_name :: string

record codec_env =
  feature_zstd :: bool
  zstd_dict :: "zstd_dict_entry option"

definition set_zstd_dictionary ::
    "(bytes \<Rightarrow> bytes) \<Rightarrow> (bytes \<Rightarrow> string) \<Rightarrow> codec_env \<Rightarrow> bytes \<Rightarrow> string \<times> codec_env" where
  "set_zstd_dictionary sha256 hex_encode env bs =
     (if bs = [] then ([], env)
      else let digest = sha256 bs in
        if \<not> feature_zstd env then ([], env)
        else let fp = hex_encode (take 4 digest); name = ALGO_ZSTDD @ '':'' @ fp
          in (name, env\<lparr>zstd_dict := Some \<lparr>dict_bytes = bs, dict_name = name\<rparr>\<rparr>))"

definition zstdd_name :: "codec_env \<Rightarrow> string option" where
  "zstdd_name env = (if feature_zstd env then map_option dict_name (zstd_dict env) else None)"

definition zstdd_bytes_for :: "codec_env \<Rightarrow> string \<Rightarrow> bytes option" where
  "zstdd_bytes_for env algo =
     (case zstd_dict env of
        None \<Rightarrow> None
      | Some d \<Rightarrow> if dict_name d = algo then Some (dict_bytes d) else None)"

definition is_zstdd :: "string \<Rightarrow> bool" where
  "is_zstdd algo =
     (case strip_prefix ALGO_ZSTDD algo of
        Some rest \<Rightarrow> length rest = 9 \<and> starts_with '':'' rest \<and> list_all is_ascii_hexdigit (drop 1 rest)
      | None \<Rightarrow> False)"

definition supported :: "codec_env \<Rightarrow> string list" where
  "supported env =
     [ALGO_NONE, ALGO_DEFLATE, ALGO_BROTLI] @
     (if feature_zstd env
      then ALGO_ZSTD # (case zstdd_name env of Some name \<Rightarrow> [name] | None \<Rightarrow> [])
      else [])"

section \<open>Requests\<close>

definition base_algo :: "string \<Rightarrow> string" where
  "base_algo requested =
     (case find_char (CHR '':'') requested of None \<Rightarrow> requested | Some i \<Rightarrow> take i requested)"

definition parse_level :: "string \<Rightarrow> int option" where
  "parse_level requested =
     (if is_zstdd requested then None
      else case find_char (CHR '':'') requested of
        None \<Rightarrow> None
      | Some i \<Rightarrow>
          (case parse_i32 (drop (i + 1) requested) of
             None \<Rightarrow> None
           | Some lvl \<Rightarrow> if 1 \<le> lvl \<and> lvl \<le> 22 then Some lvl else None))"

definition pick_zstdd :: "codec_env \<Rightarrow> string list \<Rightarrow> string option" where
  "pick_zstdd env peer_supported =
     (case zstdd_name env of
        None \<Rightarrow> None
      | Some name \<Rightarrow> if name \<in> set peer_supported then Some name else None)"

text \<open>The closure \<open>pick\<close> of \<open>negotiate\<close>, and \<open>Option::or_else\<close>.\<close>

definition pick :: "string list \<Rightarrow> string \<Rightarrow> string option" where
  "pick peer_supported a =
     (if a \<in> set peer_supported
      then Some (if a = ALGO_ZSTD then ALGO_ZSTD else if a = ALGO_BROTLI then ALGO_BROTLI
                 else if a = ALGO_DEFLATE then ALGO_DEFLATE else ALGO_NONE)
      else None)"

fun or_else :: "'a option \<Rightarrow> 'a option \<Rightarrow> 'a option" where
  "or_else (Some x) _ = Some x"
| "or_else None y = y"

definition negotiate :: "codec_env \<Rightarrow> string \<Rightarrow> string list \<Rightarrow> string" where
  "negotiate env requested peer_supported =
     (let base = base_algo requested in
      if base = [] \<or> base = ALGO_NONE then ALGO_NONE
      else if base = ''auto'' then
        unwrap_or (or_else (pick_zstdd env peer_supported)
                  (or_else (pick peer_supported ALGO_ZSTD)
                  (or_else (pick peer_supported ALGO_DEFLATE)
                           (pick peer_supported ALGO_BROTLI)))) ALGO_NONE
      else if base = ALGO_ZSTD then
        unwrap_or (or_else (pick_zstdd env peer_supported) (pick peer_supported ALGO_ZSTD)) ALGO_NONE
      else if base = ALGO_ZSTDD then
        (if \<not> feature_zstd env then ALGO_NONE
         else case zstdd_name env of
           Some name \<Rightarrow>
             if requested = name \<and> name \<in> set peer_supported then name
             else unwrap_or (pick peer_supported ALGO_ZSTD) ALGO_NONE
         | None \<Rightarrow> unwrap_or (pick peer_supported ALGO_ZSTD) ALGO_NONE)
      else if base = ALGO_BROTLI then unwrap_or (pick peer_supported ALGO_BROTLI) ALGO_NONE
      else if base = ALGO_DEFLATE then unwrap_or (pick peer_supported ALGO_DEFLATE) ALGO_NONE
      else ALGO_NONE)"

text \<open>\<open>default_level\<close> of mux.rs.\<close>

definition default_level :: "string \<Rightarrow> int" where
  "default_level algo =
     (if algo = ALGO_DEFLATE then 6 else if algo = ALGO_BROTLI then 4
      else if algo = ALGO_ZSTD then 3 else 0)"

section \<open>Content sniffing\<close>

definition MAGIC_PREFIXES :: "bytes list" where
  "MAGIC_PREFIXES =
     [[0x1f, 0x8b], [0x28, 0xb5, 0x2f, 0xfd], [0x50, 0x4b, 0x03, 0x04], [0x89, 0x50, 0x4e, 0x47],
      [0xff, 0xd8, 0xff], [0x37, 0x7a, 0xbc, 0xaf], [0x52, 0x61, 0x72, 0x21],
      [0x25, 0x50, 0x44, 0x46], [0x42, 0x5a, 0x68]]"

definition looks_precompressed :: "bytes \<Rightarrow> bool" where
  "looks_precompressed chunk =
     (if length chunk < 4 then False
      else if list_ex (\<lambda>magic. starts_with magic chunk) MAGIC_PREFIXES then True
      else length chunk \<ge> 12 \<and> take 4 (drop 4 chunk) = [0x66, 0x74, 0x79, 0x70])"

section \<open>Compressor and Decompressor\<close>

text \<open>
  \<open>CompInner\<close> and \<open>DecInner\<close>: which engine with which parameters.  The \<open>'s\<close> of the pairs below is
  the state of a third-party engine.
\<close>

datatype comp_inner =
    CompNone
  | CompDeflate int
  | CompBrotli int
  | CompZstd "bytes option" int string \<comment> \<open>dictionary, level, reported name\<close>

datatype dec_inner =
    DecNone
  | DecDeflate
  | DecBrotli
  | DecZstd "bytes option"
  | DecZstdMissingDict

definition compressor_new :: "codec_env \<Rightarrow> string \<Rightarrow> int \<Rightarrow> comp_inner" where
  "compressor_new env algo level =
     (if algo = ALGO_DEFLATE then CompDeflate (max level 0)
      else if algo = ALGO_BROTLI then CompBrotli (max level 1)
      else if feature_zstd env \<and> algo = ALGO_ZSTD then CompZstd None (max level 1) ALGO_ZSTD
      else if feature_zstd env \<and> is_zstdd algo then
        (case zstdd_bytes_for env algo of
           Some dict \<Rightarrow> CompZstd (Some dict) (if level \<ge> 1 then level else 3)
                         (unwrap_or (zstdd_name env) ALGO_ZSTD)
         | None \<Rightarrow> CompNone)
      else CompNone)"

definition decompressor_new :: "codec_env \<Rightarrow> string \<Rightarrow> dec_inner" where
  "decompressor_new env algo =
     (if algo = ALGO_DEFLATE then DecDeflate
      else if algo = ALGO_BROTLI then DecBrotli
      else if feature_zstd env \<and> algo = ALGO_ZSTD then DecZstd None
      else if feature_zstd env \<and> is_zstdd algo then
        (case zstdd_bytes_for env algo of Some dict \<Rightarrow> DecZstd (Some dict) | None \<Rightarrow> DecZstdMissingDict)
      else DecNone)"

datatype io_error = InvalidData string | EngineError

text \<open>\<open>push\<close>: the engine call (write, flush, take the output) is the argument \<open>engine\<close>.\<close>

definition compressor_push ::
    "('s \<Rightarrow> bytes \<Rightarrow> (io_error, bytes \<times> 's) result) \<Rightarrow> comp_inner \<Rightarrow> 's \<Rightarrow> bytes
      \<Rightarrow> (io_error, bytes \<times> 's) result" where
  "compressor_push engine inner s data =
     (if data = [] then Ok ([], s)
      else case inner of CompNone \<Rightarrow> Ok (data, s) | _ \<Rightarrow> engine s data)"

definition decompressor_push ::
    "('s \<Rightarrow> bytes \<Rightarrow> (io_error, bytes \<times> 's) result) \<Rightarrow> dec_inner \<Rightarrow> 's \<Rightarrow> bytes
      \<Rightarrow> (io_error, bytes \<times> 's) result" where
  "decompressor_push engine inner s data =
     (if data = [] then Ok ([], s)
      else case inner of
        DecNone \<Rightarrow> Ok (data, s)
      | DecZstdMissingDict \<Rightarrow> Err (InvalidData ''zstd dictionary not registered for this stream'')
      | _ \<Rightarrow> engine s data)"

definition decompressor_finish ::
    "('s \<Rightarrow> (io_error, bytes \<times> 's) result) \<Rightarrow> dec_inner \<Rightarrow> 's \<Rightarrow> (io_error, bytes \<times> 's) result" where
  "decompressor_finish engine_finish inner s =
     (case inner of
        DecBrotli \<Rightarrow> engine_finish s
      | DecDeflate \<Rightarrow> engine_finish s
      | DecZstd _ \<Rightarrow> engine_finish s
      | _ \<Rightarrow> Ok ([], s))"

definition compressor_algo :: "comp_inner \<Rightarrow> string" where
  "compressor_algo inner =
     (case inner of CompNone \<Rightarrow> ALGO_NONE | CompDeflate _ \<Rightarrow> ALGO_DEFLATE | CompBrotli _ \<Rightarrow> ALGO_BROTLI
      | CompZstd _ _ name \<Rightarrow> name)"

section \<open>Well-formed environments\<close>

text \<open>What \<open>set_zstd_dictionary\<close> establishes: a registered name is a dictionary name.\<close>

definition wf_env :: "codec_env \<Rightarrow> bool" where
  "wf_env env \<longleftrightarrow> (case zstd_dict env of None \<Rightarrow> True | Some d \<Rightarrow> is_zstdd (dict_name d))"

lemma set_zstd_dictionary_wf:
  assumes hex: "\<And>b. length (hex_encode b) = 2 * length b \<and> list_all is_ascii_hexdigit (hex_encode b)"
    and sha: "\<And>b. length (sha256 b) = 32"
    and "wf_env env"
  shows "wf_env (snd (set_zstd_dictionary sha256 hex_encode env bs))"
  using assms(3) hex [of "take 4 (sha256 bs)"] sha [of bs]
  by (auto simp: set_zstd_dictionary_def wf_env_def is_zstdd_def Let_def strip_prefix_def ALGO_ZSTDD_def)

lemma find_char_skip: "c \<notin> set xs \<Longrightarrow> find_char c (xs @ ys) = map_option ((+) (length xs)) (find_char c ys)"
  by (cases "find_char c ys"; induction xs) auto

lemma is_zstdd_base: "is_zstdd n \<Longrightarrow> base_algo n = ALGO_ZSTDD"
  by (auto simp: is_zstdd_def base_algo_def strip_prefix_Some find_char_skip starts_with_iff
      ALGO_ZSTDD_def split: option.splits)

lemma is_zstdd_length: "is_zstdd n \<Longrightarrow> length n = 14"
  by (auto simp: is_zstdd_def strip_prefix_Some ALGO_ZSTDD_def split: option.splits)

lemma wf_env_name: "wf_env env \<Longrightarrow> zstdd_name env = Some n \<Longrightarrow> is_zstdd n"
  by (auto simp: zstdd_name_def wf_env_def split: if_splits option.splits)

lemma zstdd_name_distinct:
  assumes "is_zstdd n"
  shows "n \<noteq> ALGO_NONE" "n \<noteq> ALGO_DEFLATE" "n \<noteq> ALGO_BROTLI" "n \<noteq> ALGO_ZSTD"
  using is_zstdd_length [OF assms] by (auto simp: ALGO_defs)

lemma supported_member:
  "n \<in> set (supported env) \<longleftrightarrow>
     n \<in> {ALGO_NONE, ALGO_DEFLATE, ALGO_BROTLI} \<or>
     feature_zstd env \<and> (n = ALGO_ZSTD \<or> zstdd_name env = Some n)"
  by (auto simp: supported_def split: option.splits)

lemma base_algo_simps [simp]:
  "base_algo ALGO_NONE = ALGO_NONE" "base_algo ALGO_DEFLATE = ALGO_DEFLATE"
  "base_algo ALGO_BROTLI = ALGO_BROTLI" "base_algo ALGO_ZSTD = ALGO_ZSTD"
  by (simp_all add: base_algo_def ALGO_defs)

section \<open>Negotiation\<close>

lemma algo_distinct [simp]:
  "ALGO_NONE \<noteq> ALGO_DEFLATE" "ALGO_NONE \<noteq> ALGO_BROTLI" "ALGO_NONE \<noteq> ALGO_ZSTD" "ALGO_NONE \<noteq> ALGO_ZSTDD"
  "ALGO_DEFLATE \<noteq> ALGO_NONE" "ALGO_DEFLATE \<noteq> ALGO_BROTLI" "ALGO_DEFLATE \<noteq> ALGO_ZSTD" "ALGO_DEFLATE \<noteq> ALGO_ZSTDD"
  "ALGO_BROTLI \<noteq> ALGO_NONE" "ALGO_BROTLI \<noteq> ALGO_DEFLATE" "ALGO_BROTLI \<noteq> ALGO_ZSTD" "ALGO_BROTLI \<noteq> ALGO_ZSTDD"
  "ALGO_ZSTD \<noteq> ALGO_NONE" "ALGO_ZSTD \<noteq> ALGO_DEFLATE" "ALGO_ZSTD \<noteq> ALGO_BROTLI" "ALGO_ZSTD \<noteq> ALGO_ZSTDD"
  "ALGO_ZSTDD \<noteq> ALGO_NONE" "ALGO_ZSTDD \<noteq> ALGO_DEFLATE" "ALGO_ZSTDD \<noteq> ALGO_BROTLI" "ALGO_ZSTDD \<noteq> ALGO_ZSTD"
  "ALGO_NONE \<noteq> []" "ALGO_DEFLATE \<noteq> []" "ALGO_BROTLI \<noteq> []" "ALGO_ZSTD \<noteq> []" "ALGO_ZSTDD \<noteq> []"
  "ALGO_NONE \<noteq> ''auto''" "ALGO_DEFLATE \<noteq> ''auto''" "ALGO_BROTLI \<noteq> ''auto''" "ALGO_ZSTD \<noteq> ''auto''"
  "ALGO_ZSTDD \<noteq> ''auto''"
  by (simp_all add: ALGO_defs)

lemma auto_distinct [simp]:
  "''auto'' \<noteq> ALGO_NONE" "''auto'' \<noteq> ALGO_DEFLATE" "''auto'' \<noteq> ALGO_BROTLI" "''auto'' \<noteq> ALGO_ZSTD"
  "''auto'' \<noteq> ALGO_ZSTDD" "[] \<noteq> ALGO_NONE"
  by (simp_all add: ALGO_defs)

lemma pick_simps [simp]:
  "pick ps ALGO_ZSTD = (if ALGO_ZSTD \<in> set ps then Some ALGO_ZSTD else None)"
  "pick ps ALGO_DEFLATE = (if ALGO_DEFLATE \<in> set ps then Some ALGO_DEFLATE else None)"
  "pick ps ALGO_BROTLI = (if ALGO_BROTLI \<in> set ps then Some ALGO_BROTLI else None)"
  by (simp_all add: pick_def)

lemma or_else_Some: "or_else x y = Some z \<longleftrightarrow> x = Some z \<or> x = None \<and> y = Some z"
  by (cases x) auto

lemma unwrap_or_cases: "unwrap_or x d = z \<Longrightarrow> x = Some z \<or> x = None \<and> z = d"
  by (cases x) auto

lemma pick_zstdd_Some:
  "pick_zstdd env ps = Some n \<longleftrightarrow> zstdd_name env = Some n \<and> n \<in> set ps"
  by (auto simp: pick_zstdd_def split: option.splits)

text \<open>The branches of \<open>negotiate\<close>, one equation per request.\<close>

lemma negotiate_auto:
  "base_algo req = ''auto'' \<Longrightarrow> negotiate env req ps =
     unwrap_or (or_else (pick_zstdd env ps) (or_else (pick ps ALGO_ZSTD)
       (or_else (pick ps ALGO_DEFLATE) (pick ps ALGO_BROTLI)))) ALGO_NONE"
  unfolding negotiate_def Let_def by (simp del: pick_simps)

lemma negotiate_zstd:
  "base_algo req = ALGO_ZSTD \<Longrightarrow> negotiate env req ps =
     unwrap_or (or_else (pick_zstdd env ps) (pick ps ALGO_ZSTD)) ALGO_NONE"
  unfolding negotiate_def Let_def by (simp del: pick_simps)

lemma negotiate_zstdd:
  "base_algo req = ALGO_ZSTDD \<Longrightarrow> negotiate env req ps =
     (if feature_zstd env \<and> zstdd_name env = Some req \<and> req \<in> set ps then req
      else if feature_zstd env \<and> ALGO_ZSTD \<in> set ps then ALGO_ZSTD else ALGO_NONE)"
  unfolding negotiate_def Let_def by (auto split: option.splits)

lemma negotiate_other:
  "base_algo req = ALGO_NONE \<Longrightarrow> negotiate env req ps = ALGO_NONE"
  "base_algo req = [] \<Longrightarrow> negotiate env req ps = ALGO_NONE"
  "base_algo req = ALGO_DEFLATE \<Longrightarrow>
     negotiate env req ps = (if ALGO_DEFLATE \<in> set ps then ALGO_DEFLATE else ALGO_NONE)"
  "base_algo req = ALGO_BROTLI \<Longrightarrow>
     negotiate env req ps = (if ALGO_BROTLI \<in> set ps then ALGO_BROTLI else ALGO_NONE)"
  "base_algo req \<notin> {[], ALGO_NONE, ''auto'', ALGO_ZSTD, ALGO_ZSTDD, ALGO_BROTLI, ALGO_DEFLATE} \<Longrightarrow>
     negotiate env req ps = ALGO_NONE"
  unfolding negotiate_def Let_def by auto

lemmas negotiate_simps = negotiate_auto negotiate_zstd negotiate_zstdd negotiate_other

text \<open>The possible outcomes of a negotiation, with what each requires.\<close>

lemma negotiate_cases:
  obtains (none) "negotiate env req ps = ALGO_NONE"
  | (dict) n where "negotiate env req ps = n" "zstdd_name env = Some n" "n \<in> set ps"
  | (zstd) "negotiate env req ps = ALGO_ZSTD" "ALGO_ZSTD \<in> set ps"
      "base_algo req = ALGO_ZSTDD \<and> feature_zstd env \<and> (zstdd_name env = Some req \<longrightarrow> req \<notin> set ps) \<or>
       pick_zstdd env ps = None"
  | (deflate) "negotiate env req ps = ALGO_DEFLATE" "ALGO_DEFLATE \<in> set ps"
  | (brotli) "negotiate env req ps = ALGO_BROTLI" "ALGO_BROTLI \<in> set ps"
proof -
  consider "base_algo req = []" | "base_algo req = ALGO_NONE" | "base_algo req = ''auto''"
    | "base_algo req = ALGO_ZSTD" | "base_algo req = ALGO_ZSTDD" | "base_algo req = ALGO_BROTLI"
    | "base_algo req = ALGO_DEFLATE"
    | "base_algo req \<notin> {[], ALGO_NONE, ''auto'', ALGO_ZSTD, ALGO_ZSTDD, ALGO_BROTLI, ALGO_DEFLATE}"
    by auto
  then show ?thesis
  proof cases
    case 3
    show ?thesis
    proof (cases "pick_zstdd env ps")
      case None
      then have "negotiate env req ps = (if ALGO_ZSTD \<in> set ps then ALGO_ZSTD
          else if ALGO_DEFLATE \<in> set ps then ALGO_DEFLATE
          else if ALGO_BROTLI \<in> set ps then ALGO_BROTLI else ALGO_NONE)"
        by (simp add: negotiate_auto [OF 3])
      with None none zstd deflate brotli show ?thesis by metis
    next
      case (Some n)
      then have "negotiate env req ps = n" by (simp add: negotiate_auto [OF 3])
      with Some show ?thesis using dict [of n] pick_zstdd_Some [of env ps n] by simp
    qed
  next
    case 4
    show ?thesis
    proof (cases "pick_zstdd env ps")
      case None
      then have "negotiate env req ps = (if ALGO_ZSTD \<in> set ps then ALGO_ZSTD else ALGO_NONE)"
        by (simp add: negotiate_zstd [OF 4])
      with None none zstd show ?thesis by metis
    next
      case (Some n)
      then have "negotiate env req ps = n" by (simp add: negotiate_zstd [OF 4])
      with Some show ?thesis using dict [of n] pick_zstdd_Some [of env ps n] by simp
    qed
  next
    case 5
    from negotiate_zstdd [OF 5, of env ps] none dict [of req] zstd 5 show ?thesis by metis
  next
    case 6
    then show ?thesis using none brotli by (metis negotiate_other(4))
  next
    case 7
    then show ?thesis using none deflate by (metis negotiate_other(3))
  qed (use none negotiate_other in metis)+
qed

lemma negotiate_in_peer: "negotiate env req ps = ALGO_NONE \<or> negotiate env req ps \<in> set ps"
  by (cases rule: negotiate_cases [of env req ps]) auto

lemma shared_dict_sym:
  assumes "wf_env ec" and "wf_env es"
  shows "pick_zstdd es (supported ec) = pick_zstdd ec (supported es)"
proof -
  have imp: "pick_zstdd a (supported b) = Some n \<Longrightarrow> pick_zstdd b (supported a) = Some n"
    if "wf_env a" "wf_env b" for a b n
    using wf_env_name [OF that(1)] zstdd_name_distinct [of n]
    by (auto simp: pick_zstdd_Some supported_member zstdd_name_def split: if_splits)
  show ?thesis
    using imp [OF assms] imp [OF assms(2,1)] by (metis option.exhaust)
qed

text \<open>An encoder and a decoder that speak the same format with the same dictionary.\<close>

fun engines_match :: "comp_inner \<Rightarrow> dec_inner \<Rightarrow> bool" where
  "engines_match CompNone DecNone = True"
| "engines_match (CompDeflate _) DecDeflate = True"
| "engines_match (CompBrotli _) DecBrotli = True"
| "engines_match (CompZstd d _ _) (DecZstd d') = (d = d')"
| "engines_match _ _ = False"

lemma engines_match_supported:
  assumes "algo \<in> set (supported ec)" and "algo \<in> set (supported es)"
    and "wf_env ec" and "wf_env es"
    and dict: "\<And>d d'. zstd_dict ec = Some d \<Longrightarrow> zstd_dict es = Some d' \<Longrightarrow>
      dict_name d = dict_name d' \<Longrightarrow> dict_bytes d = dict_bytes d'"
  shows "engines_match (compressor_new ec algo level) (decompressor_new es algo)"
proof (cases "is_zstdd algo")
  case False
  then have "zstdd_name ec \<noteq> Some algo" using wf_env_name [OF assms(3)] by auto
  with assms(1,2) False wf_env_name [OF assms(4), of algo] show ?thesis
    by (auto simp: supported_member compressor_new_def decompressor_new_def ALGO_defs is_zstdd_def
        strip_prefix_def)
next
  case True
  from zstdd_name_distinct [OF True] assms(1,2) obtain d d' where
    "feature_zstd ec" "feature_zstd es" "zstd_dict ec = Some d" "zstd_dict es = Some d'"
    "dict_name d = algo" "dict_name d' = algo"
    by (auto simp: supported_member zstdd_name_def split: if_splits)
  with True dict [of d d'] zstdd_name_distinct [OF True] show ?thesis
    by (simp add: compressor_new_def decompressor_new_def zstdd_bytes_for_def)
qed

lemma negotiate_back:
  assumes "wf_env ec" and "wf_env es"
    and own: "negotiate ec req (supported es) \<in> set (supported ec)"
    and req: "base_algo req = ALGO_ZSTDD \<Longrightarrow>
      zstdd_name ec = Some req \<or> pick_zstdd ec (supported es) = None"
  shows "negotiate es (negotiate ec req (supported es)) (supported ec) = negotiate ec req (supported es)"
proof (cases rule: negotiate_cases [of ec req "supported es"])
  case none
  then show ?thesis by (simp add: negotiate_simps)
next
  case (dict n)
  then have "pick_zstdd ec (supported es) = Some n" by (simp add: pick_zstdd_Some)
  then have n: "zstdd_name es = Some n" "n \<in> set (supported ec)"
    using shared_dict_sym [OF assms(1,2)] pick_zstdd_Some [of es "supported ec" n] by simp_all
  moreover have "is_zstdd n" by (rule wf_env_name [OF assms(2) n(1)])
  moreover have "feature_zstd es" using n(1) by (simp add: zstdd_name_def split: if_splits)
  ultimately show ?thesis using dict(1)
    by (simp add: negotiate_zstdd [OF is_zstdd_base])
next
  case zstd
  with req have "pick_zstdd ec (supported es) = None"
    by (auto simp: pick_zstdd_def split: option.splits)
  then have "pick_zstdd es (supported ec) = None" using shared_dict_sym [OF assms(1,2)] by simp
  with own zstd(1) show ?thesis by (simp add: negotiate_simps)
next
  case deflate
  with own show ?thesis by (simp add: negotiate_simps)
next
  case brotli
  with own show ?thesis by (simp add: negotiate_simps)
qed


definition demo_env :: codec_env where
  "demo_env = \<lparr>feature_zstd = True,
     zstd_dict = Some \<lparr>dict_bytes = [1, 2, 3], dict_name = ''zstdd:0123abcd''\<rparr>\<rparr>"

lemmas demo_env_simps = demo_env_def wf_env_def is_zstdd_def strip_prefix_def is_ascii_hexdigit_def
  ALGO_defs supported_def zstdd_name_def negotiate_def base_algo_def pick_zstdd_def pick_def Let_def


text \<open>
  The two provisos are real.  A request for a foreign dictionary is downgraded to plain zstd by
  the opener and upgraded again to the shared dictionary by the accepting side; and a build
  without the zstd feature negotiates zstd with a peer that lists it.
\<close>

theorem foreign_dictionary_mismatch:
  "negotiate demo_env ''zstdd:ffffffff'' (supported demo_env) = ALGO_ZSTD \<and>
   negotiate demo_env ALGO_ZSTD (supported demo_env) = ''zstdd:0123abcd''"
  by (simp add: demo_env_simps)

theorem negotiates_unsupported_zstd:
  "negotiate \<lparr>feature_zstd = False, zstd_dict = None\<rparr> ''auto'' (supported demo_env) = ALGO_ZSTD \<and>
   ALGO_ZSTD \<notin> set (supported \<lparr>feature_zstd = False, zstd_dict = None\<rparr>) \<and>
   compressor_new \<lparr>feature_zstd = False, zstd_dict = None\<rparr> ALGO_ZSTD 3 = CompNone"
  by (simp add: demo_env_simps compressor_new_def)

text \<open>
  A requested level is between 1 and 22 whatever the request text, and a dictionary name
  never carries one, not even when its fingerprint is all digits.
\<close>

theorem level_in_range:
  "(parse_level req = Some lvl \<longrightarrow> 1 \<le> lvl \<and> lvl \<le> 22) \<and> (is_zstdd req \<longrightarrow> parse_level req = None)"
  by (auto simp: parse_level_def split: if_splits option.splits)

theorem level_in_range_witness:
  "parse_level ''zstd:9'' = Some 9 \<and> is_zstdd ''zstdd:00000012'' \<and> parse_level ''zstdd:00000012'' = None"
proof -
  have "parse_level ''zstd:9'' = Some 9"
    by (simp add: parse_level_def is_zstdd_def str_simps ALGO_defs)
  moreover have "is_zstdd ''zstdd:00000012''" by (simp add: demo_env_simps)
  ultimately show ?thesis using level_in_range [of "''zstdd:00000012''" 9] by simp
qed

end
