(* ===== verification/Router.thy ===== *)
theory Router
  imports RustStr
begin

text \<open>
  Request routing: \<open>crates/krymux/src/router.rs\<close>, and the stream target of \<open>mux.rs\<close> it works on.

  Lemmas: what \<open>host_matches\<close> accepts, stated without the string surgery of the code; \<open>resolve\<close> is
  first-match over the routes, then the fallback, then the client-target policy; it dials a
  client-chosen target only when the policy allows it, never a Unix socket.
\<close>

section \<open>Data (mux.rs Target; router.rs)\<close>

record target =
  t_host :: "string option"
  t_port :: u16
  t_unix :: "string option"
  t_hint :: string

record upstream =
  up_host :: "string option"
  up_port :: u16
  up_unix :: "string option"

datatype port_pattern = Exact u16 | Range u16 u16 | AnyPort

record route =
  hosts :: "string list"
  ports :: "port_pattern list"
  r_upstream :: "upstream option"

record client_targets =
  ct_enabled :: bool
  allow_hosts :: "string list"
  allow_ports :: "port_pattern list"

record router =
  routes :: "route list"
  fallback :: "upstream option"
  rt_client_targets :: client_targets

datatype decision = Route nat upstream | Dial | Deny string

definition USIZE_MAX :: nat where "USIZE_MAX = 18446744073709551615"

definition show_u16 :: "u16 \<Rightarrow> string" where "show_u16 p = show_nat (unat p)"

definition upstream_label :: "upstream \<Rightarrow> string" where
  "upstream_label u =
     (case up_unix u of
        Some path \<Rightarrow> ''unix:'' @ path
      | None \<Rightarrow> unwrap_or (up_host u) ''127.0.0.1'' @ '':'' @ show_u16 (up_port u))"

section \<open>Matching\<close>

definition normalize_host :: "string \<Rightarrow> string option" where
  "normalize_host h =
     (let s = to_lowercase (trim h) in
      if starts_with ''['' s then
        (case find_char (CHR '']'') s of
           None \<Rightarrow> None
         | Some end \<Rightarrow> Some (drop 1 (take end s)))
      else
        let s' = (case rfind_char (CHR '':'') s of
                    Some idx \<Rightarrow>
                      if take idx s \<noteq> [] \<and> count_list s (CHR '':'') = 1 then take idx s else s
                  | None \<Rightarrow> s);
            s'' = trim_end_matches (CHR ''.'') s'
        in if s'' = [] then None else Some s'')"

definition host_matches :: "string \<Rightarrow> string \<Rightarrow> bool" where
  "host_matches pattern host =
     (case normalize_host pattern of
        None \<Rightarrow> False
      | Some p \<Rightarrow>
          (case normalize_host host of
             None \<Rightarrow> False
           | Some h \<Rightarrow>
               if p = ''*'' \<or> p = h then True
               else case strip_prefix ''*.'' p of
                 Some sfx \<Rightarrow>
                   let suf = ''.'' @ sfx in
                   ends_with suf h \<and> \<not> ends_with ''.'' (take (length h - length suf) h)
               | None \<Rightarrow> False))"

fun port_ok1 :: "u16 \<Rightarrow> port_pattern \<Rightarrow> bool" where
  "port_ok1 port AnyPort = True"
| "port_ok1 port (Exact p) = (p = port)"
| "port_ok1 port (Range lo hi) = (lo \<le> port \<and> port \<le> hi)"

definition port_matches :: "port_pattern list \<Rightarrow> u16 \<Rightarrow> bool" where
  "port_matches patterns port \<longleftrightarrow> patterns = [] \<or> list_ex (port_ok1 port) patterns"

section \<open>Resolution\<close>

definition route_matches :: "string option \<Rightarrow> u16 \<Rightarrow> route \<Rightarrow> bool" where
  "route_matches host port r \<longleftrightarrow>
     (hosts r = [] \<or> (case host of Some h \<Rightarrow> list_ex (\<lambda>p. host_matches p h) (hosts r) | None \<Rightarrow> False)) \<and>
     port_matches (ports r) port"

text \<open>The loop over the routes; \<open>None\<close> when no route matched.\<close>

fun scan_routes :: "string option \<Rightarrow> u16 \<Rightarrow> upstream option \<Rightarrow> nat \<Rightarrow> route list \<Rightarrow> decision option" where
  "scan_routes host port fb i [] = None"
| "scan_routes host port fb i (r # rs) =
     (if route_matches host port r then
        Some (case r_upstream r of
                Some up \<Rightarrow> Route i up
              | None \<Rightarrow> (case fb of
                          Some f \<Rightarrow> Route USIZE_MAX f
                        | None \<Rightarrow> Deny ''route has no upstream''))
      else scan_routes host port fb (i + 1) rs)"

definition resolve :: "router \<Rightarrow> target \<Rightarrow> decision" where
  "resolve r t =
     (let host = (case t_host t of Some h \<Rightarrow> normalize_host h | None \<Rightarrow> None);
          port = t_port t
      in case scan_routes host port (fallback r) 0 (routes r) of
           Some d \<Rightarrow> d
         | None \<Rightarrow>
             (case fallback r of
                Some f \<Rightarrow> Route USIZE_MAX f
              | None \<Rightarrow>
                  let ct = rt_client_targets r in
                  if ct_enabled ct then
                    if t_unix t \<noteq> None then Deny ''client-chosen unix sockets are not allowed''
                    else
                      let host_ok = (case host of Some h \<Rightarrow> list_ex (\<lambda>p. host_matches p h) (allow_hosts ct)
                                     | None \<Rightarrow> True);
                          port_ok = port_matches (allow_ports ct) port
                      in if host_ok \<and> port_ok \<and> port > 0 then Dial
                         else Deny ''client target not allowed''
                  else Deny ''no route matched and client targets are disabled''))"

section \<open>What matching means\<close>

lemma normalize_host_nonempty:
  "normalize_host h = Some n \<Longrightarrow> n \<noteq> [] \<or> starts_with ''['' (to_lowercase (trim h))"
  by (auto simp: normalize_host_def Let_def split: if_splits option.splits)

lemma wildcard_iff:
  "(ends_with (''.'' @ sfx) h \<and>
     \<not> ends_with ''.'' (take (length h - length (''.'' @ sfx)) h)) \<longleftrightarrow>
   (\<exists>l. h = l @ ''.'' @ sfx \<and> \<not> ends_with ''.'' l)"
proof -
  have "take (length h - length (''.'' @ sfx)) h = l" if "h = l @ ''.'' @ sfx" for l
    using that by simp
  then show ?thesis unfolding ends_with_iff [of "''.'' @ sfx" h] by metis
qed

lemma host_matches_normalized:
  assumes "normalize_host pattern = Some p" and "normalize_host host = Some h"
  shows "host_matches pattern host \<longleftrightarrow> p = ''*'' \<or> p = h \<or>
      (\<exists>sfx. strip_prefix ''*.'' p = Some sfx \<and>
        (ends_with (''.'' @ sfx) h \<and> \<not> ends_with ''.'' (take (length h - length (''.'' @ sfx)) h)))"
proof (cases "strip_prefix ''*.'' p")
  case None
  then show ?thesis by (simp only: host_matches_def assms option.case if_bool_eq_disj) blast
next
  case (Some sfx)
  then show ?thesis
    by (simp only: host_matches_def assms option.case if_bool_eq_disj Let_def option.inject) blast
qed

text \<open>
  A host pattern accepts exactly: nothing if either side normalises to nothing; everything
  for \<open>*\<close>; equal names; and for \<open>*.sfx\<close> the names that end in \<open>.sfx\<close> where the part before
  does not itself end in a dot.
\<close>

theorem host_matches_spec:
  "host_matches pattern host \<longleftrightarrow>
     (\<exists>p h. normalize_host pattern = Some p \<and> normalize_host host = Some h \<and>
       (p = ''*'' \<or> p = h \<or>
        (\<exists>sfx l. p = ''*.'' @ sfx \<and> h = l @ ''.'' @ sfx \<and> \<not> ends_with ''.'' l)))"
proof (cases "normalize_host pattern"; cases "normalize_host host")
  fix p h
  assume p: "normalize_host pattern = Some p" and h: "normalize_host host = Some h"
  show ?thesis
    unfolding host_matches_normalized [OF p h] wildcard_iff strip_prefix_Some
    by (simp only: p h option.inject) blast
qed (simp_all add: host_matches_def)

lemma scan_routes_Some:
  "scan_routes host port fb k rs = Some d \<longleftrightarrow>
     (\<exists>i < length rs. route_matches host port (rs ! i) \<and>
        (\<forall>j < i. \<not> route_matches host port (rs ! j)) \<and>
        d = (case r_upstream (rs ! i) of
               Some up \<Rightarrow> Route (k + i) up
             | None \<Rightarrow> (case fb of Some f \<Rightarrow> Route USIZE_MAX f | None \<Rightarrow> Deny ''route has no upstream'')))"
proof (induction rs arbitrary: k)
  case Nil
  then show ?case by simp
next
  case (Cons r rs)
  then show ?case
    by (cases "route_matches host port r")
      (auto simp: Ex_less_Suc2 All_less_Suc2 cong: option.case_cong)
qed

lemma scan_routes_None:
  "scan_routes host port fb k rs = None \<longleftrightarrow> list_all (\<lambda>r. \<not> route_matches host port r) rs"
  by (induction rs arbitrary: k) auto

lemma case_as_bind: "(case x of Some h \<Rightarrow> f h | None \<Rightarrow> None) = Option.bind x f"
  by (cases x) simp_all

definition no_route :: "router \<Rightarrow> target \<Rightarrow> bool" where
  "no_route r t \<longleftrightarrow>
     list_all (\<lambda>x. \<not> route_matches (Option.bind (t_host t) normalize_host) (t_port t) x) (routes r)"

lemma resolve_no_route:
  assumes "no_route r t"
  shows "resolve r t =
    (case fallback r of
       Some f \<Rightarrow> Route USIZE_MAX f
     | None \<Rightarrow>
         if \<not> ct_enabled (rt_client_targets r)
         then Deny ''no route matched and client targets are disabled''
         else if t_unix t \<noteq> None then Deny ''client-chosen unix sockets are not allowed''
         else if (case Option.bind (t_host t) normalize_host of
                    Some h \<Rightarrow> list_ex (\<lambda>p. host_matches p h) (allow_hosts (rt_client_targets r))
                  | None \<Rightarrow> True) \<and>
                 port_matches (allow_ports (rt_client_targets r)) (t_port t) \<and> t_port t > 0
         then Dial else Deny ''client target not allowed'')"
  using assms scan_routes_None [of "Option.bind (t_host t) normalize_host" "t_port t" "fallback r" 0 "routes r"]
  by (cases "Option.bind (t_host t) normalize_host"; cases "fallback r")
    (simp_all add: resolve_def case_as_bind no_route_def Let_def)

lemma resolve_routed:
  assumes "\<not> no_route r t"
  obtains i where "i < length (routes r)"
    and "route_matches (Option.bind (t_host t) normalize_host) (t_port t) (routes r ! i)"
    and "\<forall>j < i. \<not> route_matches (Option.bind (t_host t) normalize_host) (t_port t) (routes r ! j)"
    and "resolve r t =
      (case r_upstream (routes r ! i) of
         Some up \<Rightarrow> Route i up
       | None \<Rightarrow> (case fallback r of Some f \<Rightarrow> Route USIZE_MAX f | None \<Rightarrow> Deny ''route has no upstream''))"
proof -
  let ?h = "Option.bind (t_host t) normalize_host"
  from assms scan_routes_None [of ?h "t_port t" "fallback r" 0 "routes r"] obtain d where
    d: "scan_routes ?h (t_port t) (fallback r) 0 (routes r) = Some d"
    by (auto simp: no_route_def)
  then have "resolve r t = d" by (simp add: resolve_def case_as_bind Let_def)
  with d that show ?thesis by (auto simp: scan_routes_Some cong: option.case_cong)
qed


definition demo_router :: router where
  "demo_router = \<lparr>
     routes = [\<lparr>hosts = [''nas.example''], ports = [], r_upstream = Some \<lparr>up_host = Some ''127.0.0.1'', up_port = 5000, up_unix = None\<rparr>\<rparr>,
               \<lparr>hosts = [''*.example''], ports = [], r_upstream = Some \<lparr>up_host = Some ''127.0.0.1'', up_port = 80, up_unix = None\<rparr>\<rparr>],
     fallback = None,
     rt_client_targets = \<lparr>ct_enabled = True, allow_hosts = [''db.internal''], allow_ports = []\<rparr>\<rparr>"


text \<open>
  The host condition of the client-target policy applies only to targets that name a host: a
  target without one is dialled although the allow list names a single other host.
\<close>

theorem hostless_target_bypasses_allow_hosts:
  "resolve demo_router \<lparr>t_host = None, t_port = 6379, t_unix = None, t_hint = ''raw''\<rparr> = Dial \<and>
   \<not> list_ex (\<lambda>p. host_matches p ''127.0.0.1'') (allow_hosts (rt_client_targets demo_router))"
  by code_simp

end
