(* ===== verification/MuxState.thy ===== *)
theory MuxState
  imports Frame Compress Router "HOL-Library.AList"
begin

text \<open>
  The state of one multiplexing session (\<open>crates/krymux/src/mux.rs\<close>: \<open>Shared\<close>, \<open>StreamInner\<close>) and the
  operations on it that contain no suspension point: control frames, accept, reject, drop, retire,
  abort, tear-down, opening a stream, closing the session, ping.

  Sharing.  An \<open>Arc<StreamInner>\<close> is an index into \<open>heap\<close>; \<open>streams\<close> maps stream ids to such indices, so
  \<open>Arc::ptr_eq\<close> is equality of indices and a stream that is no longer registered still exists for the
  tasks that hold it.  A bounded channel is its queue with the capacity checked by each sender
  and a flag that says whether its receiver is alive.

  Granularity.  The code between two \<open>.await\<close> points runs as one step; a sending \<open>.await\<close> on a full
  channel is the value \<open>Blocked\<close>.

  Lemmas: the interface \<open>quiet_op\<close> collects what the operations that register no stream have in
  common, and gives once and for all that they keep the session invariant of \<open>MuxReader\<close>.
\<close>

section \<open>Data\<close>

definition PROTOCOL_VERSION :: u32 where "PROTOCOL_VERSION = 1"
definition DEFAULT_WINDOW :: u32 where "DEFAULT_WINDOW = 262144"
definition DUPLEX_BUF :: nat where "DUPLEX_BUF = 65536"
definition MAX_EXPANSION :: nat where "MAX_EXPANSION = 33554432"
definition INBOUND_QUEUE :: nat where "INBOUND_QUEUE = 128"
definition WRITER_QUEUE :: nat where "WRITER_QUEUE = 1024"

datatype inbound = Data bytes bool | Eof | Abort

text \<open>
  \<open>ack\<close> says whether the one-shot sender is still in its slot, \<open>ack_result\<close> what was sent through it.
  \<open>grow_at\<close> is an instant in milliseconds.  \<open>rx_open\<close>: the receiving end of \<open>inbound_tx\<close> is alive.
\<close>

record stream_inner =
  si_id :: u32
  inbound_q :: "inbound list"
  rx_open :: bool
  credits :: int
  pending_credit :: u32
  granted :: u32
  consumed_since_grow :: u32
  grow_at :: nat
  ack :: bool
  ack_result :: "(string, string) result option"
  ack_done :: bool
  compression :: string
  requested_level :: "int option"
  app_gone :: bool
  out_done :: bool

text \<open>
  \<open>on_stream\<close>: a stream handler is installed; \<open>accepted\<close> lists the calls it has received.  \<open>pings\<close>: nonce
  and whether the caller still waits; \<open>pongs\<close>: instants sent back to the callers.
\<close>

record shared =
  is_client :: bool
  writer_q :: "bytes list"
  writer_open :: bool
  streams :: "(u32 \<times> nat) list"
  heap :: "stream_inner list"
  next_id :: u32
  peer_max_data :: u32
  peer_window :: u32
  peer_supported :: "string list"
  ready :: bool
  closed :: bool
  max_streams :: nat
  rx_window :: u32
  rx_window_max :: u32
  our_supported :: "string list"
  on_stream :: bool
  accepted :: "(nat \<times> target) list"
  pings :: "(bytes \<times> bool) list"
  pongs :: "(bytes \<times> nat) list"
  last_pong_ms :: u64

text \<open>What the session uses of serde_json, and the codec environment of \<open>Compress\<close>.\<close>

record mux_env =
  json_print :: "json \<Rightarrow> bytes"
  json_parse :: "bytes \<Rightarrow> json option"
  codecs :: codec_env

definition str_bytes :: "string \<Rightarrow> bytes" where
  "str_bytes s = map of_char s"

definition json_nat :: "nat \<Rightarrow> json" where
  "json_nat n = JPosInt (word_of_nat n)"

definition json_opt_str :: "string option \<Rightarrow> json" where
  "json_opt_str x = (case x of Some s \<Rightarrow> JString s | None \<Rightarrow> JNull)"

text \<open>\<open>AtomicI64\<close> arithmetic wraps.\<close>

definition wrap_i64 :: "int \<Rightarrow> int" where
  "wrap_i64 x = (x + 2 ^ 63) mod 2 ^ 64 - 2 ^ 63"

lemma wrap_i64_id: "- (2 ^ 63) \<le> x \<Longrightarrow> x < 2 ^ 63 \<Longrightarrow> wrap_i64 x = x"
  by (simp add: wrap_i64_def)

section \<open>Channels and control frames\<close>

definition upd_stream :: "nat \<Rightarrow> (stream_inner \<Rightarrow> stream_inner) \<Rightarrow> shared \<Rightarrow> shared" where
  "upd_stream r f s = s\<lparr>heap := (heap s)[r := f (heap s ! r)]\<rparr>"

definition try_inbound :: "nat \<Rightarrow> inbound \<Rightarrow> shared \<Rightarrow> shared" where
  "try_inbound r m s =
     (if rx_open (heap s ! r) \<and> length (inbound_q (heap s ! r)) < INBOUND_QUEUE
      then upd_stream r (\<lambda>si. si\<lparr>inbound_q := inbound_q si @ [m]\<rparr>) s
      else s)"

definition try_send :: "bytes \<Rightarrow> shared \<Rightarrow> bool \<times> shared" where
  "try_send frame s =
     (if writer_open s \<and> length (writer_q s) < WRITER_QUEUE
      then (True, s\<lparr>writer_q := writer_q s @ [frame]\<rparr>)
      else (False, s))"

definition send_control :: "u8 \<Rightarrow> u32 \<Rightarrow> bytes \<Rightarrow> shared \<Rightarrow> bool \<times> shared" where
  "send_control ft sid payload s =
     (if closed s \<and> ft \<noteq> FT_GOAWAY then (True, s)
      else try_send (encode_frame ft 0 sid payload) s)"

datatype send_result = Sent shared | Blocked | Gone

definition wait_send :: "bytes \<Rightarrow> shared \<Rightarrow> send_result" where
  "wait_send frame s =
     (if \<not> writer_open s then Gone
      else if length (writer_q s) < WRITER_QUEUE then Sent (s\<lparr>writer_q := writer_q s @ [frame]\<rparr>)
      else Blocked)"

definition send_window :: "nat \<Rightarrow> u32 \<Rightarrow> shared \<Rightarrow> bool \<times> shared" where
  "send_window r delta s = send_control FT_WINDOW (si_id (heap s ! r)) (u32_to_be delta) s"

definition window_frame :: "nat \<Rightarrow> u32 \<Rightarrow> shared \<Rightarrow> bytes" where
  "window_frame r delta s = encode_frame FT_WINDOW 0 (si_id (heap s ! r)) (u32_to_be delta)"

section \<open>Streams\<close>

definition try_retire :: "nat \<Rightarrow> shared \<Rightarrow> shared" where
  "try_retire r s =
     (if \<not> (app_gone (heap s ! r) \<and> out_done (heap s ! r)) then s
      else
        let id = si_id (heap s ! r);
            s' = (if map_of (streams s) id = Some r
                  then s\<lparr>streams := AList.delete id (streams s)\<rparr> else s)
        in try_inbound r Abort s')"

definition drop_stream :: "nat \<Rightarrow> shared \<Rightarrow> shared" where
  "drop_stream r s = try_retire r (upd_stream r (\<lambda>si. si\<lparr>app_gone := True\<rparr>) s)"

definition remote_address :: "target \<Rightarrow> string" where
  "remote_address t =
     (case t_unix t of
        Some u \<Rightarrow> ''unix:'' @ u
      | None \<Rightarrow> unwrap_or (t_host t) '''' @ '':'' @ show_u16 (t_port t))"

definition accept_stream :: "mux_env \<Rightarrow> nat \<Rightarrow> string option \<Rightarrow> shared \<Rightarrow> shared" where
  "accept_stream E r up s =
     (if ack_done (heap s ! r) then s
      else
        let s1 = upd_stream r (\<lambda>si. si\<lparr>ack_done := True\<rparr>) s;
            body = JObject [(''ok'', JBool True), (''compression'', JString (compression (heap s ! r))),
                            (''upstream'', json_opt_str up)]
        in snd (send_control FT_OPEN_ACK (si_id (heap s ! r)) (json_print E body) s1))"

definition reject_stream :: "mux_env \<Rightarrow> nat \<Rightarrow> string \<Rightarrow> string \<Rightarrow> shared \<Rightarrow> shared" where
  "reject_stream E r code reason s =
     (if ack_done (heap s ! r) then s
      else
        let s1 = upd_stream r (\<lambda>si. si\<lparr>ack_done := True\<rparr>) s;
            body = JObject [(''ok'', JBool False), (''code'', JString code), (''reason'', JString reason)]
        in try_inbound r Abort
             (snd (send_control FT_OPEN_ACK (si_id (heap s ! r)) (json_print E body) s1)))"

definition abort_payload :: bytes where
  "abort_payload = str_bytes ''{\"code\":\"abort\"}''"

definition abort_stream :: "nat \<Rightarrow> shared \<Rightarrow> shared" where
  "abort_stream r s =
     try_inbound r Abort (snd (send_control FT_CLOSE (si_id (heap s ! r)) abort_payload s))"

text \<open>
  \<open>teardown\<close>: the entries are collected, the map is cleared and every stream gets an \<open>Abort\<close>.  The
  wake-up of the credit waiters has no state of its own here: a pump that waits for credits
  looks at \<open>closed\<close> again whenever it runs.
\<close>

definition teardown :: "shared \<Rightarrow> shared" where
  "teardown s =
     (let refs = map snd (streams s);
          s1 = s\<lparr>closed := True, streams := []\<rparr>;
          s2 = fold (\<lambda>r. try_inbound r Abort) refs s1
      in s2\<lparr>ready := False\<rparr>)"

definition new_inner :: "u32 \<Rightarrow> string \<Rightarrow> int option \<Rightarrow> nat \<Rightarrow> shared \<Rightarrow> stream_inner" where
  "new_inner sid algo level now s =
     \<lparr>si_id = sid, inbound_q = [], rx_open = True, credits = int (unat (peer_window s)),
      pending_credit = 0, granted = rx_window s, consumed_since_grow = 0, grow_at = now,
      ack = False, ack_result = None, ack_done = False, compression = algo, requested_level = level,
      app_gone = False, out_done = False\<rparr>"

text \<open>\<open>build_stream\<close> allocates and never fails; the two pumps it spawns are those of \<open>MuxOut\<close> and \<open>MuxIn\<close>.\<close>

definition build_stream :: "u32 \<Rightarrow> string \<Rightarrow> int option \<Rightarrow> nat \<Rightarrow> shared \<Rightarrow> nat \<times> shared" where
  "build_stream sid algo level now s =
     (length (heap s), s\<lparr>heap := heap s @ [new_inner sid algo level now s]\<rparr>)"

definition register :: "u32 \<Rightarrow> nat \<Rightarrow> shared \<Rightarrow> shared" where
  "register sid r s = s\<lparr>streams := AList.update sid r (streams s)\<rparr>"

definition unregister :: "u32 \<Rightarrow> shared \<Rightarrow> shared" where
  "unregister sid s = s\<lparr>streams := AList.delete sid (streams s)\<rparr>"

section \<open>The session handle\<close>

record session_opts =
  o_is_client :: bool
  o_name :: string
  o_rx_window :: u32
  o_rx_window_max :: u32
  o_max_streams :: nat
  keepalive_sec :: u64

definition hello_json :: "session_opts \<Rightarrow> string list \<Rightarrow> json" where
  "hello_json opts ours = JObject
     [(''v'', json_nat (unat PROTOCOL_VERSION)),
      (''mode'', JString (if o_is_client opts then ''client'' else ''server'')),
      (''name'', JString (o_name opts)),
      (''maxDataFrame'', json_nat (unat DEFAULT_MAX_DATA)),
      (''rxWindow'', json_nat (unat (o_rx_window opts))),
      (''maxStreams'', json_nat (o_max_streams opts)),
      (''compression'', JArray (map JString ours))]"

text \<open>\<open>MuxSession::start\<close> up to the point where the tasks are spawned.\<close>

definition start_session :: "mux_env \<Rightarrow> session_opts \<Rightarrow> bool \<Rightarrow> u64 \<Rightarrow> shared" where
  "start_session E opts handler now =
     (let ours = supported (codecs E);
          s = \<lparr>is_client = o_is_client opts, writer_q = [], writer_open = True, streams = [], heap = [],
               next_id = (if o_is_client opts then 1 else 2), peer_max_data = DEFAULT_MAX_DATA,
               peer_window = DEFAULT_WINDOW, peer_supported = [''none''], ready = False, closed = False,
               max_streams = o_max_streams opts, rx_window = o_rx_window opts,
               rx_window_max = max (o_rx_window_max opts) (o_rx_window opts), our_supported = ours,
               on_stream = handler, accepted = [], pings = [], pongs = [], last_pong_ms = now\<rparr>
      in snd (try_send (encode_frame FT_HELLO 0 0 (json_print E (hello_json opts ours))) s))"

text \<open>
  \<open>start\<close> after the wait: without the peer's HELLO in time the tasks are aborted, which drops the
  receiver of the writer channel, and the session is torn down.
\<close>

definition start_wait :: "shared \<Rightarrow> (string, shared) result \<times> shared" where
  "start_wait s =
     (if ready s then (Ok s, s)
      else let s' = teardown (s\<lparr>writer_open := False, writer_q := []\<rparr>)
           in (Err ''peer did not send HELLO'', s'))"

datatype open_error = SessionGone | MaxStreams nat | WriterGone | OpenRejected string
  | ClosedWhileOpening | OpenTimeout

definition open_json :: "target \<Rightarrow> string \<Rightarrow> json" where
  "open_json t algo = JObject
     [(''host'', json_opt_str (t_host t)), (''port'', json_nat (unat (t_port t))),
      (''unix'', json_opt_str (t_unix t)), (''hint'', JString (t_hint t)), (''meta'', JNull),
      (''compression'', JString algo)]"

text \<open>\<open>open_stream\<close> up to its first suspension: the new stream and the OPEN frame it will send.\<close>

definition open_begin ::
    "mux_env \<Rightarrow> target \<Rightarrow> string \<Rightarrow> nat \<Rightarrow> shared \<Rightarrow> (open_error, nat \<times> bytes \<times> shared) result" where
  "open_begin E t req now s =
     (if closed s then Err SessionGone
      else if length (streams s) \<ge> max_streams s then Err (MaxStreams (max_streams s))
      else
        let sid = next_id s;
            s1 = s\<lparr>next_id := next_id s + 2\<rparr>;
            algo = negotiate (codecs E) req (peer_supported s);
            (r, s2) = build_stream sid algo (parse_level req) now s1;
            s3 = upd_stream r (\<lambda>si. si\<lparr>ack := True\<rparr>) s2;
            s4 = register sid r s3
        in Ok (r, encode_frame FT_OPEN 0 sid (json_print E (open_json t algo)), s4))"

datatype ack_event = AckReceived "(string, string) result" | AckSenderDropped | AckTimeout

text \<open>
  \<open>open_stream\<close> after the wait for OPEN_ACK.  On every error the entry is removed and the local
  \<open>TunnelStream\<close> is dropped.
\<close>

definition open_finish :: "nat \<Rightarrow> ack_event \<Rightarrow> shared \<Rightarrow> (open_error, nat) result \<times> shared" where
  "open_finish r ev s =
     (let sid = si_id (heap s ! r); s' = drop_stream r (unregister sid s) in
      case ev of
        AckReceived (Inr up) \<Rightarrow> (Ok r, s)
      | AckReceived (Inl reason) \<Rightarrow> (Err (OpenRejected reason), s')
      | AckSenderDropped \<Rightarrow> (Err ClosedWhileOpening, s')
      | AckTimeout \<Rightarrow> (Err OpenTimeout, s'))"

definition close_session :: "mux_env \<Rightarrow> string \<Rightarrow> shared \<Rightarrow> shared" where
  "close_session E reason s =
     (if closed s then s
      else teardown (snd (send_control FT_GOAWAY 0 (json_print E (JObject [(''reason'', JString reason)]))
             (s\<lparr>closed := True\<rparr>))))"

definition ping_begin :: "bytes \<Rightarrow> shared \<Rightarrow> bytes \<times> shared" where
  "ping_begin nonce s =
     (encode_frame FT_PING 0 0 nonce, s\<lparr>pings := AList.update nonce True (pings s)\<rparr>)"

text \<open>
  The end of \<open>ping\<close>: the instant that came back (\<open>None\<close>: timeout) and the time now.  The result is the
  time since that instant.
\<close>

definition ping_finish :: "bytes \<Rightarrow> nat option \<Rightarrow> nat \<Rightarrow> shared \<Rightarrow> (string, nat) result \<times> shared" where
  "ping_finish nonce back now s =
     (case back of
        Some t0 \<Rightarrow> (Ok (now - t0), s)
      | None \<Rightarrow> (Err ''ping timeout'', s\<lparr>pings := AList.delete nonce (pings s)\<rparr>))"

section \<open>The session invariant\<close>

definition queues_ok :: "shared \<Rightarrow> bool" where
  "queues_ok s \<longleftrightarrow> length (writer_q s) \<le> WRITER_QUEUE \<and>
     list_all (\<lambda>si. length (inbound_q si) \<le> INBOUND_QUEUE) (heap s)"

definition conf :: "shared \<Rightarrow> bool \<times> nat \<times> u32 \<times> u32 \<times> u32 \<times> u32 \<times> u32" where
  "conf s = (is_client s, max_streams s, rx_window s, rx_window_max s, next_id s, peer_max_data s, peer_window s)"

definition cells :: "shared \<Rightarrow> (u32 \<times> u32) list" where
  "cells s = map (\<lambda>si. (si_id si, granted si)) (heap s)"

text \<open>
  Stream ids: a client numbers its streams 1, 3, 5, ... in the order it creates them; a server
  only has streams with the odd ids its peer chose.
\<close>

definition ids_ok :: "bool \<Rightarrow> u32 \<Rightarrow> u32 list \<Rightarrow> bool" where
  "ids_ok client nxt ids \<longleftrightarrow>
     (if client then nxt = word_of_nat (1 + 2 * length ids) \<and>
        ids = map (\<lambda>i. word_of_nat (1 + 2 * i)) [0..<length ids]
      else nxt = 2 \<and> list_all (\<lambda>i. odd (unat i)) ids)"

definition inv_conf :: "bool \<times> nat \<times> u32 \<times> u32 \<times> u32 \<times> u32 \<times> u32 \<Rightarrow> (u32 \<times> u32) list \<Rightarrow> bool" where
  "inv_conf c cs \<longleftrightarrow>
     (case c of (client, mx, rw, rwm, nxt, pmd, pw) \<Rightarrow>
        1024 \<le> pmd \<and> pmd \<le> 1048576 \<and> 16384 \<le> pw \<and> pw \<le> 268435456 \<and> rw \<le> rwm \<and>
        ids_ok client nxt (map fst cs) \<and>
        list_all (\<lambda>(_, g). rw \<le> g \<and> g \<le> rwm) cs)"

definition registry_ok :: "(u32 \<times> nat) list \<Rightarrow> u32 list \<Rightarrow> nat \<Rightarrow> bool" where
  "registry_ok al ids mx \<longleftrightarrow> distinct (map fst al) \<and> length al \<le> mx \<and>
     list_all (\<lambda>(k, r). r < length ids \<and> ids ! r = k) al"

definition session_inv :: "shared \<Rightarrow> bool" where
  "session_inv s \<longleftrightarrow> queues_ok s \<and> inv_conf (conf s) (cells s) \<and>
     registry_ok (streams s) (map fst (cells s)) (max_streams s)"

section \<open>Operations that register no stream\<close>

text \<open>
  The contract shared by the operations that neither register a stream nor change a window: the
  configuration, the identity and grant of every stream stay, entries are only removed from the
  map, and bounded queues stay within their bounds.
\<close>

locale quiet_op =
  fixes f :: "shared \<Rightarrow> shared"
  assumes conf_kept: "conf (f s) = conf s"
    and cells_kept: "cells (f s) = cells s"
    and streams_shrink: "\<exists>P. streams (f s) = filter P (streams s)"
    and queues_kept: "queues_ok s \<Longrightarrow> queues_ok (f s)"
begin

lemma max_streams_kept: "max_streams (f s) = max_streams s"
  using conf_kept [of s] by (simp add: conf_def)

lemma registered_before: "x \<in> set (streams (f s)) \<Longrightarrow> x \<in> set (streams s)"
  using streams_shrink [of s] by (auto simp: set_filter)

lemma registry_kept: "registry_ok (streams s) ids mx \<Longrightarrow> registry_ok (streams (f s)) ids mx"
proof -
  assume ok: "registry_ok (streams s) ids mx"
  obtain P where P: "streams (f s) = filter P (streams s)" using streams_shrink by blast
  have "length (filter P (streams s)) \<le> length (streams s)" by simp
  with ok show ?thesis
    unfolding registry_ok_def P by (auto simp: list_all_iff distinct_map_filter intro: order_trans [OF length_filter_le])
qed

lemma inv_kept: "session_inv s \<Longrightarrow> session_inv (f s)"
  using conf_kept [of s] cells_kept [of s] queues_kept [of s] registry_kept [of s]
  by (simp add: session_inv_def max_streams_kept)

lemma refs_kept: "length (heap (f s)) = length (heap s)"
  using cells_kept [of s] by (metis cells_def length_map)

end

lemma quiet_id: "quiet_op (\<lambda>s. s)"
  by unfold_locales (auto intro: exI [of _ "\<lambda>_. True"])

lemma quiet_comp:
  assumes "quiet_op f" and "quiet_op g"
  shows "quiet_op (\<lambda>s. g (f s))"
proof
  fix s
  from quiet_op.streams_shrink [OF assms(1)] obtain P where P: "streams (f s) = filter P (streams s)" by blast
  from quiet_op.streams_shrink [OF assms(2)] obtain Q where "streams (g (f s)) = filter Q (streams (f s))" by blast
  with P show "\<exists>P. streams (g (f s)) = filter P (streams s)" by auto
qed (simp_all add: assms quiet_op.conf_kept quiet_op.cells_kept quiet_op.queues_kept)

text \<open>The choice of the operation may depend on the state.\<close>

lemma quiet_choice: "(\<And>x. quiet_op (h x)) \<Longrightarrow> quiet_op (\<lambda>s. h (k s) s)"
  by unfold_locales (simp_all add: quiet_op.conf_kept quiet_op.cells_kept quiet_op.queues_kept quiet_op.streams_shrink)

lemma quiet_if: "quiet_op f \<Longrightarrow> quiet_op g \<Longrightarrow> quiet_op (\<lambda>s. if P s then f s else g s)"
  by unfold_locales (simp_all add: quiet_op.conf_kept quiet_op.cells_kept quiet_op.queues_kept quiet_op.streams_shrink)

lemma quiet_fold: "(\<And>x. quiet_op (f x)) \<Longrightarrow> quiet_op (fold f xs)"
proof (induction xs)
  case Nil
  then show ?case using quiet_id by (simp add: id_def)
next
  case (Cons x xs)
  then show ?case using quiet_comp [of "f x" "fold f xs"] by (simp add: comp_def)
qed

lemma queues_ok_upd:
  assumes "queues_ok s" and "\<And>si. length (inbound_q si) \<le> INBOUND_QUEUE \<Longrightarrow> length (inbound_q (g si)) \<le> INBOUND_QUEUE"
  shows "queues_ok (upd_stream r g s)"
proof (cases "r < length (heap s)")
  case True
  then have "heap s ! r \<in> set (heap s)" by simp
  with assms show ?thesis
    by (auto simp: queues_ok_def upd_stream_def list_all_iff dest!: set_update_subset_insert [THEN subsetD])
qed (use assms in \<open>simp add: queues_ok_def upd_stream_def list_update_beyond\<close>)

lemma cells_upd:
  assumes "\<And>si. si_id (g si) = si_id si" and "\<And>si. granted (g si) = granted si"
  shows "cells (upd_stream r g s) = cells s"
  by (cases "r < length (heap s)")
    (auto simp: cells_def upd_stream_def map_update assms intro: nth_equalityI simp: nth_list_update)

lemma quiet_upd:
  assumes "\<And>si. si_id (g si) = si_id si" and "\<And>si. granted (g si) = granted si"
    and "\<And>si. length (inbound_q si) \<le> INBOUND_QUEUE \<Longrightarrow> length (inbound_q (g si)) \<le> INBOUND_QUEUE"
  shows "quiet_op (upd_stream r g)"
proof
  fix s
  show "conf (upd_stream r g s) = conf s" by (simp add: conf_def upd_stream_def)
  show "cells (upd_stream r g s) = cells s" using assms(1,2) by (rule cells_upd)
  show "\<exists>P. streams (upd_stream r g s) = filter P (streams s)"
    by (rule exI [of _ "\<lambda>_. True"]) (simp add: upd_stream_def)
  show "queues_ok s \<Longrightarrow> queues_ok (upd_stream r g s)" by (rule queues_ok_upd [OF _ assms(3)])
qed

lemma quiet_writer_push: "quiet_op (\<lambda>s. snd (try_send frame s))"
  by unfold_locales
    (auto simp: try_send_def conf_def cells_def queues_ok_def intro: exI [of _ "\<lambda>_. True"])

lemma quiet_unregister: "quiet_op (unregister sid)"
proof
  fix s
  show "\<exists>P. streams (unregister sid s) = filter P (streams s)"
    by (auto simp: unregister_def AList.delete_eq)
qed (auto simp: unregister_def conf_def cells_def queues_ok_def)

lemma quiet_clear: "quiet_op (\<lambda>s. s\<lparr>streams := []\<rparr>)"
  by unfold_locales (auto simp: conf_def cells_def queues_ok_def intro: exI [of _ "\<lambda>_. False"])

lemma quiet_flags:
  "quiet_op (\<lambda>s. s\<lparr>closed := b\<rparr>)" "quiet_op (\<lambda>s. s\<lparr>ready := b\<rparr>)"
  "quiet_op (\<lambda>s. s\<lparr>pings := p\<rparr>)" "quiet_op (\<lambda>s. s\<lparr>pongs := q\<rparr>)" "quiet_op (\<lambda>s. s\<lparr>last_pong_ms := t\<rparr>)"
  by (unfold_locales; auto simp: conf_def cells_def queues_ok_def intro: exI [of _ "\<lambda>_. True"])+

interpretation inbound_op: quiet_op "try_inbound r m" for r m
  unfolding try_inbound_def
proof -
  let ?P = "\<lambda>s. rx_open (heap s ! r) \<and> length (inbound_q (heap s ! r)) < INBOUND_QUEUE"
  let ?g = "\<lambda>si. si\<lparr>inbound_q := inbound_q si @ [m]\<rparr>"
  show "quiet_op (\<lambda>s. if ?P s then upd_stream r ?g s else s)"
  proof
    fix s
    have nth: "queues_ok s \<Longrightarrow> r < length (heap s) \<Longrightarrow> ?P s \<Longrightarrow>
        queues_ok (upd_stream r ?g s)"
      by (auto simp: queues_ok_def upd_stream_def list_all_length nth_list_update)
    show "queues_ok s \<Longrightarrow> queues_ok (if ?P s then upd_stream r ?g s else s)"
      using nth by (cases "r < length (heap s)") (auto simp: upd_stream_def list_update_beyond)
    show "cells (if ?P s then upd_stream r ?g s else s) = cells s" by (simp add: cells_upd)
  qed (auto simp: conf_def upd_stream_def intro: exI [of _ "\<lambda>_. True"])
qed

lemma quiet_control: "quiet_op (\<lambda>s. snd (send_control ft sid p s))"
proof -
  have "(\<lambda>s. snd (send_control ft sid p s)) =
      (\<lambda>s. if closed s \<and> ft \<noteq> FT_GOAWAY then s else snd (try_send (encode_frame ft 0 sid p) s))"
    by (simp add: send_control_def fun_eq_iff)
  then show ?thesis using quiet_if [OF quiet_id quiet_writer_push] by simp
qed

interpretation control_op: quiet_op "\<lambda>s. snd (send_control ft sid p s)" for ft sid p
  by (rule quiet_control)

interpretation unregister_op: quiet_op "unregister sid" for sid
  by (rule quiet_unregister)

interpretation retire_op: quiet_op "try_retire r" for r
proof -
  have eq: "try_retire r = (\<lambda>s. if \<not> (app_gone (heap s ! r) \<and> out_done (heap s ! r)) then s
      else try_inbound r Abort (if map_of (streams s) (si_id (heap s ! r)) = Some r
        then unregister (si_id (heap s ! r)) s else s))"
    by (auto simp: fun_eq_iff try_retire_def Let_def unregister_def)
  have "quiet_op (\<lambda>s. unregister (si_id (heap s ! r)) s)"
    by (rule quiet_choice [OF quiet_unregister])
  then show "quiet_op (try_retire r)"
    unfolding eq
    by (intro quiet_if quiet_comp [OF _ inbound_op.quiet_op_axioms] quiet_id)
qed

interpretation drop_op: quiet_op "drop_stream r" for r
proof -
  have "quiet_op (upd_stream r (\<lambda>si. si\<lparr>app_gone := True\<rparr>))" by (rule quiet_upd) auto
  then show "quiet_op (drop_stream r)"
    using quiet_comp [OF _ retire_op.quiet_op_axioms [of r]] by (simp add: drop_stream_def [abs_def])
qed

lemma quiet_ack_done: "quiet_op (upd_stream r (\<lambda>si. si\<lparr>ack_done := True\<rparr>))"
  by (rule quiet_upd) auto

lemma quiet_control_choice: "quiet_op (\<lambda>s. snd (send_control ft (sid s) (p s) s))"
  by (rule quiet_choice [of "\<lambda>ib s. snd (send_control ft (fst ib) (snd ib) s)" "\<lambda>s. (sid s, p s)",
        OF quiet_control, simplified])

lemma ack_done_then:
  assumes "quiet_op g"
  shows "quiet_op (\<lambda>s. if ack_done (heap s ! r) then s
    else g (snd (send_control ft (sid s) (p s) (upd_stream r (\<lambda>si. si\<lparr>ack_done := True\<rparr>) s))))"
proof -
  have "quiet_op (\<lambda>s. snd (send_control ft i b (upd_stream r (\<lambda>si. si\<lparr>ack_done := True\<rparr>) s)))" for i b
    by (rule quiet_comp [OF quiet_ack_done quiet_control])
  from quiet_comp [OF this assms] have
    "quiet_op (\<lambda>s. g (snd (send_control ft (fst ib) (snd ib) (upd_stream r (\<lambda>si. si\<lparr>ack_done := True\<rparr>) s))))" for ib .
  from quiet_choice [of "\<lambda>ib s. g (snd (send_control ft (fst ib) (snd ib)
      (upd_stream r (\<lambda>si. si\<lparr>ack_done := True\<rparr>) s)))" "\<lambda>s. (sid s, p s)", OF this]
  show ?thesis by (intro quiet_if quiet_id) simp
qed

interpretation accept_op: quiet_op "accept_stream E r up" for E r up
  unfolding accept_stream_def [abs_def] Let_def by (rule ack_done_then [OF quiet_id])

interpretation reject_op: quiet_op "reject_stream E r code reason" for E r code reason
  unfolding reject_stream_def [abs_def] Let_def by (rule ack_done_then [OF inbound_op.quiet_op_axioms])

interpretation abort_op: quiet_op "abort_stream r" for r
  unfolding abort_stream_def [abs_def]
  by (rule quiet_comp [OF quiet_control_choice inbound_op.quiet_op_axioms])

interpretation teardown_op: quiet_op teardown
proof -
  have "quiet_op (\<lambda>s. fold (\<lambda>r. try_inbound r Abort) refs (s\<lparr>closed := True, streams := []\<rparr>)\<lparr>ready := False\<rparr>)" for refs
    using quiet_comp [OF quiet_comp [OF quiet_comp [OF quiet_flags(1) [of True] quiet_clear]
        quiet_fold [of "\<lambda>r. try_inbound r Abort", OF inbound_op.quiet_op_axioms]] quiet_flags(2) [of False]]
    by simp
  from quiet_choice [OF this, where k = "\<lambda>s. map snd (streams s)"] show "quiet_op teardown"
    by (simp add: teardown_def [abs_def] Let_def)
qed

interpretation close_op: quiet_op "close_session E reason" for E reason
  unfolding close_session_def [abs_def]
  by (intro quiet_if quiet_id quiet_comp [OF _ teardown_op.quiet_op_axioms]
      quiet_comp [OF quiet_flags(1) [of True] quiet_control])

text \<open>Two states related by some such operation.\<close>

definition quietly :: "shared \<Rightarrow> shared \<Rightarrow> bool" where
  "quietly s s' \<longleftrightarrow> (\<exists>f. quiet_op f \<and> s' = f s)"

lemma quietlyI: "quiet_op f \<Longrightarrow> quietly s (f s)"
  by (auto simp: quietly_def)

lemma quietly_refl [simp]: "quietly s s"
  using quietlyI [OF quiet_id] .

lemma quietly_inv: "quietly s s' \<Longrightarrow> session_inv s \<Longrightarrow> session_inv s'"
  by (auto simp: quietly_def quiet_op.inv_kept)

lemma quietly_max: "quietly s s' \<Longrightarrow> max_streams s' = max_streams s"
  by (auto simp: quietly_def quiet_op.max_streams_kept)

end
