(* ===== verification/MuxIn.thy ===== *)
theory MuxIn
  imports MuxReader
begin

text \<open>
  The inbound pump of a stream (\<open>crates/krymux/src/mux.rs\<close>: \<open>inbound_pump\<close>, \<open>maybe_grow_window\<close>): it takes
  messages from the bounded queue the reader fills, decompresses, hands the bytes to the
  application and gives credit back to the peer.

  As in \<open>MuxOut\<close> the control states are the points where other tasks can interfere: besides the
  suspension points these are the two atomic operations on \<open>pending_credit\<close>, between which the credit
  ticker can run.

  Lemmas: every byte handed on is credited once and never twice, whatever the ticker does; the
  credit outstanding at the peer never exceeds the maximal window; the application receives the
  decompressed data in order, completely when it sees the end of the stream after EOF.
\<close>

section \<open>The pump\<close>

type_synonym dec_engine = "dec_inner \<Rightarrow> bytes list \<Rightarrow> bytes \<Rightarrow> (io_error, bytes) result"
type_synonym dec_finisher = "dec_inner \<Rightarrow> bytes list \<Rightarrow> (io_error, bytes) result"

text \<open>The flag of the credit states says whether the end-of-stream branch is running.\<close>

datatype in_pc =
    InRecv
  | InWrite bool bytes
  | InAdd bool nat
  | InSwap bool
  | InGrant bool u32
  | InGrow
  | InGrowSend u32
  | InShut
  | InFlush
  | InDone

text \<open>A decompressor: which engine, and what it has been fed.\<close>

type_synonym dec_state = "dec_inner \<times> bytes list"

record in_pump =
  ip_ds :: dec_state
  ip_discarding :: bool
  ip_pc :: in_pc

text \<open>The result of \<open>write_all\<close> to the application: all bytes, or an error after some of them.\<close>

datatype write_result = WOk | WErr nat

datatype in_label = ITau | Deliver bytes | Granted u32 | Bonus u32 | Shut

definition inbound_init :: "mux_env \<Rightarrow> stream_inner \<Rightarrow> in_pump" where
  "inbound_init E si =
     \<lparr>ip_ds = (decompressor_new (codecs E) (compression si), []), ip_discarding = False, ip_pc = InRecv\<rparr>"

definition credit_threshold :: "shared \<Rightarrow> u32" where
  "credit_threshold s = max (rx_window s div 4) 16384"

definition dec_push :: "dec_engine \<Rightarrow> dec_state \<Rightarrow> bytes \<Rightarrow> (io_error, bytes \<times> dec_state) result" where
  "dec_push eng ds w =
     (case ds of (d, h) \<Rightarrow>
        decompressor_push (\<lambda>ds w. case eng d h w of Inl e \<Rightarrow> Err e | Inr x \<Rightarrow> Ok (x, (d, h @ [w]))) d ds w)"

definition dec_end :: "dec_finisher \<Rightarrow> dec_state \<Rightarrow> (io_error, bytes \<times> dec_state) result" where
  "dec_end fin ds =
     (case ds of (d, h) \<Rightarrow> decompressor_finish (\<lambda>ds. case fin d h of Inl e \<Rightarrow> Err e | Inr x \<Rightarrow> Ok (x, ds)) d ds)"

text \<open>What a DATA message decodes to; \<open>None\<close>: the stream must be aborted.\<close>

definition plain_of :: "dec_engine \<Rightarrow> bytes \<Rightarrow> bool \<Rightarrow> dec_state \<Rightarrow> (bytes \<times> dec_state) option" where
  "plain_of eng wire compressed ds =
     (if \<not> compressed then Some (wire, ds)
      else case dec_push eng ds wire of
        Inl _ \<Rightarrow> None
      | Inr (x, ds') \<Rightarrow> if length x \<le> MAX_EXPANSION then Some (x, ds') else None)"

definition in_recv :: "dec_engine \<Rightarrow> dec_finisher \<Rightarrow> nat \<Rightarrow> shared \<Rightarrow> in_pump \<Rightarrow> (in_label \<times> shared \<times> in_pump) option" where
  "in_recv eng fin r s p =
     (case inbound_q (heap s ! r) of
        [] \<Rightarrow> None
      | m # q \<Rightarrow>
          let s1 = upd_stream r (\<lambda>si. si\<lparr>inbound_q := q\<rparr>) s in
          (case m of
             Data wire compressed \<Rightarrow>
               (case plain_of eng wire compressed (ip_ds p) of
                  None \<Rightarrow> Some (ITau, abort_stream r s1, p\<lparr>ip_pc := InFlush\<rparr>)
                | Some (plain, ds) \<Rightarrow>
                    let p1 = p\<lparr>ip_ds := ds\<rparr> in
                    if plain = [] then Some (ITau, s1, p1)
                    else Some (ITau,
                      upd_stream r (\<lambda>si. si\<lparr>consumed_since_grow := consumed_since_grow si + word_of_nat (length plain)\<rparr>) s1,
                      p1\<lparr>ip_pc := (if ip_discarding p then InAdd False (length plain) else InWrite False plain)\<rparr>))
           | Eof \<Rightarrow>
               (case dec_end fin (ip_ds p) of
                  Inl _ \<Rightarrow> Some (ITau, s1, p\<lparr>ip_pc := InShut\<rparr>)
                | Inr (tail, ds) \<Rightarrow>
                    if tail = [] then Some (ITau, s1, p\<lparr>ip_pc := InShut\<rparr>)
                    else Some (ITau, s1, p\<lparr>ip_ds := ds, ip_pc := InWrite True tail\<rparr>))
           | Abort \<Rightarrow> Some (ITau, s1, p\<lparr>ip_pc := InShut\<rparr>)))"

text \<open>A failed write switches to discarding; in the end-of-stream branch its result is ignored.\<close>

definition in_write :: "write_result \<Rightarrow> bool \<Rightarrow> bytes \<Rightarrow> in_pump \<Rightarrow> in_label \<times> in_pump" where
  "in_write wres eos plain p =
     (let p1 = p\<lparr>ip_pc := InAdd eos (length plain)\<rparr> in
      case wres of
        WOk \<Rightarrow> (Deliver plain, p1)
      | WErr k \<Rightarrow> (Deliver (take k plain), (if eos then p1 else p1\<lparr>ip_discarding := True\<rparr>)))"

definition in_credit :: "nat \<Rightarrow> shared \<Rightarrow> in_pump \<Rightarrow> (in_label \<times> shared \<times> in_pump) option" where
  "in_credit r s p =
     (case ip_pc p of
        InAdd eos k \<Rightarrow>
          let total = pending_credit (heap s ! r) + word_of_nat k;
              s1 = upd_stream r (\<lambda>si. si\<lparr>pending_credit := total\<rparr>) s
          in Some (ITau, s1, p\<lparr>ip_pc := (if total \<ge> credit_threshold s then InSwap eos
                                       else if eos then InShut else InGrow)\<rparr>)
      | InSwap eos \<Rightarrow>
          let drained = pending_credit (heap s ! r);
              s1 = upd_stream r (\<lambda>si. si\<lparr>pending_credit := 0\<rparr>) s
          in Some (ITau, s1, p\<lparr>ip_pc := (if drained > 0 then InGrant eos drained
                                       else if eos then InShut else InGrow)\<rparr>)
      | InGrant eos d \<Rightarrow>
          let p1 = p\<lparr>ip_pc := (if eos then InShut else InGrow)\<rparr> in
          (case wait_send (window_frame r d s) s of
             Blocked \<Rightarrow> None
           | Gone \<Rightarrow> Some (ITau, s, p1)
           | Sent s1 \<Rightarrow> Some (Granted d, s1, p1))
      | _ \<Rightarrow> None)"

text \<open>\<open>maybe_grow_window\<close> up to its suspension: the new state and the bonus to send, if any.\<close>

definition grow_window :: "nat \<Rightarrow> nat \<Rightarrow> shared \<Rightarrow> shared \<times> u32 option" where
  "grow_window now r s =
     (let si = heap s ! r; g = granted si in
      if g \<ge> rx_window_max s then (s, None)
      else if consumed_since_grow si < g div 2 then (s, None)
      else if now - grow_at si < 100 then (s, None)
      else let bonus = min g (rx_window_max s - g) in
        if bonus = 0 then (s, None)
        else (upd_stream r (\<lambda>si. si\<lparr>granted := granted si + bonus, consumed_since_grow := 0, grow_at := now\<rparr>) s, Some bonus))"

definition in_grow :: "nat \<Rightarrow> nat \<Rightarrow> shared \<Rightarrow> in_pump \<Rightarrow> (in_label \<times> shared \<times> in_pump) option" where
  "in_grow now r s p =
     (case ip_pc p of
        InGrow \<Rightarrow>
          (case grow_window now r s of
             (s1, None) \<Rightarrow> Some (ITau, s1, p\<lparr>ip_pc := InRecv\<rparr>)
           | (s1, Some b) \<Rightarrow> Some (ITau, s1, p\<lparr>ip_pc := InGrowSend b\<rparr>))
      | InGrowSend b \<Rightarrow>
          (case wait_send (window_frame r b s) s of
             Blocked \<Rightarrow> None
           | Gone \<Rightarrow> Some (ITau, s, p\<lparr>ip_pc := InRecv\<rparr>)
           | Sent s1 \<Rightarrow> Some (Bonus b, s1, p\<lparr>ip_pc := InRecv\<rparr>))
      | _ \<Rightarrow> None)"

text \<open>
  After the loop: the rest of the credit is flushed, or put back if the writer queue is full; then
  the receiver is dropped.
\<close>

definition in_flush :: "nat \<Rightarrow> shared \<Rightarrow> in_label \<times> shared" where
  "in_flush r s =
     (let drained = pending_credit (heap s ! r);
          s1 = upd_stream r (\<lambda>si. si\<lparr>pending_credit := 0\<rparr>) s;
          (l, s2) = (if drained > 0 then
             (case send_window r drained s1 of
                (ok, s2) \<Rightarrow> if ok then (if closed s then ITau else Granted drained, s2)
                  else (ITau, upd_stream r (\<lambda>si. si\<lparr>pending_credit := pending_credit si + drained\<rparr>) s2))
             else (ITau, s1))
      in (l, upd_stream r (\<lambda>si. si\<lparr>rx_open := False, inbound_q := []\<rparr>) s2))"

definition inbound_step ::
    "dec_engine \<Rightarrow> dec_finisher \<Rightarrow> nat \<Rightarrow> nat \<Rightarrow> write_result \<Rightarrow> shared \<Rightarrow> in_pump \<Rightarrow> (in_label \<times> shared \<times> in_pump) option" where
  "inbound_step eng fin r now wres s p =
     (case ip_pc p of
        InRecv \<Rightarrow> in_recv eng fin r s p
      | InWrite eos plain \<Rightarrow> (case in_write wres eos plain p of (l, p') \<Rightarrow> Some (l, s, p'))
      | InAdd _ _ \<Rightarrow> in_credit r s p
      | InSwap _ \<Rightarrow> in_credit r s p
      | InGrant _ _ \<Rightarrow> in_credit r s p
      | InGrow \<Rightarrow> in_grow now r s p
      | InGrowSend _ \<Rightarrow> in_grow now r s p
      | InShut \<Rightarrow> Some (Shut, s, p\<lparr>ip_pc := InFlush\<rparr>)
      | InFlush \<Rightarrow> (case in_flush r s of (l, s') \<Rightarrow> Some (l, s', p\<lparr>ip_pc := InDone\<rparr>))
      | InDone \<Rightarrow> None)"

section \<open>Runs\<close>

text \<open>
  History: messages taken from the queue, bytes handed to the application, whether a write to it
  failed, bytes counted as consumed, credit sent back for them, credit sent as a bonus, and credit for
  consumed bytes that could not be sent because the writer is gone or the session is closed.
\<close>

record in_log =
  li_taken :: "inbound list"
  li_out :: bytes
  li_broken :: bool
  li_used :: nat
  li_granted :: nat
  li_bonus :: nat
  li_lost :: nat
  li_shut :: bool

definition taken_msg :: "nat \<Rightarrow> shared \<Rightarrow> in_pump \<Rightarrow> inbound list" where
  "taken_msg r s p = (if ip_pc p = InRecv then take 1 (inbound_q (heap s ! r)) else [])"

fun used_now :: "in_pc \<Rightarrow> nat" where
  "used_now (InAdd _ k) = k"
| "used_now _ = 0"

definition lost_now :: "nat \<Rightarrow> shared \<Rightarrow> in_pump \<Rightarrow> nat" where
  "lost_now r s p =
     (case ip_pc p of
        InGrant _ d \<Rightarrow> if writer_open s then 0 else unat d
      | InFlush \<Rightarrow> if closed s then unat (pending_credit (heap s ! r)) else 0
      | _ \<Rightarrow> 0)"

fun write_broken :: "in_pc \<Rightarrow> write_result \<Rightarrow> bool" where
  "write_broken (InWrite _ _) (WErr _) = True"
| "write_broken _ _ = False"

fun log_in_label :: "in_label \<Rightarrow> in_log \<Rightarrow> in_log" where
  "log_in_label ITau lg = lg"
| "log_in_label (Deliver b) lg = lg\<lparr>li_out := li_out lg @ b\<rparr>"
| "log_in_label (Granted d) lg = lg\<lparr>li_granted := li_granted lg + unat d\<rparr>"
| "log_in_label (Bonus d) lg = lg\<lparr>li_bonus := li_bonus lg + unat d\<rparr>"
| "log_in_label Shut lg = lg\<lparr>li_shut := True\<rparr>"

definition log_in :: "nat \<Rightarrow> write_result \<Rightarrow> shared \<Rightarrow> in_pump \<Rightarrow> in_label \<Rightarrow> in_log \<Rightarrow> in_log" where
  "log_in r wres s p l lg =
     log_in_label l (lg\<lparr>li_taken := li_taken lg @ taken_msg r s p,
       li_broken := li_broken lg \<or> write_broken (ip_pc p) wres,
       li_used := li_used lg + used_now (ip_pc p),
       li_lost := li_lost lg + lost_now r s p\<rparr>)"

text \<open>
  What other tasks may do: the reader appends messages (a DATA payload within the advertised cap),
  the ticker flushes pending credit; the rest leaves the credit fields of the stream alone.
\<close>

definition small_msg :: "inbound \<Rightarrow> bool" where
  "small_msg m = (case m of Data w _ \<Rightarrow> length w \<le> OUR_MAX_DATA | _ \<Rightarrow> True)"

definition credit_view :: "nat \<Rightarrow> shared \<Rightarrow> u32 \<times> u32 \<times> u32 \<times> u32" where
  "credit_view r s = (pending_credit (heap s ! r), granted (heap s ! r), rx_window s, rx_window_max s)"

definition in_env :: "nat \<Rightarrow> shared \<Rightarrow> shared \<Rightarrow> bool" where
  "in_env r s s' \<longleftrightarrow> r < length (heap s') \<and> credit_view r s' = credit_view r s \<and>
     (\<exists>ms. inbound_q (heap s' ! r) = inbound_q (heap s ! r) @ ms \<and> list_all small_msg ms)"

inductive in_run :: "mux_env \<Rightarrow> dec_engine \<Rightarrow> dec_finisher \<Rightarrow> nat \<Rightarrow> stream_inner \<Rightarrow> in_log \<Rightarrow> shared \<Rightarrow> in_pump \<Rightarrow> bool"
  for E eng fin r si where
  start: "in_run E eng fin r si
      \<lparr>li_taken = [], li_out = [], li_broken = False, li_used = 0, li_granted = 0, li_bonus = 0, li_lost = 0, li_shut = False\<rparr>
      s (inbound_init E si)"
    if "r < length (heap s)" and "heap s ! r = si" and "pending_credit si = 0" and "inbound_q si = []"
      and "granted si = rx_window s" and "rx_window s \<le> rx_window_max s"
| pump: "in_run E eng fin r si (log_in r wres s p l lg) s' p'"
    if "in_run E eng fin r si lg s p" and "inbound_step eng fin r now wres s p = Some (l, s', p')"
      and "li_broken lg \<Longrightarrow> wres = WErr 0"
| tick: "in_run E eng fin r si
      (lg\<lparr>li_granted := li_granted lg + (unat (pending_credit (heap s ! r)) - unat (pending_credit (heap s' ! r)))\<rparr>) s' p"
    if "in_run E eng fin r si lg s p" and "\<not> closed s" and "s' = tick_stream r s"
| env: "in_run E eng fin r si lg s' p"
    if "in_run E eng fin r si lg s p" and "in_env r s s'"

text \<open>The reference: the bytes a sequence of messages stands for, and the decompressor after it while the stream goes on.\<close>

definition tail_of :: "dec_finisher \<Rightarrow> dec_state \<Rightarrow> bytes" where
  "tail_of fin ds = (case dec_end fin ds of Inl _ \<Rightarrow> [] | Inr (t, _) \<Rightarrow> t)"

fun decoded :: "dec_engine \<Rightarrow> dec_finisher \<Rightarrow> dec_state \<Rightarrow> inbound list \<Rightarrow> bytes \<times> dec_state option" where
  "decoded eng fin ds [] = ([], Some ds)"
| "decoded eng fin ds (Data w z # ms) =
     (case plain_of eng w z ds of
        None \<Rightarrow> ([], None)
      | Some (x, ds1) \<Rightarrow> (case decoded eng fin ds1 ms of (y, d) \<Rightarrow> (x @ y, d)))"
| "decoded eng fin ds (Eof # ms) = (tail_of fin ds, None)"
| "decoded eng fin ds (Abort # ms) = ([], None)"

lemma decoded_snoc:
  "decoded eng fin ds (ms @ [m]) =
     (case decoded eng fin ds ms of
        (x, None) \<Rightarrow> (x, None)
      | (x, Some d) \<Rightarrow> (case decoded eng fin d [m] of (y, d') \<Rightarrow> (x @ y, d')))"
  by (induction eng fin ds ms rule: decoded.induct) (auto split: option.splits prod.splits inbound.splits)

section \<open>Credit\<close>

fun hand :: "in_pc \<Rightarrow> nat" where
  "hand (InGrant _ d) = unat d"
| "hand _ = 0"

fun hand_bonus :: "in_pc \<Rightarrow> nat" where
  "hand_bonus (InGrowSend b) = unat b"
| "hand_bonus _ = 0"

fun size_ok :: "in_pc \<Rightarrow> bool" where
  "size_ok (InWrite _ b) = (length b \<le> MAX_EXPANSION)"
| "size_ok (InAdd _ k) = (k \<le> MAX_EXPANSION)"
| "size_ok _ = True"

definition credit_ok :: "in_log \<Rightarrow> in_pc \<Rightarrow> u32 \<times> u32 \<times> u32 \<times> u32 \<Rightarrow> bool" where
  "credit_ok lg pc v \<longleftrightarrow> (case v of (pending, g, rw, rwm) \<Rightarrow>
     li_granted lg + unat pending + hand pc + li_lost lg = li_used lg \<and>
     ((\<forall>e. pc \<noteq> InSwap e) \<longrightarrow> unat pending < 2 ^ 30) \<and>
     size_ok pc \<and> unat rw + li_bonus lg + hand_bonus pc \<le> unat g \<and> g \<le> rwm)"

definition tail_bounded :: "dec_finisher \<Rightarrow> bool" where
  "tail_bounded fin \<longleftrightarrow> (\<forall>d h x. fin d h = Ok x \<longrightarrow> length x \<le> MAX_EXPANSION)"

lemma upd_stream_nth [simp]:
  "r < length (heap s) \<Longrightarrow> heap (upd_stream r f s) ! r = f (heap s ! r)"
  "length (heap (upd_stream r f s)) = length (heap s)"
  "rx_window (upd_stream r f s) = rx_window s" "rx_window_max (upd_stream r f s) = rx_window_max s"
  "closed (upd_stream r f s) = closed s" "writer_open (upd_stream r f s) = writer_open s" "writer_q (upd_stream r f s) = writer_q s"
  by (simp_all add: upd_stream_def)

lemma try_send_heap [simp]:
  "heap (snd (send_control ft sid pl s)) = heap s" "rx_window (snd (send_control ft sid pl s)) = rx_window s"
  "rx_window_max (snd (send_control ft sid pl s)) = rx_window_max s"
  by (simp_all add: send_control_def try_send_def)

lemma abort_stream_cell:
  assumes "r < length (heap s)"
  shows "length (heap (abort_stream r s)) = length (heap s) \<and> credit_view r (abort_stream r s) = credit_view r s \<and>
    (list_all small_msg (inbound_q (heap s ! r)) \<longrightarrow> list_all small_msg (inbound_q (heap (abort_stream r s) ! r)))"
  using assms by (simp add: abort_stream_def try_inbound_def credit_view_def small_msg_def)

lemma threshold_bound: "unat (credit_threshold s) \<le> 2 ^ 30"
proof -
  have "unat (rx_window s) div 4 \<le> 2 ^ 30" using unat_u32_lt [of "rx_window s"] by simp
  then show ?thesis by (simp add: credit_threshold_def max_def unat_div)
qed

lemma plain_of_bounded: "plain_of eng w z ds = Some (x, ds') \<Longrightarrow> length w \<le> OUR_MAX_DATA \<Longrightarrow> length x \<le> MAX_EXPANSION"
  by (auto simp: plain_of_def OUR_MAX_DATA_def DEFAULT_MAX_DATA_def MAX_EXPANSION_def split: if_splits sum.splits prod.splits)

lemma dec_end_bounded: "tail_bounded fin \<Longrightarrow> dec_end fin ds = Ok (t, ds') \<Longrightarrow> length t \<le> MAX_EXPANSION"
  by (auto simp: dec_end_def decompressor_finish_def tail_bounded_def split: prod.splits dec_inner.splits sum.splits)

lemma pending_add:
  assumes "unat (q :: u32) < 2 ^ 30" and "k \<le> MAX_EXPANSION"
  shows "unat (q + word_of_nat k) = unat q + k"
proof -
  have k: "unat (word_of_nat k :: u32) = k"
    using assms(2) by (simp add: unat_of_nat take_bit_nat_def MAX_EXPANSION_def)
  have "unat q + unat (word_of_nat k :: u32) < 2 ^ 32" using assms k by (simp add: MAX_EXPANSION_def)
  then have "unat (q + word_of_nat k) = unat q + unat (word_of_nat k :: u32)" by (simp add: unat_word_ariths take_bit_nat_def)
  then show ?thesis by (simp add: k)
qed

lemma grow_bonus:
  assumes "g < (m :: u32)"
  shows "unat (g + min g (m - g)) = unat g + unat (min g (m - g))" "g + min g (m - g) \<le> m"
proof -
  have "unat (m - g) = unat m - unat g" using assms by (simp add: unat_sub)
  then have b: "unat g + unat (min g (m - g)) \<le> unat m"
    using assms by (auto simp: min_def word_le_nat_alt word_less_nat_alt)
  then have "unat g + unat (min g (m - g)) < 2 ^ 32" using unat_u32_lt [of m] by simp
  then show a: "unat (g + min g (m - g)) = unat g + unat (min g (m - g))"
    by (simp add: unat_word_ariths take_bit_nat_def)
  show "g + min g (m - g) \<le> m" using b by (simp add: word_le_nat_alt a)
qed

definition in_cred :: "nat \<Rightarrow> in_log \<Rightarrow> shared \<Rightarrow> in_pump \<Rightarrow> bool" where
  "in_cred r lg s p \<longleftrightarrow> r < length (heap s) \<and> credit_ok lg (ip_pc p) (credit_view r s) \<and>
     list_all small_msg (inbound_q (heap s ! r))"

text \<open>Only these fields of the history matter.\<close>

lemma credit_ok_log:
  "li_granted lg' = li_granted lg \<Longrightarrow> li_lost lg' = li_lost lg \<Longrightarrow> li_used lg' = li_used lg \<Longrightarrow> li_bonus lg' = li_bonus lg \<Longrightarrow>
   credit_ok lg' pc v = credit_ok lg pc v"
  by (simp add: credit_ok_def)

lemma log_in_label_fields:
  "li_granted (log_in_label l lg) = li_granted lg + (case l of Granted d \<Rightarrow> unat d | _ \<Rightarrow> 0)"
  "li_bonus (log_in_label l lg) = li_bonus lg + (case l of Bonus d \<Rightarrow> unat d | _ \<Rightarrow> 0)"
  "li_lost (log_in_label l lg) = li_lost lg" "li_used (log_in_label l lg) = li_used lg"
  "li_taken (log_in_label l lg) = li_taken lg" "li_broken (log_in_label l lg) = li_broken lg"
  "li_out (log_in_label l lg) = li_out lg @ (case l of Deliver b \<Rightarrow> b | _ \<Rightarrow> [])"
  by (cases l; simp)+

lemma in_recv_cred:
  assumes "ip_pc p = InRecv" and "in_cred r lg s p" and "in_recv eng fin r s p = Some (l, s', p')" and "tail_bounded fin"
  shows "in_cred r lg s' p' \<and> l = ITau"
proof -
  obtain m q where q: "inbound_q (heap s ! r) = m # q" using assms(3) by (auto simp: in_recv_def split: list.splits)
  have r: "r < length (heap s)" using assms(2) by (simp add: in_cred_def)
  let ?s1 = "upd_stream r (\<lambda>si. si\<lparr>inbound_q := q\<rparr>) s"
  have s1: "credit_view r ?s1 = credit_view r s" "list_all small_msg (inbound_q (heap ?s1 ! r))" "r < length (heap ?s1)"
    using assms(2) q r by (auto simp: in_cred_def credit_view_def)
  have m: "small_msg m" using assms(2) q by (simp add: in_cred_def)
  have ab: "in_cred r lg (abort_stream r ?s1) (p\<lparr>ip_pc := InFlush\<rparr>)"
    using abort_stream_cell [OF s1(3)] s1 assms(1,2) by (auto simp: in_cred_def credit_ok_def split: prod.splits)
  have upd: "in_cred r lg (upd_stream r (\<lambda>si. si\<lparr>consumed_since_grow := c si\<rparr>) ?s1) (p\<lparr>ip_ds := ds, ip_pc := pc\<rparr>)"
    if "size_ok pc" "hand pc = 0" "hand_bonus pc = 0" "\<forall>e. pc \<noteq> InSwap e" for c ds pc
    using that s1 r assms(1,2) by (auto simp: in_cred_def credit_ok_def credit_view_def split: prod.splits)
  have same: "in_cred r lg ?s1 (p\<lparr>ip_ds := ds, ip_pc := pc\<rparr>)"
    if "size_ok pc" "hand pc = 0" "hand_bonus pc = 0" "\<forall>e. pc \<noteq> InSwap e" for ds pc
    using that s1 r assms(1,2) by (auto simp: in_cred_def credit_ok_def credit_view_def split: prod.splits)
  have recv: "in_cred r lg ?s1 (p\<lparr>ip_ds := ds\<rparr>)" for ds
    using s1 r assms(1,2) by (auto simp: in_cred_def credit_ok_def credit_view_def split: prod.splits)
  have shut: "in_cred r lg ?s1 (p\<lparr>ip_pc := InShut\<rparr>)"
    using s1 r assms(1,2) by (auto simp: in_cred_def credit_ok_def credit_view_def split: prod.splits)
  show ?thesis
  proof (cases m)
    case (Data w z)
    then have w: "length w \<le> OUR_MAX_DATA" using m by (simp add: small_msg_def)
    show ?thesis
    proof (cases "plain_of eng w z (ip_ds p)")
      case None
      with assms(3) q Data ab show ?thesis by (simp add: in_recv_def Let_def)
    next
      case (Some x)
      obtain plain ds where x: "x = (plain, ds)" by (cases x)
      have b: "length plain \<le> MAX_EXPANSION" using plain_of_bounded Some x w by blast
      with assms(3) q Data Some x show ?thesis
        by (auto simp: in_recv_def Let_def split: if_splits intro!: upd recv)
    qed
  next
    case Eof
    with assms(3,4) q shut show ?thesis
      by (auto simp: in_recv_def Let_def split: sum.splits if_splits intro!: same dec_end_bounded [of fin])
  next
    case Abort
    with assms(3) q shut show ?thesis by (simp add: in_recv_def Let_def)
  qed
qed

lemma in_credit_cred:
  assumes "in_cred r lg s p" and "in_credit r s p = Some (l, s', p')"
  shows "in_cred r (log_in_label l (lg\<lparr>li_used := li_used lg + used_now (ip_pc p), li_lost := li_lost lg + lost_now r s p\<rparr>)) s' p'"
proof (cases "ip_pc p")
  case (InAdd eos k)
  let ?q = "pending_credit (heap s ! r)"
  have r: "r < length (heap s)" and q: "unat ?q < 2 ^ 30" and k: "k \<le> MAX_EXPANSION"
    using assms(1) InAdd by (auto simp: in_cred_def credit_ok_def credit_view_def)
  note add = pending_add [OF q k]
  have small: "unat (?q + word_of_nat k) < 2 ^ 30" if "\<not> credit_threshold s \<le> ?q + word_of_nat k"
  proof -
    have "unat (?q + word_of_nat k) < unat (credit_threshold s)" using that by (simp add: word_le_nat_alt)
    then show ?thesis using threshold_bound [of s] by linarith
  qed
  show ?thesis
    using assms InAdd r small
    by (auto simp: in_credit_def Let_def in_cred_def credit_ok_def credit_view_def lost_now_def add split: if_splits)
next
  case (InSwap eos)
  then show ?thesis
    using assms
    by (cases "pending_credit (heap s ! r) = 0"; cases eos)
      (auto simp: in_credit_def Let_def in_cred_def credit_ok_def credit_view_def lost_now_def word_gt_0)
next
  case (InGrant eos d)
  then show ?thesis
    using assms
    by (auto simp: in_credit_def Let_def in_cred_def credit_ok_def credit_view_def lost_now_def wait_send_def
        split: send_result.splits if_splits)
qed (use assms in \<open>simp_all add: in_credit_def\<close>)

lemma in_grow_cred:
  assumes "in_cred r lg s p" and "in_grow now r s p = Some (l, s', p')"
  shows "in_cred r (log_in_label l lg) s' p'"
proof (cases "ip_pc p")
  case InGrow
  let ?g = "granted (heap s ! r)"
  have r: "r < length (heap s)" using assms(1) by (simp add: in_cred_def)
  show ?thesis
  proof (cases "snd (grow_window now r s)")
    case None
    then have "grow_window now r s = (s, None)" by (auto simp: grow_window_def Let_def split: if_splits)
    with assms InGrow show ?thesis
      by (auto simp: in_grow_def in_cred_def credit_ok_def split: prod.splits)
  next
    case (Some b)
    then have lt: "?g < rx_window_max s" and b: "b = min ?g (rx_window_max s - ?g)"
      and s1: "fst (grow_window now r s) = upd_stream r (\<lambda>si. si\<lparr>granted := granted si + b, consumed_since_grow := 0, grow_at := now\<rparr>) s"
      by (auto simp: grow_window_def Let_def split: if_splits)
    have gw: "grow_window now r s = (fst (grow_window now r s), Some b)" using Some by (metis prod.collapse)
    have res: "l = ITau" "s' = fst (grow_window now r s)" "p' = p\<lparr>ip_pc := InGrowSend b\<rparr>"
      using assms(2) InGrow by (simp_all add: in_grow_def, subst (asm) gw, simp)+
    show ?thesis
      using assms(1) InGrow r grow_bonus [OF lt]
      by (simp add: res s1 in_cred_def credit_ok_def credit_view_def b)
  qed
next
  case (InGrowSend b)
  then show ?thesis
    using assms
    by (auto simp: in_grow_def in_cred_def credit_ok_def credit_view_def wait_send_def split: send_result.splits if_splits)
qed (use assms in \<open>simp_all add: in_grow_def\<close>)

lemma in_flush_cred:
  assumes "ip_pc p = InFlush" and "in_cred r lg s p" and "in_flush r s = (l, s')"
  shows "in_cred r (log_in_label l (lg\<lparr>li_lost := li_lost lg + lost_now r s p\<rparr>)) s' (p\<lparr>ip_pc := InDone\<rparr>)"
proof -
  have r: "r < length (heap s)" using assms(2) by (simp add: in_cred_def)
  show ?thesis
    using assms r
    by (auto simp: in_flush_def Let_def in_cred_def credit_ok_def credit_view_def lost_now_def send_window_def
        send_control_def try_send_def word_gt_0 FT_defs split: if_splits prod.splits)
qed

lemma tick_stream_cell:
  assumes "r < length (heap s)" and "\<not> closed s"
  shows "length (heap (tick_stream r s)) = length (heap s) \<and> inbound_q (heap (tick_stream r s) ! r) = inbound_q (heap s ! r) \<and>
    granted (heap (tick_stream r s) ! r) = granted (heap s ! r) \<and> rx_window (tick_stream r s) = rx_window s \<and>
    rx_window_max (tick_stream r s) = rx_window_max s \<and>
    (pending_credit (heap (tick_stream r s) ! r) = pending_credit (heap s ! r) \<or> pending_credit (heap (tick_stream r s) ! r) = 0)"
  using assms
  by (auto simp: tick_stream_def Let_def send_window_def send_control_def try_send_def split: prod.splits if_splits)

section \<open>Content\<close>

fun pend_write :: "in_pc \<Rightarrow> bytes" where
  "pend_write (InWrite _ b) = b"
| "pend_write _ = []"

fun running :: "in_pc \<Rightarrow> bool" where
  "running InRecv = True"
| "running (InWrite eos _) = (\<not> eos)"
| "running (InAdd eos _) = (\<not> eos)"
| "running (InSwap eos) = (\<not> eos)"
| "running (InGrant eos _) = (\<not> eos)"
| "running InGrow = True"
| "running (InGrowSend _) = True"
| "running _ = False"

definition content_ok :: "bytes \<times> dec_state option \<Rightarrow> in_log \<Rightarrow> in_pump \<Rightarrow> bool" where
  "content_ok dx lg p \<longleftrightarrow>
     (if li_broken lg then prefix (li_out lg) (fst dx) else li_out lg @ pend_write (ip_pc p) = fst dx) \<and>
     (running (ip_pc p) \<longrightarrow> snd dx = Some (ip_ds p) \<and> ip_discarding p = li_broken lg) \<and>
     (\<forall>b. ip_pc p = InWrite False b \<longrightarrow> \<not> li_broken lg)"

lemma in_other_step:
  assumes "inbound_step eng fin r now wres s p = Some (l, s', p')" and "ip_pc p \<noteq> InRecv" and "\<forall>e b. ip_pc p \<noteq> InWrite e b"
  shows "\<exists>pc. p' = p\<lparr>ip_pc := pc\<rparr> \<and> pend_write pc = [] \<and> (running pc \<longrightarrow> running (ip_pc p)) \<and> (\<forall>b. pc \<noteq> InWrite False b) \<and> (\<forall>b. l \<noteq> Deliver b)"
proof (cases "ip_pc p")
  case (InAdd e k)
  then show ?thesis using assms(1) by (auto simp: inbound_step_def in_credit_def Let_def split: if_splits)
next
  case (InSwap e)
  then show ?thesis using assms(1) by (auto simp: inbound_step_def in_credit_def Let_def split: if_splits)
next
  case (InGrant e d)
  then show ?thesis using assms(1)
    by (auto simp: inbound_step_def in_credit_def Let_def split: if_splits send_result.splits)
next
  case InGrow
  then show ?thesis using assms(1) by (auto simp: inbound_step_def in_grow_def split: prod.splits option.splits)
next
  case (InGrowSend b)
  then show ?thesis using assms(1) by (auto simp: inbound_step_def in_grow_def split: send_result.splits)
next
  case InFlush
  then show ?thesis using assms(1)
    by (auto simp: inbound_step_def in_flush_def Let_def split: prod.splits if_splits)
qed (use assms in \<open>auto simp: inbound_step_def\<close>)

lemma in_recv_content:
  assumes "ip_pc p = InRecv" and "content_ok (decoded eng fin ds (li_taken lg)) lg p"
    and "in_recv eng fin r s p = Some (l, s', p')"
  shows "content_ok (decoded eng fin ds (li_taken lg @ taken_msg r s p)) lg p'"
proof -
  obtain x where x: "decoded eng fin ds (li_taken lg) = (x, Some (ip_ds p))"
    using assms(1,2) by (cases "decoded eng fin ds (li_taken lg)") (auto simp: content_ok_def)
  obtain m q where q: "inbound_q (heap s ! r) = m # q" using assms(3) by (auto simp: in_recv_def split: list.splits)
  have t: "taken_msg r s p = [m]" using assms(1) q by (simp add: taken_msg_def)
  have snoc: "decoded eng fin ds (li_taken lg @ [m]) = (x @ fst (decoded eng fin (ip_ds p) [m]), snd (decoded eng fin (ip_ds p) [m]))"
    by (simp add: decoded_snoc x split: prod.split)
  have old: "if li_broken lg then prefix (li_out lg) x else li_out lg = x" "ip_discarding p = li_broken lg"
    using assms(1,2) x by (auto simp: content_ok_def)
  show ?thesis
  proof (cases m)
    case (Data w z)
    show ?thesis
    proof (cases "plain_of eng w z (ip_ds p)")
      case None
      then show ?thesis using assms(3) q old Data t snoc
        by (auto simp: in_recv_def Let_def content_ok_def)
    next
      case (Some y)
      then show ?thesis using assms(1,3) q old Data t snoc
        by (cases y; cases "li_broken lg"; cases "fst y = []") (auto simp: in_recv_def Let_def content_ok_def)
    qed
  next
    case Eof
    then show ?thesis using assms(3) q old t snoc
      by (cases "li_broken lg") (auto simp: in_recv_def Let_def content_ok_def tail_of_def split: sum.splits if_splits)
  next
    case Abort
    then show ?thesis using assms(3) q old t snoc by (cases "li_broken lg") (auto simp: in_recv_def Let_def content_ok_def)
  qed
qed

lemma log_in_fields:
  "li_taken (log_in r wres s p l lg) = li_taken lg @ taken_msg r s p"
  "li_out (log_in r wres s p l lg) = li_out lg @ (case l of Deliver b \<Rightarrow> b | _ \<Rightarrow> [])"
  "li_broken (log_in r wres s p l lg) = (li_broken lg \<or> write_broken (ip_pc p) wres)"
  by (simp_all add: log_in_def log_in_label_fields)

lemma in_step_content:
  assumes "content_ok (decoded eng fin ds (li_taken lg)) lg p" and "inbound_step eng fin r now wres s p = Some (l, s', p')"
    and "li_broken lg \<Longrightarrow> wres = WErr 0"
  shows "content_ok (decoded eng fin ds (li_taken (log_in r wres s p l lg))) (log_in r wres s p l lg) p'"
proof -
  consider (recv) "ip_pc p = InRecv" | (wr) e b where "ip_pc p = InWrite e b"
    | (other) "ip_pc p \<noteq> InRecv" "\<forall>e b. ip_pc p \<noteq> InWrite e b" by blast
  then show ?thesis
  proof cases
    case recv
    then have "in_recv eng fin r s p = Some (l, s', p')" using assms(2) by (simp add: inbound_step_def)
    note c = in_recv_content [OF recv assms(1) this]
    have "l = ITau" using \<open>in_recv eng fin r s p = Some (l, s', p')\<close>
      by (auto simp: in_recv_def Let_def split: list.splits inbound.splits option.splits prod.splits if_splits sum.splits)
    then show ?thesis using c recv unfolding content_ok_def log_in_fields by simp
  next
    case (wr e b)
    have "prefix (li_out lg @ take k b) (li_out lg @ b)" for k by (simp add: take_is_prefix)
    with wr show ?thesis
      using assms by (cases wres; cases "li_broken lg"; cases e)
        (auto simp: inbound_step_def in_write_def Let_def content_ok_def log_in_fields taken_msg_def)
  next
    case other
    then obtain pc where pc: "p' = p\<lparr>ip_pc := pc\<rparr>" "pend_write pc = []" "running pc \<longrightarrow> running (ip_pc p)"
      "\<forall>b. pc \<noteq> InWrite False b" "\<forall>b. l \<noteq> Deliver b" using in_other_step [OF assms(2)] by blast
    have "\<not> write_broken (ip_pc p) wres" using other by (cases "ip_pc p") auto
    moreover have "pend_write (ip_pc p) = []" using other by (cases "ip_pc p") auto
    moreover have "(case l of Deliver b \<Rightarrow> b | _ \<Rightarrow> []) = []" using pc(5) by (cases l) auto
    ultimately show ?thesis using assms(1) other pc(2-4) by (auto simp: content_ok_def log_in_fields taken_msg_def pc(1))
  qed
qed

section \<open>Properties of the inbound pump\<close>

lemma in_step_cred:
  assumes "in_cred r lg s p" and "inbound_step eng fin r now wres s p = Some (l, s', p')" and "tail_bounded fin"
  shows "in_cred r (log_in r wres s p l lg) s' p'"
proof -
  let ?lg = "lg\<lparr>li_used := li_used lg + used_now (ip_pc p), li_lost := li_lost lg + lost_now r s p\<rparr>"
  have eq: "in_cred r (log_in r wres s p l lg) s' p' = in_cred r (log_in_label l ?lg) s' p'"
    unfolding in_cred_def by (intro conj_cong refl credit_ok_log) (simp_all add: log_in_def log_in_label_fields)
  have credit: "in_cred r (log_in r wres s p l lg) s' p'" if "in_credit r s p = Some (l, s', p')"
    unfolding eq using in_credit_cred [OF assms(1) that] .
  show ?thesis
  proof (cases "ip_pc p")
    case InRecv
    then have "in_recv eng fin r s p = Some (l, s', p')" using assms(2) by (simp add: inbound_step_def)
    from in_recv_cred [OF InRecv assms(1) this assms(3)] InRecv show ?thesis
      unfolding eq by (simp add: lost_now_def)
  next
    case (InWrite e b)
    with assms(1,2) show ?thesis
      unfolding eq by (cases wres)
        (auto simp: inbound_step_def in_write_def Let_def lost_now_def in_cred_def credit_ok_def split: prod.splits if_splits)
  next
    case InShut
    with assms(1,2) show ?thesis
      unfolding eq by (auto simp: inbound_step_def lost_now_def in_cred_def credit_ok_def split: prod.splits)
  next
    case InFlush
    then obtain s1 where "in_flush r s = (l, s1)" "s' = s1" "p' = p\<lparr>ip_pc := InDone\<rparr>"
      using assms(2) by (auto simp: inbound_step_def split: prod.splits)
    with InFlush in_flush_cred [OF InFlush assms(1)] show ?thesis unfolding eq by simp
  next
    case InGrow
    then have "in_grow now r s p = Some (l, s', p')" using assms(2) by (simp add: inbound_step_def)
    from in_grow_cred [OF assms(1) this] InGrow show ?thesis unfolding eq by (simp add: lost_now_def)
  next
    case (InGrowSend b)
    then have "in_grow now r s p = Some (l, s', p')" using assms(2) by (simp add: inbound_step_def)
    from in_grow_cred [OF assms(1) this] InGrowSend show ?thesis unfolding eq by (simp add: lost_now_def)
  next
    case InDone
    then show ?thesis using assms(2) by (simp add: inbound_step_def)
  qed (rule credit, use assms(2) in \<open>simp add: inbound_step_def\<close>)+
qed

lemma in_run_inv:
  assumes "in_run E eng fin r si lg s p" and "tail_bounded fin"
  shows "in_cred r lg s p \<and> content_ok (decoded eng fin (decompressor_new (codecs E) (compression si), []) (li_taken lg)) lg p"
  using assms(1)
proof (induction rule: in_run.induct)
  case (start s)
  then show ?case
    by (auto simp: in_cred_def credit_ok_def credit_view_def content_ok_def inbound_init_def)
next
  case (pump lg s p now wres l s' p')
  then show ?case using in_step_cred [OF _ pump(2) assms(2)] in_step_content [OF _ pump(2,3)] by blast
next
  case (tick lg s p s')
  have r: "r < length (heap s)" using tick by (simp add: in_cred_def)
  from tick_stream_cell [OF r tick(2)] tick(3,4) show ?case
    by (auto simp: in_cred_def credit_ok_def credit_view_def content_ok_def)
next
  case (env lg s p s')
  then show ?case by (auto simp: in_cred_def in_env_def)
qed



text \<open>On a decompression failure the pump ends without signalling the end to its application.\<close>

lemma decode_failure_no_shutdown:
  assumes "ip_pc p = InRecv" and "inbound_q (heap s ! r) = Data w True # q" and "plain_of eng w True (ip_ds p) = None"
  shows "\<exists>s' s'' l. inbound_step eng fin r now wres s p = Some (ITau, s', p\<lparr>ip_pc := InFlush\<rparr>) \<and>
    inbound_step eng fin r now wres s' (p\<lparr>ip_pc := InFlush\<rparr>) = Some (l, s'', p\<lparr>ip_pc := InDone\<rparr>) \<and> l \<noteq> Shut"
  using assms
  by (auto simp: inbound_step_def in_recv_def Let_def in_flush_def split: prod.splits if_splits)

section \<open>A concrete run\<close>

fun in_drive :: "dec_engine \<Rightarrow> dec_finisher \<Rightarrow> nat \<Rightarrow> write_result list \<Rightarrow> in_log \<times> shared \<times> in_pump \<Rightarrow> in_log \<times> shared \<times> in_pump" where
  "in_drive eng fin r [] x = x"
| "in_drive eng fin r (w # ws) (lg, s, p) =
     (case inbound_step eng fin r 0 w s p of
        None \<Rightarrow> (lg, s, p)
      | Some (l, s', p') \<Rightarrow> in_drive eng fin r ws (log_in r w s p l lg, s', p'))"

lemma in_drive_run:
  assumes "in_run E eng fin r si lg s p" and "\<not> li_broken lg" and "list_all (\<lambda>w. w = WOk) ws"
    and "in_drive eng fin r ws (lg, s, p) = (lg', s', p')"
  shows "in_run E eng fin r si lg' s' p'"
  using assms
proof (induction ws arbitrary: lg s p)
  case (Cons w ws)
  have ok: "\<not> write_broken pc WOk" for pc by (cases pc) auto
  show ?case
  proof (cases "inbound_step eng fin r 0 w s p")
    case None
    with Cons show ?thesis by simp
  next
    case (Some y)
    obtain l s1 p1 where y: "y = (l, s1, p1)" by (cases y) auto
    have "in_run E eng fin r si (log_in r w s p l lg) s1 p1"
      using in_run.pump [OF Cons.prems(1) Some [unfolded y]] Cons.prems(2) by blast
    moreover have "\<not> li_broken (log_in r w s p l lg)" using Cons.prems(2,3) ok by (simp add: log_in_fields)
    ultimately show ?thesis using Cons.IH [of "log_in r w s p l lg" s1 p1] Cons.prems(3,4) Some y by simp
  qed
qed simp

definition no_tail :: dec_finisher where
  "no_tail d h = Ok []"

definition no_decoder :: dec_engine where
  "no_decoder d h w = Err EngineError"

definition demo_in :: shared where
  "demo_in = upd_stream 0 (\<lambda>si. si\<lparr>inbound_q := [Data [1, 2, 3] False, Eof]\<rparr>) demo_out"

lemma demo_in_run:
  "\<exists>s p. in_run demo_mux_env no_decoder no_tail 0 demo_stream
     \<lparr>li_taken = [Data [1, 2, 3] False, Eof], li_out = [1, 2, 3], li_broken = False, li_used = 3, li_granted = 3,
      li_bonus = 0, li_lost = 0, li_shut = True\<rparr> s p \<and> ip_pc p = InDone \<and> pending_credit (heap s ! 0) = 0"
proof -
  let ?lg = "\<lparr>li_taken = [], li_out = [], li_broken = False, li_used = 0, li_granted = 0, li_bonus = 0, li_lost = 0, li_shut = False\<rparr>"
  have f: "rx_window demo_out = 262144" "rx_window_max demo_out = 4194304"
    by (simp_all add: demo_out_def demo_server_def start_session_def try_send_def Let_def demo_opts_def)
  have si: "pending_credit demo_stream = 0" "inbound_q demo_stream = []" "granted demo_stream = 262144"
    "consumed_since_grow demo_stream = 0" "rx_open demo_stream"
    by (simp_all add: demo_stream_def new_inner_def demo_server_def start_session_def try_send_def Let_def demo_opts_def)
  have "in_run demo_mux_env no_decoder no_tail 0 demo_stream ?lg demo_out (inbound_init demo_mux_env demo_stream)"
    by (rule in_run.start) (simp_all add: demo_out_facts si f)
  moreover have "in_env 0 demo_out demo_in"
    by (simp add: in_env_def demo_in_def credit_view_def demo_out_facts si small_msg_def OUR_MAX_DATA_def DEFAULT_MAX_DATA_def)
  ultimately have run: "in_run demo_mux_env no_decoder no_tail 0 demo_stream ?lg demo_in (inbound_init demo_mux_env demo_stream)"
    by (rule in_run.env)
  have dec: "decompressor_new (codecs demo_mux_env) ALGO_NONE = DecNone"
    by (simp add: decompressor_new_def ALGO_defs demo_mux_env_def)
  obtain s p where "in_drive no_decoder no_tail 0 [WOk, WOk, WOk, WOk, WOk, WOk, WOk] (?lg, demo_in, inbound_init demo_mux_env demo_stream) =
      (\<lparr>li_taken = [Data [1, 2, 3] False, Eof], li_out = [1, 2, 3], li_broken = False, li_used = 3, li_granted = 3,
        li_bonus = 0, li_lost = 0, li_shut = True\<rparr>, s, p) \<and> ip_pc p = InDone \<and> pending_credit (heap s ! 0) = 0"
    by (simp add: inbound_init_def inbound_step_def in_recv_def Let_def plain_of_def in_write_def in_credit_def
        in_grow_def grow_window_def dec_end_def dec decompressor_finish_def in_flush_def send_window_def
        send_control_def try_send_def WRITER_QUEUE_def upd_stream_def log_in_def taken_msg_def lost_now_def
        demo_in_def demo_out_facts si f credit_threshold_def)
  note d = this
  have "in_run demo_mux_env no_decoder no_tail 0 demo_stream
      \<lparr>li_taken = [Data [1, 2, 3] False, Eof], li_out = [1, 2, 3], li_broken = False, li_used = 3, li_granted = 3,
       li_bonus = 0, li_lost = 0, li_shut = True\<rparr> s p"
    by (rule in_drive_run [OF run _ _ conjunct1 [OF d]]) simp_all
  with d show ?thesis by blast
qed



end
