(* ===== verification/MuxSession.thy ===== *)
theory MuxSession
  imports MuxOut MuxIn
begin

text \<open>
  The session as a whole: a step relation whose steps are all the things the tasks and callers of
  one session do (\<open>crates/krymux/src/mux.rs\<close>), and what holds in every reachable state.

  The relation keeps only the shared state: the private state of a pump, of the reader or of a
  caller is arbitrary in each step, so that there are at least as many behaviours as in the program.
  Streams are opened by \<open>open_stream\<close> on client sessions only, as in \<open>client.rs\<close>.
\<close>

section \<open>Steps\<close>

inductive mux_step :: "mux_env \<Rightarrow> shared \<Rightarrow> shared \<Rightarrow> bool" for E where
  frame: "handle_frame E now t fh p s = Ok (s', todo) \<Longrightarrow> mux_step E s s'"
| parked: "deliver todo s = Some (s', todo') \<Longrightarrow> mux_step E s s'"
| read_end: "mux_step E s (reader_exit s)"
| read_bad: "mux_step E s (reader_exit (snd (send_control FT_GOAWAY 0 reason s)))"
| open_new: "is_client s \<Longrightarrow> open_begin E tg req now s = Ok (r, fr, s') \<Longrightarrow> mux_step E s s'"
| open_end: "open_finish r ev s = (res, s') \<Longrightarrow> mux_step E s s'"
| send: "wait_send fr s = Sent s' \<Longrightarrow> mux_step E s s'"
| accepts: "mux_step E s (accept_stream E r up s)"
| rejects: "mux_step E s (reject_stream E r code reason s)"
| dropped: "mux_step E s (drop_stream r s)"
| closing: "mux_step E s (close_session E reason s)"
| pinging: "ping_begin nonce s = (fr, s') \<Longrightarrow> mux_step E s s'"
| ping_end: "ping_finish nonce t now s = (res, s') \<Longrightarrow> mux_step E s s'"
| tick: "mux_step E s (credit_tick s)"
| keepalive: "keepalive_tick i now nonce s = KaExit s' \<Longrightarrow> mux_step E s s'"
| keepalive_ping: "mux_step E s (keepalive_sent s)"
| outbound: "outbound_step E eng r rd s p = Some (l, s', p') \<Longrightarrow> mux_step E s s'"
| inbound: "inbound_step deng fin r now wres s p = Some (l, s', p') \<Longrightarrow> mux_step E s s'"
| writing: "writer_step ok pc s = Some (out, pc', s') \<Longrightarrow> mux_step E s s'"

inductive reachable :: "mux_env \<Rightarrow> session_opts \<Rightarrow> bool \<Rightarrow> shared \<Rightarrow> bool" for E opts h where
  initial: "reachable E opts h (start_session E opts h now)"
| step: "reachable E opts h s \<Longrightarrow> mux_step E s s' \<Longrightarrow> reachable E opts h s'"

section \<open>Every step keeps the invariant\<close>

lemma quietly_trans: "quietly s s' \<Longrightarrow> quietly s' s'' \<Longrightarrow> quietly s s''"
proof -
  assume "quietly s s'" and "quietly s' s''"
  then obtain f g where "quiet_op f" "s' = f s" "quiet_op g" "s'' = g s'" by (auto simp: quietly_def)
  then show ?thesis using quietlyI [OF quiet_comp [of f g], of s] by simp
qed

lemma quietly_sent: "wait_send fr s = Sent s' \<Longrightarrow> quietly s s'"
  using quietlyI [OF quiet_writer_push, of s fr]
  by (auto simp: wait_send_def try_send_def split: if_splits)

lemma quietly_acquire: "acquire_credits r w s = AcqGot k s' \<Longrightarrow> quietly s s'"
proof -
  have "quiet_op (upd_stream r (\<lambda>si. si\<lparr>credits := wrap_i64 (credits si - int k)\<rparr>))"
    by (rule quiet_upd) auto
  note q = quietlyI [OF this, of s]
  assume "acquire_credits r w s = AcqGot k s'"
  then show ?thesis using q by (auto simp: acquire_credits_def Let_def split: if_splits)
qed

lemma quietly_out_finish: "quietly s (out_finish r s)"
proof -
  have "quiet_op (upd_stream r (\<lambda>si. si\<lparr>out_done := True\<rparr>))" by (rule quiet_upd) auto
  from quietlyI [OF quiet_comp [OF this retire_op.quiet_op_axioms]] show ?thesis by (simp add: out_finish_def)
qed

lemma quietly_outbound: "outbound_step E eng r rd s p = Some (l, s', p') \<Longrightarrow> quietly s s'"
proof (cases "op_pc p")
  case OutEnd
  moreover assume "outbound_step E eng r rd s p = Some (l, s', p')"
  ultimately show ?thesis
    by (auto simp: outbound_step_def out_end_def Let_def split: send_result.splits
        intro: quietly_out_finish quietly_trans [OF quietly_sent quietly_out_finish])
qed (auto simp: outbound_step_def out_fast_def out_slow_def Let_def
      split: acquire_result.splits send_result.splits if_splits intro: quietly_acquire quietly_sent)

lemma quietly_pop: "inbound_q (heap s ! r) = m # q \<Longrightarrow> quietly s (upd_stream r (\<lambda>si. si\<lparr>inbound_q := q\<rparr>) s)"
proof -
  have "quiet_op (upd_stream r (\<lambda>si. si\<lparr>inbound_q := tl (inbound_q si)\<rparr>))" by (rule quiet_upd) auto
  note q = quietlyI [OF this, of s]
  assume "inbound_q (heap s ! r) = m # q"
  then show ?thesis using q by (simp add: upd_stream_def)
qed

lemma quietly_abort: "quietly s (abort_stream r s)"
  by (rule quietlyI [OF abort_op.quiet_op_axioms])

lemma quietly_consumed: "quietly s (upd_stream r (\<lambda>si. si\<lparr>consumed_since_grow := c si\<rparr>) s)"
  by (intro quietlyI quiet_upd) auto

lemma quietly_recv: "in_recv eng fin r s p = Some (l, s', p') \<Longrightarrow> quietly s s'"
  by (auto simp: in_recv_def Let_def split: list.splits inbound.splits option.splits prod.splits sum.splits if_splits
      intro: quietly_pop quietly_trans [OF quietly_pop quietly_abort] quietly_trans [OF quietly_pop quietly_consumed])

lemma quietly_pending: "quietly s (upd_stream r (\<lambda>si. si\<lparr>pending_credit := g si\<rparr>) s)"
  by (rule quietlyI [OF quiet_pending])

lemma quietly_credit: "in_credit r s p = Some (l, s', p') \<Longrightarrow> quietly s s'"
  by (cases "ip_pc p")
    (auto simp: in_credit_def Let_def split: send_result.splits if_splits intro: quietly_pending quietly_sent)

lemma quietly_flush: "in_flush r s = (l, s') \<Longrightarrow> quietly s s'"
proof -
  have fin: "quietly s (upd_stream r (\<lambda>si. si\<lparr>rx_open := False, inbound_q := []\<rparr>) s)" for s
    by (intro quietlyI quiet_upd) auto
  have win: "quietly s (snd (send_window r d s))" for d s
    unfolding send_window_def by (rule quietlyI [OF quiet_control])
  have win': "send_window r d s = (ok, s2) \<Longrightarrow> quietly s s2" for d s ok s2
    using win [of s d] by simp
  assume "in_flush r s = (l, s')"
  then show ?thesis
    by (auto simp: in_flush_def Let_def split: prod.splits if_splits
        intro: quietly_trans [OF quietly_pending fin] quietly_trans [OF quietly_trans [OF quietly_pending win'] fin]
          quietly_trans [OF quietly_trans [OF quietly_trans [OF quietly_pending win'] quietly_pending] fin])
qed

lemma quietly_writer: "writer_step ok pc s = Some (out, pc', s') \<Longrightarrow> quietly s s'"
proof -
  have q: "quiet_op (\<lambda>s. s\<lparr>writer_q := drop n (writer_q s)\<rparr>)" for n
    by unfold_locales (auto simp: conf_def cells_def queues_ok_def intro: exI [of _ "\<lambda>_. True"])
  have c: "quiet_op (\<lambda>s. s\<lparr>writer_open := False, writer_q := []\<rparr>)"
    by unfold_locales (auto simp: conf_def cells_def queues_ok_def WRITER_QUEUE_def intro: exI [of _ "\<lambda>_. True"])
  have exit: "quietly s (writer_exit s)" using quietlyI [OF c, of s] by (simp add: writer_exit_def)
  have one: "writer_q s = f # fs \<Longrightarrow> quietly s (s\<lparr>writer_q := fs\<rparr>)" for f fs
    using quietlyI [OF q [of 1], of s] by simp
  have batch: "writer_q s = f # g # fs \<Longrightarrow> fill_batch 2 (f @ g) fs = (b, fs') \<Longrightarrow> quietly s (s\<lparr>writer_q := fs'\<rparr>)" for f g fs b fs'
    using quietlyI [OF q [of 16], of s] fill_batch_count [of 2 "f @ g" fs b fs'] by simp
  assume "writer_step ok pc s = Some (out, pc', s')"
  then show ?thesis
    by (cases pc) (auto split: list.splits if_splits prod.splits intro: exit one batch)
qed

text \<open>The two steps that are not quiet: opening a stream and enlarging a window.\<close>

lemma grow_window_inv:
  assumes "session_inv s" and "grow_window now r s = (s', b)"
  shows "session_inv s'"
proof (cases b)
  case None
  then show ?thesis using assms by (auto simp: grow_window_def Let_def split: if_splits)
next
  case (Some x)
  let ?g = "granted (heap s ! r)"
  have lt: "?g < rx_window_max s" and x: "x = min ?g (rx_window_max s - ?g)"
    and s': "s' = upd_stream r (\<lambda>si. si\<lparr>granted := granted si + x, consumed_since_grow := 0, grow_at := now\<rparr>) s"
    using assms(2) Some by (auto simp: grow_window_def Let_def split: if_splits)
  show ?thesis
  proof (cases "r < length (heap s)")
    case True
    have cells: "cells s' = (cells s)[r := (fst (cells s ! r), ?g + x)]"
      using True by (simp add: s' cells_def upd_stream_def map_update)
    have fsts: "map fst (cells s') = map fst (cells s)"
    proof -
      have "r < length (cells s)" using True by (simp add: cells_def)
      then have "(map fst (cells s))[r := fst (cells s ! r)] = map fst (cells s)" by (simp add: list_update_same_conv)
      then show ?thesis by (simp only: cells map_update fst_conv)
    qed
    have rw: "rx_window s \<le> ?g" using assms(1) True
      by (auto simp: session_inv_def inv_conf_def conf_def list_all_length cells_def)
    have new: "rx_window s \<le> ?g + x \<and> ?g + x \<le> rx_window_max s"
      using grow_bonus [OF lt] rw by (simp add: x word_le_nat_alt)
    have "list_all (\<lambda>(_, g). rx_window s \<le> g \<and> g \<le> rx_window_max s) (cells s')"
      using assms(1) new
      by (auto simp: cells session_inv_def inv_conf_def conf_def list_all_iff dest!: set_update_subset_insert [THEN subsetD])
    moreover have "queues_ok s'" using assms(1) unfolding s' session_inv_def
      by (intro queues_ok_upd) auto
    moreover have "conf s' = conf s" "streams s' = streams s" "max_streams s' = max_streams s"
      by (simp_all add: s' conf_def upd_stream_def)
    ultimately show ?thesis using assms(1) by (simp add: session_inv_def inv_conf_def conf_def fsts)
  next
    case False
    then show ?thesis using assms(1) by (simp add: s' upd_stream_def list_update_beyond)
  qed
qed

lemma inbound_kinds:
  assumes "inbound_step eng fin r now wres s p = Some (l, s', p')"
  shows "quietly s s' \<or> (\<exists>b. grow_window now r s = (s', b))"
proof (cases "ip_pc p")
  case InGrow
  with assms show ?thesis by (auto simp: inbound_step_def in_grow_def split: prod.splits option.splits)
next
  case InFlush
  with assms show ?thesis by (auto simp: inbound_step_def split: prod.splits dest: quietly_flush)
next
  case (InGrowSend b)
  with assms show ?thesis by (auto simp: inbound_step_def in_grow_def split: send_result.splits dest: quietly_sent)
qed (use assms in \<open>auto simp: inbound_step_def split: prod.splits dest: quietly_recv quietly_credit\<close>)

lemma open_begin_inv:
  assumes inv: "session_inv s" and cl: "is_client s" and ok: "open_begin E tg req now s = Ok (r, fr, s')"
  shows "session_inv s'"
proof -
  let ?algo = "negotiate (codecs E) req (peer_supported s)"
  have room: "length (streams s) < max_streams s"
    and s': "s' = register (next_id s) (length (heap s)) (upd_stream (length (heap s)) (\<lambda>si. si\<lparr>ack := True\<rparr>)
        (snd (build_stream (next_id s) ?algo (parse_level req) now (s\<lparr>next_id := next_id s + 2\<rparr>))))"
    using ok by (auto simp: open_begin_def Let_def build_stream_def split: if_splits)
  show ?thesis
  proof (rule session_inv_register [OF inv room])
    show "ids_ok (is_client s) (next_id s + 2) (map fst (cells s) @ [next_id s])"
      using inv cl by (simp add: session_inv_def inv_conf_def conf_def ids_ok_snoc_client)
    show "queues_ok s'" using inv
      by (simp add: s' session_inv_def queues_ok_def register_def upd_stream_def build_stream_def new_inner_def)
  qed (simp_all add: s' conf_def cells_def register_def upd_stream_def build_stream_def new_inner_def)
qed

lemma open_finish_quietly: "open_finish r ev s = (res, s') \<Longrightarrow> quietly s s'"
proof -
  have "quietly s (drop_stream r (unregister sid s))" for sid
    using quietlyI [OF quiet_comp [OF quiet_unregister drop_op.quiet_op_axioms]] .
  moreover assume "open_finish r ev s = (res, s')"
  ultimately show ?thesis by (auto simp: open_finish_def Let_def split: ack_event.splits sum.splits)
qed

lemma keepalive_quietly: "keepalive_tick i now nonce s = KaExit s' \<Longrightarrow> quietly s s'"
proof -
  have "quietly s (teardown (snd (send_control FT_GOAWAY 0 p (s\<lparr>closed := True\<rparr>))))" for p
    using quietlyI [OF quiet_comp [OF quiet_comp [OF quiet_flags(1) quiet_control] teardown_op.quiet_op_axioms]] .
  moreover assume "keepalive_tick i now nonce s = KaExit s'"
  ultimately show ?thesis by (auto simp: keepalive_tick_def Let_def split: if_splits)
qed

lemma quietly_pings: "quietly s (s\<lparr>pings := x\<rparr>)"
  by (rule quietlyI [OF quiet_flags(3)])

lemma parked_quietly: "deliver todo s = Some (s', todo') \<Longrightarrow> quietly s s'"
proof (cases todo)
  case (Cons x rest)
  moreover assume "deliver todo s = Some (s', todo')"
  ultimately have "s' = s \<or> s' = try_inbound (fst x) (snd x) s"
    by (cases x) (auto simp: try_inbound_def split: if_splits)
  then show ?thesis using quietlyI [OF inbound_op.quiet_op_axioms] by auto
qed simp

lemmas quietly_ops = quietlyI [OF reader_exit_op.quiet_op_axioms]
  quietlyI [OF quiet_comp [OF quiet_control reader_exit_op.quiet_op_axioms]]
  quietlyI [OF accept_op.quiet_op_axioms] quietlyI [OF reject_op.quiet_op_axioms] quietlyI [OF drop_op.quiet_op_axioms]
  quietlyI [OF close_op.quiet_op_axioms] quietlyI [OF credit_tick_op.quiet_op_axioms]

text \<open>The kinds of steps, as far as the invariant is concerned.\<close>

lemma mux_step_kinds:
  assumes "mux_step E s s'"
  obtains (silent) "quietly s s'"
  | (hello) p todo where "handle_hello E p s = Ok (s', todo)"
  | (peer_open) now sid p todo where "handle_open E now sid p s = Ok (s', todo)"
  | (own_open) tg req now r fr where "is_client s" "open_begin E tg req now s = Ok (r, fr, s')"
  | (grown) now r b where "grow_window now r s = (s', b)"
  using assms
proof cases
  case (frame now t fh p todo)
  then show thesis by (cases rule: handle_frame_cases) (auto intro: silent hello peer_open)
next
  case (inbound deng fin r now wres p l p')
  then show thesis using inbound_kinds silent grown by blast
next
  case (pinging nonce fr)
  then show thesis using silent quietly_pings by (auto simp: ping_begin_def)
next
  case (ping_end nonce t now res)
  then show thesis using silent quietly_pings by (auto simp: ping_finish_def split: option.splits)
next
  case keepalive_ping
  then show thesis using silent quietly_pings by (auto simp: keepalive_sent_def)
qed (auto intro: silent own_open quietly_ops parked_quietly open_finish_quietly quietly_sent keepalive_quietly
      quietly_outbound quietly_writer)

lemma mux_step_inv: "mux_step E s s' \<Longrightarrow> session_inv s \<Longrightarrow> session_inv s'"
  by (erule mux_step_kinds)
    (auto intro: quietly_inv handle_hello_inv handle_open_inv open_begin_inv grow_window_inv)

lemma reachable_inv: "reachable E opts h s \<Longrightarrow> session_inv s"
  by (induction rule: reachable.induct) (auto intro: start_session_inv mux_step_inv)

section \<open>What holds in every reachable state\<close>


lemma mux_step_client: "mux_step E s s' \<Longrightarrow> is_client s' = is_client s"
proof (erule mux_step_kinds)
  assume "quietly s s'"
  then show ?thesis by (auto simp: quietly_def dest!: quiet_op.conf_kept [where s = s] simp: conf_def)
qed (auto simp: handle_hello_def handle_open_def open_begin_def grow_window_def Let_def build_stream_def register_def
      open_denied_def send_control_def try_send_def upd_stream_def split: if_splits option.splits)

lemma reachable_client: "reachable E opts h s \<Longrightarrow> is_client s = o_is_client opts"
proof (induction rule: reachable.induct)
  case (initial now)
  then show ?case by (simp add: start_session_def try_send_def Let_def)
qed (simp add: mux_step_client)

text \<open>
  Stream ids.  A client gives the ids 1, 3, 5, ... to the streams it creates, in this order
  and never an id twice while it creates fewer than 2147483648 streams; on a server every stream
  has an odd id.  So the two ends never create the same id.
\<close>

theorem stream_ids:
  assumes "reachable E opts h s"
  shows "if o_is_client opts
    then (\<forall>i < length (heap s). si_id (heap s ! i) = word_of_nat (1 + 2 * i)) \<and>
      (length (heap s) \<le> 2147483648 \<longrightarrow> distinct (map si_id (heap s)))
    else \<forall>si \<in> set (heap s). odd (unat (si_id si))"
proof -
  have ids: "ids_ok (o_is_client opts) (next_id s) (map si_id (heap s))"
    using reachable_inv [OF assms] reachable_client [OF assms]
    by (simp add: session_inv_def inv_conf_def conf_def cells_def comp_def)
  show ?thesis
  proof (cases "o_is_client opts")
    case True
    then have m: "map si_id (heap s) = map (\<lambda>i. word_of_nat (1 + 2 * i)) [0..<length (heap s)]"
      using ids by (simp add: ids_ok_def)
    have nth: "si_id (heap s ! i) = word_of_nat (1 + 2 * i)" if "i < length (heap s)" for i
      using arg_cong [OF m, of "\<lambda>l. l ! i"] that by simp
    have "distinct (map si_id (heap s))" if "length (heap s) \<le> 2147483648"
    proof -
      have "unat (word_of_nat (1 + 2 * i) :: u32) = 1 + 2 * i" if "i < length (heap s)" for i
      proof -
        have "1 + 2 * i < 2 ^ 32" using that \<open>length (heap s) \<le> 2147483648\<close> by simp
        then show ?thesis unfolding unat_of_nat by (simp only: len_num1 mod_less len_bit0) simp
      qed
      then have "inj_on (\<lambda>i. word_of_nat (1 + 2 * i) :: u32) {0..<length (heap s)}"
        by (intro inj_onI) (metis (no_types, lifting) atLeastLessThan_iff add_left_cancel mult_left_cancel zero_neq_numeral)
      then show ?thesis by (simp add: m distinct_map)
    qed
    with nth True show ?thesis by simp
  next
    case False
    with ids show ?thesis by (simp add: ids_ok_def list_all_iff)
  qed
qed

section \<open>Witnesses\<close>

text \<open>A client that has received HELLO and opens two streams.\<close>

definition demo_hello :: shared where
  "demo_hello = (case handle_hello demo_mux_env [] (start_session demo_mux_env (demo_opts True) False 0) of
     Inr (s, _) \<Rightarrow> s | Inl _ \<Rightarrow> start_session demo_mux_env (demo_opts True) False 0)"

definition demo_open :: "shared \<Rightarrow> shared" where
  "demo_open s = (case open_begin demo_mux_env \<lparr>t_host = None, t_port = 80, t_unix = None, t_hint = ''raw''\<rparr> ''none'' 0 s of
     Inr (_, _, s') \<Rightarrow> s' | Inl _ \<Rightarrow> s)"

definition demo_client :: shared where
  "demo_client = demo_open (demo_open demo_hello)"

lemma demo_open_reachable: "reachable demo_mux_env opts h s \<Longrightarrow> is_client s \<Longrightarrow> reachable demo_mux_env opts h (demo_open s)"
  by (auto simp: demo_open_def split: sum.splits intro: reachable.step mux_step.open_new)

lemma demo_hello_reachable: "reachable demo_mux_env (demo_opts True) False demo_hello"
proof -
  let ?s = "start_session demo_mux_env (demo_opts True) False 0"
  have init: "reachable demo_mux_env (demo_opts True) False ?s" by (rule reachable.initial)
  have "mux_step demo_mux_env ?s s'" if "handle_hello demo_mux_env [] ?s = Ok (s', todo)" for s' todo
    by (rule mux_step.frame [where fh = "\<lparr>frame_type = FT_HELLO, fh_flags = 0, stream_id = 0, fh_length = 0\<rparr>" and p = "[]"
          and todo = todo]) (use that in \<open>simp add: handle_frame_def\<close>)
  with init show ?thesis by (auto simp: demo_hello_def split: sum.splits intro: reachable.step)
qed

lemma demo_client_reachable: "reachable demo_mux_env (demo_opts True) False demo_client"
  unfolding demo_client_def
  by (intro demo_open_reachable demo_hello_reachable)
    (simp_all add: reachable_client [OF demo_hello_reachable]
      reachable_client [OF demo_open_reachable [OF demo_hello_reachable]] demo_opts_def)

lemma demo_hello_facts:
  "streams demo_hello = []" "heap demo_hello = []" "next_id demo_hello = 1" "\<not> closed demo_hello" "max_streams demo_hello = 8"
  by (simp_all add: demo_hello_def handle_hello_def start_session_def demo_opts_def try_send_def Let_def
      demo_mux_env_def demo_json_def json_index_def PROTOCOL_VERSION_def)

lemma demo_open_facts:
  assumes "\<not> closed s" and "length (streams s) < max_streams s"
  shows "streams (demo_open s) = AList.update (next_id s) (length (heap s)) (streams s)"
    "map si_id (heap (demo_open s)) = map si_id (heap s) @ [next_id s]" "next_id (demo_open s) = next_id s + 2"
    "\<not> closed (demo_open s)" "max_streams (demo_open s) = max_streams s" "length (heap (demo_open s)) = Suc (length (heap s))"
  using assms
  by (simp_all add: demo_open_def open_begin_def Let_def build_stream_def register_def upd_stream_def new_inner_def)

lemma demo_client_ids: "map si_id (heap demo_client) = [1, 3]" "streams demo_client = [(1, 0), (3, 1)]"
  by (simp_all add: demo_client_def demo_open_facts demo_hello_facts)


theorem stream_ids_witness:
  "reachable demo_mux_env (demo_opts True) False demo_client \<and> map si_id (heap demo_client) = [1, 3] \<and>
   distinct (map si_id (heap demo_client))"
proof -
  have "length (heap demo_client) = 2" using arg_cong [OF demo_client_ids(1), of length] by simp
  with stream_ids [OF demo_client_reachable] demo_client_reachable demo_client_ids show ?thesis
    by (simp add: demo_opts_def)
qed

section \<open>Two observations\<close>

text \<open>
  Tear-down resets the flag that HELLO handling looks at, and neither the reader nor the dispatch
  looks at \<open>closed\<close>: a peer that sends HELLO again after the session was closed is accepted, and its
  OPEN frames reach the stream handler of the closed session.
\<close>

lemma hello_after_close:
  assumes "json_parse E p = Some hello" and "as_u64 (json_index hello ''v'') = Some 1" and "frame_type fh = FT_HELLO"
  shows "\<exists>s'. handle_frame E now t fh p (teardown s) = Ok (s', []) \<and> closed s' \<and> ready s'"
  using assms by (simp add: handle_frame_def handle_hello_def PROTOCOL_VERSION_def)

lemma open_after_close:
  assumes "ready s" and "\<not> is_client s" and "on_stream s" and "json_parse E p = Some v" and "streams s = []"
    and "0 < max_streams s" and "frame_type fh = FT_OPEN" and "odd (unat (stream_id fh))"
  shows "\<exists>s' t. handle_frame E now t' fh p (s\<lparr>closed := True\<rparr>) = Ok (s', []) \<and> accepted s' = accepted s @ [(length (heap s), t)]"
proof -
  have "stream_id fh \<noteq> 0" using assms(8) by auto
  with assms show ?thesis
    by (simp add: handle_frame_def handle_open_def FT_defs Let_def build_stream_def register_def)
qed

text \<open>
  Tear-down leaves the one-shot sender of a pending \<open>open_stream\<close> in its slot, so the opener waits
  for its timeout instead of seeing the channel closed.
\<close>

lemma teardown_keeps_ack: "map ack (heap (teardown s)) = map ack (heap s) \<and> map ack_result (heap (teardown s)) = map ack_result (heap s)"
proof -
  have one: "map ack (heap (try_inbound r m s)) = map ack (heap s) \<and> map ack_result (heap (try_inbound r m s)) = map ack_result (heap s)" for r m s
    by (cases "r < length (heap s)") (auto simp: try_inbound_def upd_stream_def map_update list_update_beyond list_update_same_conv)
  have "map ack (heap (fold (\<lambda>r. try_inbound r Abort) rs s)) = map ack (heap s) \<and>
      map ack_result (heap (fold (\<lambda>r. try_inbound r Abort) rs s)) = map ack_result (heap s)" for rs s
    by (induction rs arbitrary: s) (simp_all add: one)
  then show ?thesis by (simp add: teardown_def Let_def)
qed

end
