(* ===== verification/MuxLink.thy ===== *)
theory MuxLink
  imports MuxSession
begin

text \<open>
  The two ends of a stream put together: the frames an outbound pump emits, the messages the
  peer's dispatch makes of them, and what its inbound pump hands on.  The compression engines are
  those of third parties; what is used of them is \<open>codec_law\<close>.
\<close>

section \<open>The law of a pair of engines\<close>

fun comp_feed :: "comp_engine \<Rightarrow> comp_inner \<Rightarrow> bytes list \<Rightarrow> bytes list \<Rightarrow> bytes list option" where
  "comp_feed eng c h [] = Some []"
| "comp_feed eng c h (d # ds) =
     (case push_hist eng c h d of
        Inl _ \<Rightarrow> None
      | Inr (w, h') \<Rightarrow> map_option ((#) w) (comp_feed eng c h' ds))"

fun dec_feed :: "dec_engine \<Rightarrow> dec_state \<Rightarrow> bytes list \<Rightarrow> (bytes list \<times> dec_state) option" where
  "dec_feed deng ds [] = Some ([], ds)"
| "dec_feed deng ds (w # ws) =
     (case dec_push deng ds w of
        Inl _ \<Rightarrow> None
      | Inr (x, ds') \<Rightarrow> (case dec_feed deng ds' ws of None \<Rightarrow> None | Some (xs, d) \<Rightarrow> Some (x # xs, d)))"

text \<open>
  Compression with a flush after every chunk: however the compressed stream is cut into pieces, the
  decompressor accepts every prefix of it, never gives out anything but a prefix of the input, and
  has given out all of the input once it has been fed everything and is finished.
\<close>

definition codec_law :: "comp_engine \<Rightarrow> dec_engine \<Rightarrow> dec_finisher \<Rightarrow> comp_inner \<Rightarrow> dec_inner \<Rightarrow> bool" where
  "codec_law eng deng fin c d \<longleftrightarrow>
     (\<forall>chunks ws pieces. comp_feed eng c [] chunks = Some ws \<and> prefix (concat pieces) (concat ws) \<longrightarrow>
        (\<exists>xs ds. dec_feed deng (d, []) pieces = Some (xs, ds) \<and> prefix (concat xs) (concat chunks) \<and>
           (concat pieces = concat ws \<longrightarrow> concat xs @ tail_of fin ds = concat chunks)))"

lemma codec_law_tail: "codec_law eng deng fin c d \<Longrightarrow> tail_of fin (d, []) = []"
  unfolding codec_law_def by (drule spec [of _ "[]"], drule spec [of _ "[]"], drule spec [of _ "[]"]) simp

text \<open>Without compression the law holds whatever the engines are.\<close>

lemma codec_law_none: "codec_law eng deng fin CompNone DecNone"
proof -
  have p: "push_hist eng CompNone h d = Ok (d, h)" for h d by (simp add: push_hist_def compressor_push_def)
  have feed: "comp_feed eng CompNone h ds = Some ds" for h ds by (induction ds arbitrary: h) (simp_all add: p)
  have q: "dec_push deng (DecNone, h) w = Ok (w, (DecNone, h))" for h w by (simp add: dec_push_def decompressor_push_def)
  have fed: "dec_feed deng (DecNone, h) ws = Some (ws, (DecNone, h))" for h ws by (induction ws) (simp_all add: q)
  have t: "tail_of fin (DecNone, h) = []" for h by (simp add: tail_of_def dec_end_def decompressor_finish_def)
  show ?thesis by (simp add: codec_law_def feed fed t)
qed

section \<open>Wire form\<close>

text \<open>A stream is either sent raw as a whole or compressed as a whole.\<close>

lemma wires_bypassed:
  "cs_bypassed c \<Longrightarrow> cs_sniffed c \<Longrightarrow> \<exists>c'. wires E eng algo c ds = (map (Pair False) ds, Some c')"
proof (induction ds)
  case (Cons d ds)
  then obtain c' where "wires E eng algo c ds = (map (Pair False) ds, Some c')" by blast
  moreover have "chunk_wire E eng algo d c = Some (False, d, c)"
    using Cons.prems by (simp add: chunk_wire_def sniff_chunk_def Let_def)
  ultimately show ?case by simp
qed simp

lemma wires_compressed:
  "cs_sniffed c \<Longrightarrow> \<not> cs_bypassed c \<Longrightarrow> algo \<noteq> ALGO_NONE \<Longrightarrow>
   \<exists>us. fst (wires E eng algo c ds) = map (Pair True) us \<and>
     comp_feed eng (cs_comp c) (cs_hist c) (take (length us) ds) = Some us \<and>
     (snd (wires E eng algo c ds) \<noteq> None \<longrightarrow> length us = length ds)"
proof (induction ds arbitrary: c)
  case (Cons d ds)
  show ?case
  proof (cases "push_hist eng (cs_comp c) (cs_hist c) d")
    case (Inl e)
    then have "chunk_wire E eng algo d c = None"
      using Cons.prems by (simp add: chunk_wire_def sniff_chunk_def Let_def)
    then show ?thesis by (auto intro!: exI [of _ "[]"])
  next
    case (Inr wh)
    obtain w h where wh: "wh = (w, h)" by fastforce
    let ?c = "c\<lparr>cs_hist := h\<rparr>"
    have cw: "chunk_wire E eng algo d c = Some (True, w, ?c)"
      using Cons.prems Inr wh by (simp add: chunk_wire_def sniff_chunk_def Let_def)
    obtain us where us: "fst (wires E eng algo ?c ds) = map (Pair True) us"
      "comp_feed eng (cs_comp c) h (take (length us) ds) = Some us"
      "snd (wires E eng algo ?c ds) \<noteq> None \<longrightarrow> length us = length ds"
      using Cons.IH [of ?c] Cons.prems by auto
    then show ?thesis
      using Inr wh cw by (auto intro!: exI [of _ "w # us"] split: prod.splits)
  qed
qed simp

lemma wires_kinds:
  obtains (raw) "fst (wires E eng algo (comp_init E si) ds) = map (Pair False) ds"
  | (packed) us where "fst (wires E eng algo (comp_init E si) ds) = map (Pair True) us"
      "comp_feed eng (cs_comp (comp_init E si)) [] (take (length us) ds) = Some us"
      "snd (wires E eng algo (comp_init E si) ds) \<noteq> None \<longrightarrow> length us = length ds"
proof (cases "algo = ALGO_NONE")
  case True
  then show thesis using wires_none [of E eng "comp_init E si" ds] raw by auto
next
  case False
  show thesis
  proof (cases ds)
    case Nil
    then show thesis using raw by simp
  next
    case (Cons d ds')
    let ?c = "comp_init E si"
    let ?c1 = "?c\<lparr>cs_sniffed := True\<rparr>"
    have c: "cs_hist ?c = []" "\<not> cs_sniffed ?c" "\<not> cs_bypassed ?c" by (simp_all add: comp_init_def)
    show thesis
    proof (cases "looks_precompressed d")
      case True
      let ?b = "?c1\<lparr>cs_comp := compressor_new (codecs E) ALGO_NONE 0, cs_hist := [], cs_bypassed := True\<rparr>"
      have "chunk_wire E eng algo d ?c = Some (False, d, ?b)"
        using True False c by (simp add: chunk_wire_def sniff_chunk_def Let_def)
      moreover obtain c' where "wires E eng algo ?b ds' = (map (Pair False) ds', Some c')"
        using wires_bypassed [of ?b E eng algo ds'] by auto
      ultimately show thesis using raw Cons by simp
    next
      case notpre: False
      have "chunk_wire E eng algo d ?c = chunk_wire E eng algo d ?c1"
        using notpre False c by (simp add: chunk_wire_def sniff_chunk_def Let_def)
      then have "wires E eng algo ?c ds = wires E eng algo ?c1 ds" by (simp add: Cons)
      then show thesis using wires_compressed [of ?c1 algo E eng ds] False c packed by auto
    qed
  qed
qed

section \<open>From frames to messages\<close>

definition data_msgs :: "(bool \<times> bytes) list \<Rightarrow> inbound list" where
  "data_msgs data = map (\<lambda>(z, w). Data w z) data"

text \<open>Dispatch turns an emitted DATA frame into that message, and FIN into the end of the stream.\<close>

lemma dispatch_emitted:
  assumes "map_of (streams s) sid = Some r"
  shows "w \<noteq> [] \<Longrightarrow> handle_data (data_flags z) sid w s = Ok (s, [(r, Data w z)])"
    and "handle_data FLAG_FIN sid [] s = Ok (s, [(r, Eof)])"
  using assms by (simp_all add: handle_data_def data_flags_def FLAG_COMPRESSED_def FLAG_FIN_def)

text \<open>
  What has been taken at the receiving end, given what was emitted: the messages in order, up to
  some point, possibly ended by an \<open>Abort\<close> (which the session itself can add at any time) or, after all
  of them, by the end of stream that FIN stands for.
\<close>

definition link_ok :: "out_log \<Rightarrow> inbound list \<Rightarrow> bool" where
  "link_ok lg taken \<longleftrightarrow>
     (\<exists>k t. taken = take k (data_msgs (lg_data lg)) @ t \<and>
        (t = [] \<or> t = [Abort] \<or> (t = [Eof] \<and> length (lg_data lg) \<le> k \<and> EmitFin \<in> set (lg_end lg))))"

lemma decoded_raw:
  "list_all (\<lambda>(z, w). z \<longrightarrow> w = []) data \<Longrightarrow>
   decoded deng fin ds (data_msgs data) = (concat (map snd data), Some ds)"
proof (induction data)
  case (Cons a data)
  obtain z w where a: "a = (z, w)" by fastforce
  have "plain_of deng w z ds = Some (w, ds)"
    using Cons.prems by (cases ds) (auto simp: a plain_of_def dec_push_def decompressor_push_def)
  with Cons show ?case by (simp add: data_msgs_def a)
qed (simp add: data_msgs_def)

lemma decoded_packed:
  "list_all (\<lambda>(z, w). z \<or> w = []) data \<Longrightarrow> dec_feed deng ds (map snd data) = Some (xs, ds') \<Longrightarrow>
   prefix (fst (decoded deng fin ds (data_msgs data))) (concat xs) \<and>
   (\<forall>e. snd (decoded deng fin ds (data_msgs data)) = Some e \<longrightarrow> fst (decoded deng fin ds (data_msgs data)) = concat xs \<and> e = ds')"
proof (induction data arbitrary: ds xs)
  case (Cons a data)
  obtain z w where a: "a = (z, w)" by fastforce
  obtain x d1 where x: "dec_push deng ds w = Ok (x, d1)"
    using Cons.prems(2) by (auto simp: a split: sum.splits)
  then obtain ys where ys: "dec_feed deng d1 (map snd data) = Some (ys, ds')" "xs = x # ys"
    using Cons.prems(2) by (auto simp: a split: option.splits)
  note IH = Cons.IH [OF _ ys(1)]
  have plain: "plain_of deng w z ds = Some (x, d1) \<or> plain_of deng w z ds = None"
    using Cons.prems(1) x by (cases ds; cases z) (auto simp: a plain_of_def dec_push_def decompressor_push_def)
  show ?case
  proof (cases "plain_of deng w z ds")
    case None
    then show ?thesis by (simp add: data_msgs_def a)
  next
    case (Some y)
    then have "y = (x, d1)" using plain by simp
    with Some IH Cons.prems(1) ys(2) show ?thesis
      by (cases "decoded deng fin d1 (data_msgs data)") (auto simp: data_msgs_def a)
  qed
qed (simp add: data_msgs_def)

lemma decoded_after:
  "t \<in> {[], [Abort], [Eof]} \<Longrightarrow>
   decoded deng fin ds (ms @ t) =
     (case decoded deng fin ds ms of
        (x, None) \<Rightarrow> (x, None)
      | (x, Some d) \<Rightarrow> (x @ (if t = [Eof] then tail_of fin d else []), if t = [] then Some d else None))"
  by (cases "t = []") (auto simp: decoded_snoc split: option.splits prod.splits)

text \<open>Whatever was taken before the last message had been decoded successfully.\<close>

lemma in_run_decoded_before:
  assumes "in_run E eng fin r si lg s p" and "tail_bounded fin"
  shows "li_taken lg = [] \<or> snd (decoded eng fin (decompressor_new (codecs E) (compression si), []) (butlast (li_taken lg))) \<noteq> None"
  using assms(1)
proof (induction rule: in_run.induct)
  case (pump lg s p now wres l s' p')
  let ?d = "(decompressor_new (codecs E) (compression si), [])"
  have c: "content_ok (decoded eng fin ?d (li_taken lg)) lg p" using in_run_inv [OF pump(1) assms(2)] by blast
  show ?case
  proof (cases "ip_pc p = InRecv \<and> inbound_q (heap s ! r) \<noteq> []")
    case True
    then have "butlast (li_taken lg @ taken_msg r s p) = li_taken lg"
      by (cases "inbound_q (heap s ! r)") (auto simp: taken_msg_def)
    with True c show ?thesis by (simp add: log_in_fields content_ok_def)
  next
    case False
    then have "taken_msg r s p = []" by (auto simp: taken_msg_def)
    with pump show ?thesis by (simp add: log_in_fields)
  qed
qed auto

lemma tagged_flags:
  "prefix (tagged data) (map (Pair f) bs) \<Longrightarrow>
   list_all (\<lambda>(z, w). z = f \<or> w = []) data \<and> prefix (concat (map snd data)) bs"
proof -
  assume p: "prefix (tagged data) (map (Pair f) bs)"
  have "z = f \<or> w = []" if zw: "(z, w) \<in> set data" for z w
  proof (cases w)
    case (Cons b w')
    then have "(z, b) \<in> set (tagged data)" using zw by (force simp: tagged_def)
    then show ?thesis using set_mono_prefix [OF p] by auto
  qed simp
  moreover have "prefix (map snd (tagged data)) (map snd (map (Pair f) bs))" using p by (rule map_mono_prefix)
  then have "prefix (concat (map snd data)) bs" by (simp add: map_snd_tagged comp_def)
  ultimately show ?thesis by (auto simp: list_all_iff)
qed

lemma take_pieces: "prefix (concat (map snd (take k data))) (concat (map snd data))"
proof -
  have "concat (map snd data) = concat (map snd (take k data)) @ concat (map snd (drop k data))"
    by (simp only: concat_append [symmetric] map_append [symmetric] append_take_drop_id)
  then show ?thesis by simp
qed

lemma prefix_concat_take: "prefix (concat (take k xss)) (concat xss)"
proof -
  have "concat xss = concat (take k xss) @ concat (drop k xss)"
    by (simp only: concat_append [symmetric] append_take_drop_id)
  then show ?thesis by simp
qed

section \<open>The decoded messages are the chunks written\<close>

lemma emitted_decoded:
  assumes run: "out_run E eng r si lg s p" "lg_window lg < 2 ^ 63"
    and law: "codec_law eng deng fin (cs_comp (comp_init E si)) d"
  shows "prefix (fst (decoded deng fin (d, []) (take k (data_msgs (lg_data lg))))) (concat (lg_reads lg)) \<and>
    (length (lg_data lg) \<le> k \<and> EmitFin \<in> set (lg_end lg) \<longrightarrow>
      (\<forall>e. snd (decoded deng fin (d, []) (take k (data_msgs (lg_data lg)))) = Some e \<longrightarrow>
        fst (decoded deng fin (d, []) (take k (data_msgs (lg_data lg)))) @ tail_of fin e = concat (lg_reads lg)))"
proof -
  let ?W = "wires E eng (compression si) (comp_init E si) (lg_reads lg)" and ?data = "take k (lg_data lg)"
  have c: "content_inv ?W lg p" using out_run_inv [OF run] by (simp add: out_inv_def)
  have pre: "prefix (tagged (lg_data lg)) (tagged (fst ?W))"
    and fin: "EmitFin \<in> set (lg_end lg) \<Longrightarrow> snd ?W \<noteq> None \<and> tagged (lg_data lg) = tagged (fst ?W)"
    using c by (auto simp: content_inv_def split: if_splits intro: prefixI [OF sym])
  have msgs: "take k (data_msgs (lg_data lg)) = data_msgs ?data" by (simp add: data_msgs_def take_map)
  have whole: "length (lg_data lg) \<le> k \<Longrightarrow> ?data = lg_data lg" by simp
  show ?thesis
  proof (cases rule: wires_kinds [of E eng "compression si" si "lg_reads lg"])
    case raw
    then have f: "list_all (\<lambda>(z, w). z = False \<or> w = []) (lg_data lg)"
      and b: "prefix (concat (map snd (lg_data lg))) (concat (lg_reads lg))"
      using tagged_flags [of "lg_data lg" False "concat (lg_reads lg)"] pre by (auto simp: tagged_pairs)
    have "list_all (\<lambda>(z, w). z \<longrightarrow> w = []) ?data" using f by (auto simp: list_all_iff dest: in_set_takeD)
    then have D: "decoded deng fin (d, []) (data_msgs ?data) = (concat (map snd ?data), Some (d, []))" by (rule decoded_raw)
    have "concat (map snd (lg_data lg)) = concat (lg_reads lg)" if "EmitFin \<in> set (lg_end lg)"
      using fin [OF that] raw map_snd_tagged [of "lg_data lg"] by (simp add: tagged_pairs comp_def)
    then show ?thesis
      using b take_pieces [of k "lg_data lg"] whole codec_law_tail [OF law] unfolding msgs D by (auto dest: prefix_order.trans)
  next
    case (packed us)
    have f: "list_all (\<lambda>(z, w). z = True \<or> w = []) (lg_data lg)"
      and b: "prefix (concat (map snd (lg_data lg))) (concat us)"
      using tagged_flags [of "lg_data lg" True "concat us"] pre packed(1) by (auto simp: tagged_pairs)
    have f': "list_all (\<lambda>(z, w). z \<or> w = []) ?data" using f by (auto simp: list_all_iff dest: in_set_takeD)
    have "prefix (concat (map snd ?data)) (concat us)" using b take_pieces [of k "lg_data lg"] by (rule prefix_order.trans [rotated])
    then obtain xs ds where x: "dec_feed deng (d, []) (map snd ?data) = Some (xs, ds)"
      and px: "prefix (concat xs) (concat (take (length us) (lg_reads lg)))"
      and full: "concat (map snd ?data) = concat us \<longrightarrow> concat xs @ tail_of fin ds = concat (take (length us) (lg_reads lg))"
      using law packed(2) unfolding codec_law_def by metis
    note D = decoded_packed [OF f' x, of fin]
    have "prefix (fst (decoded deng fin (d, []) (data_msgs ?data))) (concat (lg_reads lg))"
      using D px prefix_concat_take [of "length us" "lg_reads lg"] by (blast intro: prefix_order.trans)
    moreover have "concat (map snd (lg_data lg)) = concat us \<and> length us = length (lg_reads lg)" if "EmitFin \<in> set (lg_end lg)"
      using fin [OF that] packed(1,3) map_snd_tagged [of "lg_data lg"] by (simp add: tagged_pairs comp_def)
    ultimately show ?thesis using D full whole unfolding msgs by auto
  qed
qed

lemma link_decoded:
  assumes "out_run E eng r si lg s p" and "lg_window lg < 2 ^ 63"
    and "codec_law eng deng fin (cs_comp (comp_init E si)) d" and "link_ok lg taken"
    and "taken = [] \<or> snd (decoded deng fin (d, []) (butlast taken)) \<noteq> None"
  shows "prefix (fst (decoded deng fin (d, []) taken)) (concat (lg_reads lg)) \<and>
    (Eof \<in> set taken \<longrightarrow> fst (decoded deng fin (d, []) taken) = concat (lg_reads lg))"
proof -
  obtain k t where taken: "taken = take k (data_msgs (lg_data lg)) @ t"
    and t: "t = [] \<or> t = [Abort] \<or> (t = [Eof] \<and> length (lg_data lg) \<le> k \<and> EmitFin \<in> set (lg_end lg))"
    using assms(4) by (auto simp: link_ok_def)
  let ?D = "decoded deng fin (d, []) (take k (data_msgs (lg_data lg)))"
  note E = emitted_decoded [OF assms(1-3), of k]
  have after: "decoded deng fin (d, []) taken =
      (case ?D of (x, None) \<Rightarrow> (x, None)
       | (x, Some d') \<Rightarrow> (x @ (if t = [Eof] then tail_of fin d' else []), if t = [] then Some d' else None))"
    unfolding taken by (rule decoded_after) (use t in blast)
  have noeof: "Eof \<notin> set (take k (data_msgs (lg_data lg)))" by (auto simp: data_msgs_def dest!: in_set_takeD)
  show ?thesis
  proof (cases "t = [Eof]")
    case True
    then obtain e where e: "snd ?D = Some e" using assms(5) by (auto simp: taken)
    then have "fst (decoded deng fin (d, []) taken) = fst ?D @ tail_of fin e"
      using after True by (cases ?D) simp
    then show ?thesis using E t True e by auto
  next
    case False
    then have "Eof \<notin> set taken" using t noeof by (auto simp: taken)
    moreover have "fst (decoded deng fin (d, []) taken) = fst ?D" using after False by (cases ?D) (auto split: option.splits)
    ultimately show ?thesis using E by auto
  qed
qed

end
