(* ===== verification/Keys.thy ===== *)
theory Keys
  imports RustStr
begin

text \<open>
  Identities: \<open>crates/krymux/src/keys.rs\<close>.  The DER walker that cuts the public key out of a
  certificate, and the canonical fingerprint of a key.  SHA-256, hex encoding and the PEM files are
  parameters; slicing out of range is the value \<open>Panic\<close>.

  Lemmas: the walker reads back DER encodings of any length the format allows; on a certificate
  with the layout of RFC 5280 the extraction returns exactly the key element; it panics exactly when
  the first element announces more bytes than there are; fingerprints have one canonical form.
\<close>

section \<open>Outcomes\<close>

datatype 'a outcome = Ret 'a | Fail string | Panic

section \<open>DER\<close>

definition ED25519_SPKI_PREFIX :: bytes where
  "ED25519_SPKI_PREFIX = [0x30, 0x2a, 0x30, 0x05, 0x06, 0x03, 0x2b, 0x65, 0x70, 0x03, 0x21, 0x00]"

definition spki_from_ed25519_raw :: "bytes \<Rightarrow> bytes" where
  "spki_from_ed25519_raw raw = ED25519_SPKI_PREFIX @ raw"

definition fingerprint_of_spki :: "(bytes \<Rightarrow> bytes) \<Rightarrow> (bytes \<Rightarrow> string) \<Rightarrow> bytes \<Rightarrow> string" where
  "fingerprint_of_spki sha256 hex spki = ''sha256:'' @ hex (sha256 spki)"

text \<open>Tag, content length and header length of the element at \<open>off\<close>.\<close>

definition tlv_header :: "bytes \<Rightarrow> nat \<Rightarrow> (byte \<times> nat \<times> nat) option" where
  "tlv_header buf off =
     (if off + 2 > length buf then None
      else
        let tag = buf ! off; first = buf ! (off + 1); p = off + 2 in
        if first AND 0x80 = 0 then Some (tag, unat first, p - off)
        else let n = unat (first AND 0x7f) in
          if n = 0 \<or> n > 4 \<or> p + n > length buf then None
          else Some (tag, be_dec (take n (drop p buf)), p + n - off))"

lemma tlv_header_len: "tlv_header buf off = Some (t, c, h) \<Longrightarrow> 2 \<le> h"
  by (auto simp: tlv_header_def Let_def split: if_splits)

function der_children :: "bytes \<Rightarrow> nat \<Rightarrow> nat \<Rightarrow> (nat \<times> nat) list" where
  "der_children buf off content_end =
     (if off < content_end then
        (case tlv_header buf off of
           None \<Rightarrow> []
         | Some (_, content_len, header_len) \<Rightarrow>
             let total = header_len + content_len in
             if off + total > content_end then []
             else (off, total) # der_children buf (off + total) content_end)
      else [])"
  by auto
termination
  by (relation "measure (\<lambda>(b, off, e). e - off)") (auto dest!: tlv_header_len)

declare der_children.simps [simp del]

definition byte_range :: "bytes \<Rightarrow> nat \<Rightarrow> nat \<Rightarrow> bytes option" where
  "byte_range buf a b = (if a \<le> b \<and> b \<le> length buf then Some (take (b - a) (drop a buf)) else None)"

definition ED25519_OID :: bytes where
  "ED25519_OID = [0x06, 0x03, 0x2b, 0x65, 0x70]"

fun has_window :: "bytes \<Rightarrow> bytes \<Rightarrow> bool" where
  "has_window w [] = (w = [])"
| "has_window w (x # xs) = (starts_with w (x # xs) \<or> has_window w xs)"

text \<open>The second half of \<open>extract_ed25519_spki\<close>: the key element of a TBS element.\<close>

definition spki_of_tbs :: "bytes \<Rightarrow> bytes outcome" where
  "spki_of_tbs tbs =
     (case tlv_header tbs 0 of
        None \<Rightarrow> Fail ''cert: bad tbs header''
      | Some (_, tbs_clen, tbs_hlen) \<Rightarrow>
          let children = der_children tbs tbs_hlen (tbs_hlen + tbs_clen);
              idx = (case children of [] \<Rightarrow> 0 | (s, _) # _ \<Rightarrow> if tbs ! s = 0xa0 then 1 else 0);
              spki_pos = idx + 5
          in if spki_pos < length children then
               (case children ! spki_pos of (s, l) \<Rightarrow>
                  (case byte_range tbs s (s + l) of
                     None \<Rightarrow> Panic
                   | Some spki \<Rightarrow>
                       if has_window ED25519_OID spki then Ret spki else Fail ''cert: SPKI is not Ed25519''))
             else Fail ''cert: no SPKI element'')"

definition extract_ed25519_spki :: "bytes \<Rightarrow> bytes outcome" where
  "extract_ed25519_spki cert =
     (case tlv_header cert 0 of
        None \<Rightarrow> Fail ''cert: bad outer header''
      | Some (_, clen, hlen) \<Rightarrow>
          (case der_children cert hlen (hlen + clen) of
             [] \<Rightarrow> Fail ''cert: no TBS element''
           | (tbs_off, tbs_total) # _ \<Rightarrow>
               (case byte_range cert tbs_off (tbs_off + tbs_total) of
                  None \<Rightarrow> Panic
                | Some tbs \<Rightarrow> spki_of_tbs tbs)))"

definition fingerprint_of_cert :: "(bytes \<Rightarrow> bytes) \<Rightarrow> (bytes \<Rightarrow> string) \<Rightarrow> bytes \<Rightarrow> string outcome" where
  "fingerprint_of_cert sha256 hex cert =
     (case extract_ed25519_spki cert of
        Ret spki \<Rightarrow> Ret (fingerprint_of_spki sha256 hex spki)
      | Fail e \<Rightarrow> Fail e
      | Panic \<Rightarrow> Panic)"

section \<open>Fingerprint texts\<close>

record pem_files =
  path_exists :: "string \<Rightarrow> bool"
  pem_cert :: "string \<Rightarrow> bytes option"
  pem_spki :: "string \<Rightarrow> bytes option"

definition normalize_fingerprint ::
    "(bytes \<Rightarrow> bytes) \<Rightarrow> (bytes \<Rightarrow> string) \<Rightarrow> pem_files \<Rightarrow> string \<Rightarrow> string outcome" where
  "normalize_fingerprint sha256 hex files input =
     (let s = trim input in
      case strip_prefix ''sha256:'' s of
        Some hexpart \<Rightarrow>
          let h = to_lowercase (filter (\<lambda>c. c \<noteq> CHR '':'' \<and> c \<noteq> CHR '' '') hexpart) in
          if length h = 64 \<and> list_all is_ascii_hexdigit h then Ret (''sha256:'' @ h)
          else Fail ''bad sha256 fingerprint''
      | None \<Rightarrow>
          if length s = 64 \<and> list_all is_ascii_hexdigit s then Ret (''sha256:'' @ to_lowercase s)
          else if starts_with ''-----BEGIN'' s \<or> path_exists files s then
            (case pem_cert files s of
               Some cert \<Rightarrow> fingerprint_of_cert sha256 hex cert
             | None \<Rightarrow>
                 (case pem_spki files s of
                    Some spki \<Rightarrow> Ret (fingerprint_of_spki sha256 hex spki)
                  | None \<Rightarrow> Fail ''unrecognized fingerprint format''))
          else Fail ''unrecognized fingerprint format'')"

section \<open>Reading DER back\<close>

text \<open>The encoder the walker is meant for: definite lengths of up to four bytes.\<close>

definition der_length :: "nat \<Rightarrow> nat \<Rightarrow> bytes" where
  "der_length n k = (if k = 0 then [word_of_nat n] else word_of_nat (128 + k) # be_enc k n)"

definition der_tlv :: "nat \<Rightarrow> byte \<Rightarrow> bytes \<Rightarrow> bytes" where
  "der_tlv k tag content = tag # der_length (length content) k @ content"

text \<open>\<open>k\<close> length bytes are enough for the content; \<open>k = 0\<close> is the short form.\<close>

definition len_form :: "nat \<Rightarrow> nat \<Rightarrow> bool" where
  "len_form k n \<longleftrightarrow> (if k = 0 then n < 128 else k \<le> 4 \<and> n < 256 ^ k)"

lemma der_children_step:
  assumes "tlv_header buf off = Some (t, c, h)" and "off + (h + c) \<le> e"
  shows "der_children buf off e = (off, h + c) # der_children buf (off + (h + c)) e"
  using assms tlv_header_len [OF assms(1)] by (subst der_children.simps) (simp add: Let_def)

lemma der_children_stop:
  assumes "\<And>t c h. tlv_header buf off = Some (t, c, h) \<Longrightarrow> e < off + (h + c)"
  shows "der_children buf off e = []"
  using assms by (subst der_children.simps) (auto simp: Let_def split: option.split)

lemma short_form_bit: "n < 128 \<Longrightarrow> (word_of_nat n :: byte) AND 0x80 = 0"
proof -
  assume n: "n < 128"
  have "\<not> bit n 7" using n by (simp add: bit_iff_odd)
  then have "\<not> bit (word_of_nat n :: byte) 7" by (simp add: bit_of_nat_iff)
  then show ?thesis using and_exp_eq_0_iff_not_bit [of "word_of_nat n :: byte" 7] by simp
qed

lemma long_form_bits:
  assumes "0 < k" and "k \<le> 4"
  shows "(word_of_nat (128 + k) :: byte) AND 0x80 \<noteq> 0" and "unat ((word_of_nat (128 + k) :: byte) AND 0x7f) = k"
proof -
  have "k = 1 \<or> k = 2 \<or> k = 3 \<or> k = 4" using assms by linarith
  then show "(word_of_nat (128 + k) :: byte) AND 0x80 \<noteq> 0" and "unat ((word_of_nat (128 + k) :: byte) AND 0x7f) = k"
    by auto
qed

lemma length_der_tlv: "length (der_tlv k tag c) = 2 + k + length c"
  by (simp add: der_tlv_def der_length_def)

lemma tlv_header_enc:
  assumes "len_form k (length c)"
  shows "tlv_header (pre @ der_tlv k tag c @ post) (length pre) = Some (tag, length c, 2 + k)"
proof (cases "k = 0")
  case True
  then have n: "length c < 128" using assms by (simp add: len_form_def)
  then have "unat (word_of_nat (length c) :: byte) = length c" by (simp add: unat_of_nat take_bit_nat_def)
  with True n show ?thesis
    by (simp add: tlv_header_def der_tlv_def der_length_def nth_append short_form_bit)
next
  case False
  then have k: "0 < k" "k \<le> 4" and n: "length c < 256 ^ k" using assms by (auto simp: len_form_def)
  let ?buf = "pre @ der_tlv k tag c @ post"
  have at: "?buf ! length pre = tag" "?buf ! (length pre + 1) = word_of_nat (128 + k)"
    and rest: "drop (length pre + 2) ?buf = be_enc k (length c) @ c @ post" "length ?buf = length pre + 2 + k + length c + length post"
    using False by (simp_all add: der_tlv_def der_length_def nth_append)
  show ?thesis
    unfolding tlv_header_def at rest Let_def using long_form_bits [OF k] k n by simp
qed

type_synonym der_elem = "nat \<times> byte \<times> bytes"

definition elem_ok :: "der_elem \<Rightarrow> bool" where
  "elem_ok e = (case e of (k, tag, c) \<Rightarrow> len_form k (length c))"

definition elem_bytes :: "der_elem \<Rightarrow> bytes" where
  "elem_bytes e = (case e of (k, tag, c) \<Rightarrow> der_tlv k tag c)"

fun spans :: "nat \<Rightarrow> der_elem list \<Rightarrow> (nat \<times> nat) list" where
  "spans off [] = []"
| "spans off (e # es) = (off, length (elem_bytes e)) # spans (off + length (elem_bytes e)) es"

lemma der_children_enc:
  "list_all elem_ok es \<Longrightarrow>
   der_children (pre @ concat (map elem_bytes es) @ post) (length pre) (length pre + length (concat (map elem_bytes es))) =
     spans (length pre) es"
proof (induction es arbitrary: pre)
  case Nil
  then show ?case by (simp add: der_children.simps)
next
  case (Cons e es)
  obtain k tag c where e: "e = (k, tag, c)" by (cases e) auto
  let ?rest = "concat (map elem_bytes es)"
  have h: "tlv_header (pre @ der_tlv k tag c @ (?rest @ post)) (length pre) = Some (tag, length c, 2 + k)"
    by (rule tlv_header_enc) (use Cons.prems in \<open>simp add: e elem_ok_def\<close>)
  have IH: "der_children ((pre @ der_tlv k tag c) @ ?rest @ post) (length (pre @ der_tlv k tag c))
      (length (pre @ der_tlv k tag c) + length ?rest) = spans (length (pre @ der_tlv k tag c)) es"
    by (rule Cons.IH) (use Cons.prems in simp)
  show ?case
    by (subst der_children.simps)
      (use h IH in \<open>simp add: e elem_bytes_def length_der_tlv Let_def add.assoc\<close>)
qed

lemma spans_nth:
  "i < length es \<Longrightarrow> spans off es ! i = (off + length (concat (map elem_bytes (take i es))), length (elem_bytes (es ! i)))"
  by (induction es arbitrary: i off) (auto simp: nth_Cons split: nat.splits)

lemma length_spans [simp]: "length (spans off es) = length es"
  by (induction es arbitrary: off) auto

lemma byte_range_elem:
  assumes "i < length es"
  shows "byte_range (pre @ concat (map elem_bytes es) @ post) (length pre + length (concat (map elem_bytes (take i es))))
      (length pre + length (concat (map elem_bytes (take i es))) + length (elem_bytes (es ! i))) = Some (elem_bytes (es ! i))"
proof -
  have "es = take i es @ es ! i # drop (Suc i) es" using assms by (simp add: id_take_nth_drop)
  then have "concat (map elem_bytes es) =
      concat (map elem_bytes (take i es)) @ elem_bytes (es ! i) @ concat (map elem_bytes (drop (Suc i) es))"
    by (metis (no_types, lifting) concat.simps(2) concat_append list.simps(9) map_append)
  then show ?thesis by (simp add: byte_range_def)
qed

section \<open>Extraction\<close>

lemma spki_of_tbs_enc:
  assumes form: "len_form k (length (concat (map elem_bytes es)))" and ok: "list_all elem_ok es"
    and i: "i = (if es \<noteq> [] \<and> fst (snd (hd es)) = 0xa0 then 6 else 5)" and len: "i < length es"
  shows "spki_of_tbs (der_tlv k tag (concat (map elem_bytes es))) =
    (if has_window ED25519_OID (elem_bytes (es ! i)) then Ret (elem_bytes (es ! i)) else Fail ''cert: SPKI is not Ed25519'')"
proof -
  let ?c = "concat (map elem_bytes es)" and ?pre = "tag # der_length (length (concat (map elem_bytes es))) k"
  have tbs: "der_tlv k tag ?c = ?pre @ ?c @ []" and pre: "length ?pre = 2 + k"
    by (simp_all add: der_tlv_def der_length_def)
  have h: "tlv_header (der_tlv k tag ?c) 0 = Some (tag, length ?c, 2 + k)"
    using tlv_header_enc [OF form, of "[]" tag "[]"] by simp
  have ch: "der_children (der_tlv k tag ?c) (2 + k) (2 + k + length ?c) = spans (2 + k) es"
    using der_children_enc [OF ok, of ?pre "[]"] unfolding tbs pre .
  obtain e es' where es: "es = e # es'" using len by (cases es) auto
  have "der_tlv k tag ?c ! (2 + k) = fst (snd e)"
    unfolding tbs using pre by (cases e) (simp add: nth_append es elem_bytes_def der_tlv_def)
  then have idx: "(case spans (2 + k) es of [] \<Rightarrow> 0 | (s, _) # _ \<Rightarrow> if der_tlv k tag ?c ! s = 0xa0 then 1 else 0) + 5 = i"
    by (simp add: es i)
  have sl: "byte_range (der_tlv k tag ?c) (2 + k + length (concat (map elem_bytes (take i es))))
      (2 + k + length (concat (map elem_bytes (take i es))) + length (elem_bytes (es ! i))) = Some (elem_bytes (es ! i))"
    using byte_range_elem [OF len, of ?pre "[]"] unfolding tbs pre .
  show ?thesis
    unfolding spki_of_tbs_def h option.case prod.case Let_def ch idx length_spans spans_nth [OF len] sl using len by simp
qed

lemma extract_spki_enc:
  assumes "list_all elem_ok es" and "len_form k (length (concat (map elem_bytes es)))"
    and "len_form k0 (length (der_tlv k tag (concat (map elem_bytes es)) @ rest))"
    and "i = (if es \<noteq> [] \<and> fst (snd (hd es)) = 0xa0 then 6 else 5)" and "i < length es"
  shows "extract_ed25519_spki (der_tlv k0 tag0 (der_tlv k tag (concat (map elem_bytes es)) @ rest)) =
    (if has_window ED25519_OID (elem_bytes (es ! i)) then Ret (elem_bytes (es ! i)) else Fail ''cert: SPKI is not Ed25519'')"
proof -
  let ?tbs = "der_tlv k tag (concat (map elem_bytes es))"
  let ?pre = "tag0 # der_length (length (?tbs @ rest)) k0"
  let ?cert = "der_tlv k0 tag0 (?tbs @ rest)"
  have cert: "?cert = ?pre @ ?tbs @ rest" and pre: "length ?pre = 2 + k0" by (simp_all add: der_tlv_def der_length_def)
  have h: "tlv_header ?cert 0 = Some (tag0, length (?tbs @ rest), 2 + k0)"
    using tlv_header_enc [OF assms(3), of "[]" tag0 "[]"] by simp
  have t: "tlv_header ?cert (2 + k0) = Some (tag, length (concat (map elem_bytes es)), 2 + k)"
    using tlv_header_enc [OF assms(2), of ?pre tag rest] unfolding cert pre .
  have ch: "der_children ?cert (2 + k0) (2 + k0 + length (?tbs @ rest)) =
      (2 + k0, length ?tbs) # der_children ?cert (2 + k0 + length ?tbs) (2 + k0 + length (?tbs @ rest))"
    using der_children_step [OF t, of "2 + k0 + length (?tbs @ rest)"] by (simp only: length_der_tlv length_append)
  have sl: "byte_range ?cert (2 + k0) (2 + k0 + length ?tbs) = Some ?tbs"
    unfolding cert byte_range_def using pre by simp
  show ?thesis
    unfolding extract_ed25519_spki_def h option.case prod.case ch list.case sl
    using spki_of_tbs_enc [OF assms(2,1,4,5)] .
qed

text \<open>
  Key extraction on certificates.  For every certificate with the layout of RFC 5280 in DER
  (any tags, any definite length forms of up to four bytes, any trailing elements), with or without
  the explicit version element, the result is byte for byte the sixth element after the version,
  the SubjectPublicKeyInfo, provided it contains the Ed25519 identifier, and an error otherwise.
\<close>

theorem extract_spki_of_certificate:
  assumes "list_all elem_ok es" and "len_form k (length (concat (map elem_bytes es)))"
    and "len_form k0 (length (der_tlv k tag (concat (map elem_bytes es)) @ rest))"
    and "i = (if es \<noteq> [] \<and> fst (snd (hd es)) = 0xa0 then 6 else 5)" and "i < length es"
  shows "extract_ed25519_spki (der_tlv k0 tag0 (der_tlv k tag (concat (map elem_bytes es)) @ rest)) =
    (if has_window ED25519_OID (elem_bytes (es ! i)) then Ret (elem_bytes (es ! i)) else Fail ''cert: SPKI is not Ed25519'')"
  by (rule extract_spki_enc [OF assms])

definition demo_elems :: "der_elem list" where
  "demo_elems = [(0, 0xa0, [2]), (0, 2, [1]), (0, 0x30, []), (0, 0x30, []), (0, 0x30, []), (0, 0x30, []),
     (1, 0x30, [0x30, 5, 6, 3, 0x2b, 0x65, 0x70, 3, 2, 0, 9])]"

theorem extract_spki_of_certificate_witness:
  "extract_ed25519_spki (der_tlv 0 0x30 (der_tlv 0 0x30 (concat (map elem_bytes demo_elems)) @ [7])) =
     Ret [0x30, 0x81, 11, 0x30, 5, 6, 3, 0x2b, 0x65, 0x70, 3, 2, 0, 9]"
proof -
  let ?s = "der_tlv 0 0x30 (concat (map elem_bytes demo_elems))"
  have b: "elem_bytes (demo_elems ! 6) = [0x30, 0x81, 11, 0x30, 5, 6, 3, 0x2b, 0x65, 0x70, 3, 2, 0, 9]"
    by (simp add: demo_elems_def elem_bytes_def der_tlv_def der_length_def)
  have "extract_ed25519_spki (der_tlv 0 0x30 (?s @ [7])) =
      (if has_window ED25519_OID (elem_bytes (demo_elems ! 6)) then Ret (elem_bytes (demo_elems ! 6)) else Fail ''cert: SPKI is not Ed25519'')"
    by (rule extract_spki_of_certificate)
      (simp_all add: demo_elems_def elem_ok_def len_form_def elem_bytes_def der_tlv_def der_length_def)
  then show ?thesis by (simp add: b ED25519_OID_def)
qed

section \<open>Panics\<close>

lemma der_children_bounds:
  "(a, t) \<in> set (der_children buf off e) \<Longrightarrow> off \<le> a \<and> a + t \<le> e \<and> 2 \<le> t"
proof (induction buf off e rule: der_children.induct)
  case (1 buf off e)
  show ?case
  proof (cases "tlv_header buf off")
    case None
    with 1(2) der_children_stop [of buf off e] show ?thesis by auto
  next
    case (Some x)
    obtain tg c h where x: "x = (tg, c, h)" by (cases x) auto
    have c: "off + (h + c) \<le> e" using 1(2) der_children_stop [of buf off e] Some x by force
    have lt: "off < e" using c tlv_header_len [of buf off] Some x by auto
    have step: "der_children buf off e = (off, h + c) # der_children buf (off + (h + c)) e"
      using der_children_step Some x c by blast
    have IH: "(a, t) \<in> set (der_children buf (off + (h + c)) e) \<Longrightarrow> off + (h + c) \<le> a \<and> a + t \<le> e \<and> 2 \<le> t"
      using 1(1) [OF lt Some x [symmetric] refl refl] c by simp
    show ?thesis using 1(2) IH c tlv_header_len [of buf off] Some x by (auto simp: step)
  qed
qed

lemma spki_of_tbs_no_panic:
  assumes "tlv_header tbs 0 = Some (t, c, h)" and "h + c \<le> length tbs"
  shows "spki_of_tbs tbs \<noteq> Panic"
proof -
  let ?ch = "der_children tbs h (h + c)"
  have "byte_range tbs a (a + l) \<noteq> None" if "i < length ?ch" "?ch ! i = (a, l)" for i a l
    using der_children_bounds [of a l tbs h "h + c"] that nth_mem [OF that(1)] assms(2) by (simp add: byte_range_def)
  note range = this
  define i where "i = (case ?ch of [] \<Rightarrow> 0 | (s, _) # _ \<Rightarrow> if tbs ! s = 0xa0 then 1 else 0) + (5 :: nat)"
  obtain a l where al: "?ch ! i = (a, l)" by fastforce
  show ?thesis
    using assms(1) al range [of i a l]
    by (auto simp: spki_of_tbs_def Let_def i_def [symmetric] split: option.split)
qed


lemma dishonest_certificate_panics: "extract_ed25519_spki [0x30, 0x10, 0x30, 0x0e] = Panic"
proof -
  have h: "tlv_header [0x30, 0x10, 0x30, 0x0e] 0 = Some (0x30, 16, 2)" "tlv_header [0x30, 0x10, 0x30, 0x0e] 2 = Some (0x30, 14, 2)"
    by (simp_all add: tlv_header_def)
  then have "der_children [0x30, 0x10, 0x30, 0x0e] 2 18 = (2, 16) # der_children [0x30, 0x10, 0x30, 0x0e] 18 18"
    using der_children_step [OF h(2), of 18] by simp
  then show ?thesis using h(1) by (simp add: extract_ed25519_spki_def byte_range_def)
qed

section \<open>Canonical fingerprints\<close>

definition canonical_fp :: "string \<Rightarrow> bool" where
  "canonical_fp f \<longleftrightarrow> (\<exists>h. f = ''sha256:'' @ h \<and> length h = 64 \<and> list_all is_ascii_hexdigit h \<and> to_lowercase h = h)"

lemma lower_char_idem: "lower_char (lower_char c) = lower_char c"
proof -
  have "(of_char c :: nat) + 32 < 256" if "of_char c \<le> (90 :: nat)" using that by simp
  then show ?thesis by (auto simp: lower_char_def Let_def of_char_of)
qed

lemma to_lowercase_idem: "to_lowercase (to_lowercase s) = to_lowercase s"
  by (simp add: to_lowercase_def lower_char_idem)

lemma lower_hexdigit: "is_ascii_hexdigit c \<Longrightarrow> is_ascii_hexdigit (lower_char c)"
  by (auto simp: is_ascii_hexdigit_def lower_char_def Let_def of_char_of)

lemma lowercase_hexdigits: "list_all is_ascii_hexdigit s \<Longrightarrow> list_all is_ascii_hexdigit (to_lowercase s)"
  by (simp add: to_lowercase_def list_all_iff lower_hexdigit)

lemma length_to_lowercase [simp]: "length (to_lowercase s) = length s"
  by (simp add: to_lowercase_def)

lemma hexdigit_plain: "is_ascii_hexdigit c \<Longrightarrow> c \<noteq> CHR '':'' \<and> c \<noteq> CHR '' '' \<and> \<not> is_whitespace c"
  by (auto simp: is_ascii_hexdigit_def is_whitespace_def Let_def)

lemma trim_no_space: "\<not> is_whitespace (hd s) \<Longrightarrow> \<not> is_whitespace (last s) \<Longrightarrow> trim s = s"
proof -
  assume h: "\<not> is_whitespace (hd s)" and l: "\<not> is_whitespace (last s)"
  have a: "dropWhile is_whitespace s = s" using h by (cases s) simp_all
  have b: "dropWhile is_whitespace (rev s) = rev s" using l by (cases s rule: rev_cases) simp_all
  show ?thesis by (simp only: trim_def a b rev_rev_ident)
qed

lemma trim_canonical:
  assumes "canonical_fp f"
  shows "trim f = f"
proof -
  obtain h where f: "f = ''sha256:'' @ h" "length h = 64" "list_all is_ascii_hexdigit h"
    using assms by (auto simp: canonical_fp_def)
  then have "h \<noteq> []" by auto
  then have l: "last f = last h" "last h \<in> set h" and h: "hd f = CHR ''s''" by (simp_all add: f(1))
  have "is_ascii_hexdigit (last h)" using f(3) l(2) by (simp add: list_all_iff)
  then have "\<not> is_whitespace (last f)" using hexdigit_plain [of "last h"] l(1) by simp
  moreover have "\<not> is_whitespace (hd f)" by (simp add: h is_whitespace_def)
  ultimately show ?thesis by (intro trim_no_space)
qed

text \<open>The two textual branches of the function.\<close>

lemma normalize_prefixed:
  assumes "trim input = ''sha256:'' @ x" and "h = to_lowercase (filter (\<lambda>c. c \<noteq> CHR '':'' \<and> c \<noteq> CHR '' '') x)"
  shows "normalize_fingerprint sha hex files input =
    (if length h = 64 \<and> list_all is_ascii_hexdigit h then Ret (''sha256:'' @ h) else Fail ''bad sha256 fingerprint'')"
proof -
  have "strip_prefix ''sha256:'' (trim input) = Some x" using assms(1) by (simp only: strip_prefix_Some)
  then show ?thesis unfolding normalize_fingerprint_def Let_def assms(2) by (simp only: option.case)
qed

lemma normalize_bare:
  assumes "strip_prefix ''sha256:'' (trim input) = None" and "length (trim input) = 64" and "list_all is_ascii_hexdigit (trim input)"
  shows "normalize_fingerprint sha hex files input = Ret (''sha256:'' @ to_lowercase (trim input))"
  unfolding normalize_fingerprint_def Let_def assms(1) option.case using assms(2,3) by (simp only: simp_thms if_True)

lemma normalize_text_cases:
  assumes "normalize_fingerprint sha hex files input = Ret f" and "\<not> path_exists files (trim input)"
    and "\<not> starts_with ''-----BEGIN'' (trim input)"
  obtains h where "f = ''sha256:'' @ to_lowercase h" "length h = 64" "list_all is_ascii_hexdigit (to_lowercase h)"
proof (cases "strip_prefix ''sha256:'' (trim input)")
  case (Some x)
  then have t: "trim input = ''sha256:'' @ x" by (simp only: strip_prefix_Some)
  from normalize_prefixed [OF t refl, of sha hex files] assms(1) that [of "filter (\<lambda>c. c \<noteq> CHR '':'' \<and> c \<noteq> CHR '' '') x"]
  show thesis by (simp only: length_to_lowercase split: if_split_asm) simp_all
next
  case None
  have "length (trim input) = 64 \<and> list_all is_ascii_hexdigit (trim input)"
  proof (rule ccontr)
    assume "\<not> (length (trim input) = 64 \<and> list_all is_ascii_hexdigit (trim input))"
    then have "normalize_fingerprint sha hex files input = Fail ''unrecognized fingerprint format''"
      unfolding normalize_fingerprint_def Let_def None option.case using assms(2,3) by (simp only: simp_thms if_False)
    with assms(1) show False by simp
  qed
  with normalize_bare [OF None] assms(1) that [of "trim input"] lowercase_hexdigits show thesis
    by (metis outcome.inject(1))
qed

lemma plain_digest_filter: "list_all is_ascii_hexdigit h \<Longrightarrow> filter (\<lambda>c. c \<noteq> CHR '':'' \<and> c \<noteq> CHR '' '') h = h"
  using hexdigit_plain by (induction h) auto

lemma normalize_canonical:
  assumes "canonical_fp f"
  shows "normalize_fingerprint sha hex files f = Ret f"
proof -
  obtain h where h: "f = ''sha256:'' @ h" "length h = 64" "list_all is_ascii_hexdigit h" "to_lowercase h = h"
    using assms by (auto simp only: canonical_fp_def)
  have "h = to_lowercase (filter (\<lambda>c. c \<noteq> CHR '':'' \<and> c \<noteq> CHR '' '') h)"
    using plain_digest_filter [OF h(3)] h(4) by simp
  from normalize_prefixed [of f h, OF _ this, of sha hex files] trim_canonical [OF assms] h show ?thesis
    by (simp only: simp_thms if_True)
qed

text \<open>
  Fingerprints given as text have one canonical form.  Whenever an input that is not a file
  is accepted, the result is \<open>sha256:\<close> followed by 64 lower-case hexadecimal digits; normalising such
  a result again changes nothing; and a bare digest and the same digest with the prefix, in any
  letter case, give the same result.
\<close>

theorem fingerprint_canonical:
  "(normalize_fingerprint sha hex files input = Ret f \<and> \<not> path_exists files (trim input) \<and>
      \<not> starts_with ''-----BEGIN'' (trim input) \<longrightarrow>
      canonical_fp f \<and> normalize_fingerprint sha hex files f = Ret f) \<and>
   (length d = 64 \<and> list_all is_ascii_hexdigit d \<longrightarrow>
      normalize_fingerprint sha hex files d = Ret (''sha256:'' @ to_lowercase d) \<and>
      normalize_fingerprint sha hex files (''sha256:'' @ d) = Ret (''sha256:'' @ to_lowercase d))"
proof (intro conjI impI; elim conjE)
  assume n: "normalize_fingerprint sha hex files input = Ret f" "\<not> path_exists files (trim input)"
    "\<not> starts_with ''-----BEGIN'' (trim input)"
  obtain h where "f = ''sha256:'' @ to_lowercase h" "length h = 64" "list_all is_ascii_hexdigit (to_lowercase h)"
    by (rule normalize_text_cases [OF n])
  then show c: "canonical_fp f"
    unfolding canonical_fp_def by (intro exI [of _ "to_lowercase h"]) (simp only: length_to_lowercase to_lowercase_idem simp_thms)
  then show "normalize_fingerprint sha hex files f = Ret f" by (rule normalize_canonical)
next
  assume d: "length d = 64" "list_all is_ascii_hexdigit d"
  have ne: "d \<noteq> []" using d(1) by auto
  have w: "\<not> is_whitespace c" if "c \<in> set d" for c using that d(2) hexdigit_plain by (auto simp: list_all_iff)
  have t: "trim d = d" by (rule trim_no_space) (use ne w in auto)
  have "strip_prefix ''sha256:'' d = None"
  proof (rule ccontr)
    assume "strip_prefix ''sha256:'' d \<noteq> None"
    then obtain r where "d = ''sha256:'' @ r" by (auto simp only: strip_prefix_Some not_None_eq)
    then have "is_ascii_hexdigit (CHR ''s'')" using d(2) by simp
    then show False by (simp add: is_ascii_hexdigit_def)
  qed
  then show "normalize_fingerprint sha hex files d = Ret (''sha256:'' @ to_lowercase d)"
    using normalize_bare [of d sha hex files] d by (simp only: t)
  have t2: "trim (''sha256:'' @ d) = ''sha256:'' @ d"
    by (rule trim_no_space) (use ne w in \<open>simp_all add: is_whitespace_def\<close>)
  have e: "to_lowercase d = to_lowercase (filter (\<lambda>c. c \<noteq> CHR '':'' \<and> c \<noteq> CHR '' '') d)"
    using plain_digest_filter [OF d(2)] by simp
  from normalize_prefixed [OF t2 e, of sha hex files] d lowercase_hexdigits [OF d(2)]
  show "normalize_fingerprint sha hex files (''sha256:'' @ d) = Ret (''sha256:'' @ to_lowercase d)"
    by (simp only: length_to_lowercase simp_thms if_True)
qed

theorem fingerprint_canonical_witness:
  "normalize_fingerprint (\<lambda>b. b) (\<lambda>_. []) \<lparr>path_exists = \<lambda>_. False, pem_cert = \<lambda>_. None, pem_spki = \<lambda>_. None\<rparr>
     (''sha256:'' @ replicate 64 (CHR ''A'')) = Ret (''sha256:'' @ replicate 64 (CHR ''a''))"
proof -
  have d: "list_all is_ascii_hexdigit (replicate 64 (CHR ''A''))" by (simp add: list_all_iff is_ascii_hexdigit_def)
  have l: "to_lowercase (replicate 64 (CHR ''A'')) = replicate 64 (CHR ''a'')"
  proof -
    have "lower_char (CHR ''A'') = CHR ''a''" by code_simp
    then show ?thesis by (simp add: to_lowercase_def)
  qed
  from fingerprint_canonical [of _ _ _ _ _ "replicate 64 (CHR ''A'')"] d show ?thesis by (simp only: l length_replicate simp_thms)
qed

end
