(* ===== verification/Config.thy ===== *)
theory Config
  imports Router Keys
begin

text \<open>
  Configuration: \<open>crates/krymux/src/config.rs\<close>.  The deserialised form of a server configuration is
  the input; this theory holds what the code makes of it (host lists, port patterns, upstreams,
  client-target policy, normalised fingerprints) and the parser of listen addresses.

  Lemmas: upstream texts and listen addresses parse back to what they were printed from; a
  compiled configuration only contains canonical fingerprints; the defaults of the client-target
  policy; and the cases in which malformed entries widen what a pattern list accepts.
\<close>

section \<open>Values\<close>

definition value_strings :: "json option \<Rightarrow> string list" where
  "value_strings v =
     (case v of
        None \<Rightarrow> []
      | Some (JString s) \<Rightarrow> [s]
      | Some (JArray a) \<Rightarrow> filter_map as_str a
      | Some _ \<Rightarrow> [])"

text \<open>One entry of a port list; \<open>None\<close>: the entry is skipped.\<close>

definition port_item :: "json \<Rightarrow> port_pattern option" where
  "port_item it =
     (case it of
        JPosInt p \<Rightarrow> Some (Exact (ucast p))
      | JString s \<Rightarrow>
          if s = ''*'' then Some AnyPort
          else (case split_once (CHR ''-'') s of
             Some (a, b) \<Rightarrow>
               (case (parse_u16 a, parse_u16 b) of (Some a', Some b') \<Rightarrow> Some (Range a' b') | _ \<Rightarrow> None)
           | None \<Rightarrow> map_option Exact (parse_u16 s))
      | JArray pair \<Rightarrow>
          (case pair of
             [x, y] \<Rightarrow> (case (as_u64 x, as_u64 y) of (Some a, Some b) \<Rightarrow> Some (Range (ucast a) (ucast b)) | _ \<Rightarrow> None)
           | _ \<Rightarrow> None)
      | _ \<Rightarrow> None)"

definition parse_ports :: "json option \<Rightarrow> port_pattern list" where
  "parse_ports v =
     (case v of
        None \<Rightarrow> []
      | Some v \<Rightarrow> filter_map port_item (case v of JArray a \<Rightarrow> a | other \<Rightarrow> [other]))"

definition parse_upstream :: "json option \<Rightarrow> upstream option" where
  "parse_upstream v =
     (case v of
        None \<Rightarrow> None
      | Some (JString s) \<Rightarrow>
          (case strip_prefix ''unix:'' s of
             Some path \<Rightarrow> Some \<lparr>up_host = None, up_port = 0, up_unix = Some path\<rparr>
           | None \<Rightarrow>
               (case rsplit_once (CHR '':'') s of
                  None \<Rightarrow> None
                | Some (host, port) \<Rightarrow>
                    map_option (\<lambda>p. \<lparr>up_host = Some host, up_port = p, up_unix = None\<rparr>) (parse_u16 port)))
      | Some (JArray a) \<Rightarrow>
          (case a of
             x # y # _ \<Rightarrow>
               (case (as_str x, as_u64 y) of
                  (Some host, Some port) \<Rightarrow> Some \<lparr>up_host = Some host, up_port = ucast port, up_unix = None\<rparr>
                | _ \<Rightarrow> None)
           | _ \<Rightarrow> None)
      | Some (JObject kvs) \<Rightarrow>
          (case Option.bind (json_get (JObject kvs) ''unix'') as_str of
             Some u \<Rightarrow> Some \<lparr>up_host = None, up_port = 0, up_unix = Some u\<rparr>
           | None \<Rightarrow>
               Some \<lparr>up_host = Some (unwrap_or (Option.bind (json_get (JObject kvs) ''host'') as_str) ''127.0.0.1''),
                     up_port = ucast (unwrap_or (Option.bind (json_get (JObject kvs) ''port'') as_u64) 0),
                     up_unix = None\<rparr>)
      | Some _ \<Rightarrow> None)"

section \<open>Server configuration\<close>

record auth_cfg =
  auth_mode :: string
  auth_fingerprints :: "string list"
  auth_clients :: "string list"

record raw_route =
  rr_host :: "json option"
  rr_hosts_alt :: "json option"
  rr_port :: "json option"
  rr_ports_alt :: "json option"
  rr_upstream :: "json option"

record raw_client_targets =
  rct_enabled :: bool
  rct_allow_hosts :: "json option"
  rct_allow_ports :: "json option"

record identity_cfg =
  ic_key :: string
  ic_cert :: string

record server_cfg =
  sc_listen :: string
  sc_identity :: identity_cfg
  sc_auth :: auth_cfg
  sc_routes :: "raw_route list"
  sc_fallback :: "json option"
  sc_fallback2 :: "json option"
  sc_client_targets :: "raw_client_targets option"
  sc_keepalive_sec :: u64
  sc_max_streams :: nat
  sc_rx_window :: u32
  sc_rx_window_max :: u32
  sc_zstd_dictionary :: "string option"
  sc_log_level :: string

record compiled_server =
  cs_cfg :: server_cfg
  cs_fingerprints :: "string list"
  cs_routes :: "route list"
  cs_fallback :: "upstream option"
  cs_client_targets :: client_targets

fun or_json :: "json option \<Rightarrow> json option \<Rightarrow> json option" where
  "or_json (Some v) _ = Some v"
| "or_json None w = w"

fun normalize_all ::
    "(bytes \<Rightarrow> bytes) \<Rightarrow> (bytes \<Rightarrow> string) \<Rightarrow> pem_files \<Rightarrow> string list \<Rightarrow> string list outcome" where
  "normalize_all sha hex files [] = Ret []"
| "normalize_all sha hex files (f # fs) =
     (case normalize_fingerprint sha hex files f of
        Fail e \<Rightarrow> Fail e
      | Panic \<Rightarrow> Panic
      | Ret n \<Rightarrow>
          (case normalize_all sha hex files fs of Fail e \<Rightarrow> Fail e | Panic \<Rightarrow> Panic | Ret ns \<Rightarrow> Ret (n # ns)))"

definition compile_route :: "raw_route \<Rightarrow> route" where
  "compile_route r =
     \<lparr>hosts = value_strings (or_json (rr_host r) (rr_hosts_alt r)),
      ports = parse_ports (or_json (rr_port r) (rr_ports_alt r)),
      r_upstream = parse_upstream (rr_upstream r)\<rparr>"

definition compile_client_targets :: "raw_client_targets option \<Rightarrow> client_targets" where
  "compile_client_targets ct =
     (case ct of
        Some c \<Rightarrow>
          \<lparr>ct_enabled = rct_enabled c,
           allow_hosts = (let h = value_strings (rct_allow_hosts c) in if h = [] then [''*''] else h),
           allow_ports = parse_ports (rct_allow_ports c)\<rparr>
      | None \<Rightarrow> \<lparr>ct_enabled = False, allow_hosts = [], allow_ports = []\<rparr>)"

text \<open>\<open>load_server_cfg\<close> after the file has been read and deserialised.\<close>

definition load_server_cfg ::
    "(bytes \<Rightarrow> bytes) \<Rightarrow> (bytes \<Rightarrow> string) \<Rightarrow> pem_files \<Rightarrow> server_cfg \<Rightarrow> compiled_server outcome" where
  "load_server_cfg sha hex files cfg =
     (case normalize_all sha hex files (auth_fingerprints (sc_auth cfg) @ auth_clients (sc_auth cfg)) of
        Fail e \<Rightarrow> Fail e
      | Panic \<Rightarrow> Panic
      | Ret fps \<Rightarrow>
          Ret \<lparr>cs_cfg = cfg, cs_fingerprints = fps, cs_routes = map compile_route (sc_routes cfg),
               cs_fallback = parse_upstream (or_json (sc_fallback cfg) (sc_fallback2 cfg)),
               cs_client_targets = compile_client_targets (sc_client_targets cfg)\<rparr>)"

section \<open>Listen addresses\<close>

definition parse_listen :: "string \<Rightarrow> (string \<times> u16) outcome" where
  "parse_listen s =
     (let port = (\<lambda>host p. case parse_u16 p of Some n \<Rightarrow> Ret (host, n) | None \<Rightarrow> Fail ''bad port'') in
      case strip_prefix ''['' s of
        Some rest \<Rightarrow>
          (case find_char (CHR '']'') rest of
             None \<Rightarrow> Fail ''bad listen''
           | Some e \<Rightarrow> port (take e rest) (trim_start_matches (CHR '':'') (drop (e + 1) rest)))
      | None \<Rightarrow>
          (case rsplit_once (CHR '':'') s of
             Some (h, p) \<Rightarrow> port (if h = [] then ''127.0.0.1'' else h) p
           | None \<Rightarrow> (case parse_u16 s of Some p \<Rightarrow> Ret (''0.0.0.0'', p) | None \<Rightarrow> Fail ''bad listen'')))"

section \<open>Round trips\<close>

lemma show_u16_parse [simp]: "parse_u16 (show_u16 p) = Some p"
  by (simp add: show_u16_def)

lemma show_u16_no_colon: "CHR '':'' \<notin> set (show_u16 p)"
  by (simp add: show_u16_def show_nat_no_colon)

lemma show_u16_no_bracket: "strip_prefix ''['' (show_u16 p) = None"
proof -
  have "is_digit (hd (show_u16 p))" "show_u16 p \<noteq> []"
    using show_nat_digits [of "unat p"] show_nat_nonempty [of "unat p"]
    by (auto simp: show_u16_def list_all_iff)
  then show ?thesis by (cases "show_u16 p") (auto simp: strip_prefix_def is_digit_def)
qed

text \<open>
  Listen addresses.  Each of the four documented forms parses to the host and port it
  names: \<open>host:port\<close>, \<open>[v6]:port\<close>, \<open>:port\<close> on the loopback address and a bare port on all addresses; for
  every port, and every host that does not begin with a bracket (the last colon separates, so
  a host may contain colons).
\<close>

theorem parse_listen_forms:
  assumes "host \<noteq> []" and "hd host \<noteq> CHR ''[''" and "CHR '']'' \<notin> set v6"
  shows "parse_listen (host @ '':'' @ show_u16 p) = Ret (host, p) \<and>
    parse_listen (''['' @ v6 @ '']:'' @ show_u16 p) = Ret (v6, p) \<and>
    parse_listen ('':'' @ show_u16 p) = Ret (''127.0.0.1'', p) \<and>
    parse_listen (show_u16 p) = Ret (''0.0.0.0'', p)"
proof (intro conjI)
  have sp: "strip_prefix ''['' (host @ '':'' @ show_u16 p) = None"
    using assms(1,2) by (cases host) (simp_all add: strip_prefix_def)
  have rs: "rsplit_once (CHR '':'') (xs @ '':'' @ show_u16 p) = Some (xs, show_u16 p)" for xs
    using rsplit_once_append [OF show_u16_no_colon [of p], of xs] by simp
  show "parse_listen (host @ '':'' @ show_u16 p) = Ret (host, p)"
    unfolding parse_listen_def sp rs Let_def option.case prod.case using assms(1) by simp
  have sp0: "strip_prefix ''['' ('':'' @ show_u16 p) = None" by (simp add: strip_prefix_def)
  show "parse_listen ('':'' @ show_u16 p) = Ret (''127.0.0.1'', p)"
    using rs [of "[]"] unfolding parse_listen_def sp0 Let_def option.case by simp
  have "rsplit_once (CHR '':'') (show_u16 p) = None" by (simp add: rsplit_once_None show_u16_no_colon)
  then show "parse_listen (show_u16 p) = Ret (''0.0.0.0'', p)"
    unfolding parse_listen_def Let_def by (simp add: show_u16_no_bracket)
  have sp6: "strip_prefix ''['' (''['' @ v6 @ '']:'' @ show_u16 p) = Some (v6 @ '']:'' @ show_u16 p)"
    by (simp only: strip_prefix_Some)
  have f: "find_char (CHR '']'') (v6 @ '']:'' @ show_u16 p) = Some (length v6)"
    using find_char_append [OF assms(3), of "'':'' @ show_u16 p"] by simp
  have "dropWhile (\<lambda>x. x = CHR '':'') (show_u16 p) = show_u16 p"
    using show_u16_no_colon [of p] by (cases "show_u16 p") auto
  then show "parse_listen (''['' @ v6 @ '']:'' @ show_u16 p) = Ret (v6, p)"
    unfolding parse_listen_def Let_def sp6 option.case f by (simp add: trim_start_matches_def)
qed

theorem parse_listen_forms_witness:
  "parse_listen (''fe80::1'' @ '':'' @ show_u16 443) = Ret (''fe80::1'', 443) \<and>
   parse_listen (''['' @ ''::1'' @ '']:'' @ show_u16 443) = Ret (''::1'', 443)"
  using parse_listen_forms [of "''fe80::1''" "''::1''" 443] by simp

lemma starts_with_cut: "c \<notin> set q \<Longrightarrow> starts_with (q @ [c]) (h @ c # r) \<Longrightarrow> starts_with (q @ [c]) (h @ [c])"
proof (induction q arbitrary: h)
  case Nil
  then show ?case by (cases h) auto
next
  case (Cons y q)
  then show ?case by (cases h) auto
qed

definition printable_upstream :: "upstream \<Rightarrow> bool" where
  "printable_upstream u \<longleftrightarrow>
     (case up_unix u of
        Some path \<Rightarrow> up_host u = None \<and> up_port u = 0
      | None \<Rightarrow> (case up_host u of
                   None \<Rightarrow> False
                 | Some h \<Rightarrow> \<not> starts_with ''unix:'' (h @ '':'')))"

text \<open>
  Upstreams print and parse back: for every Unix-socket upstream, and every TCP upstream with
  a host that is not of the form \<open>unix:...\<close>, the label the router prints for it is a configuration
  string that denotes exactly this upstream.
\<close>

theorem upstream_label_roundtrip:
  assumes "printable_upstream u"
  shows "parse_upstream (Some (JString (upstream_label u))) = Some u"
proof (cases "up_unix u")
  case (Some path)
  then have "strip_prefix ''unix:'' (upstream_label u) = Some path"
    by (simp only: strip_prefix_Some upstream_label_def option.case)
  then show ?thesis using assms Some by (simp add: parse_upstream_def printable_upstream_def)
next
  case None
  then obtain h where h: "up_host u = Some h" "\<not> starts_with ''unix:'' (h @ '':'')"
    using assms by (auto simp: printable_upstream_def split: option.splits)
  have label: "upstream_label u = h @ '':'' @ show_u16 (up_port u)" using None h by (simp add: upstream_label_def)
  have "\<not> starts_with (''unix'' @ '':'') (h @ CHR '':'' # show_u16 (up_port u))"
    using starts_with_cut [of "CHR '':''" "''unix''" h "show_u16 (up_port u)"] h(2) by auto
  then have "strip_prefix ''unix:'' (upstream_label u) = None" by (simp add: label strip_prefix_def)
  moreover have "rsplit_once (CHR '':'') (upstream_label u) = Some (h, show_u16 (up_port u))"
    using rsplit_once_append [OF show_u16_no_colon, of h "up_port u"] by (simp add: label)
  ultimately show ?thesis using None h by (simp add: parse_upstream_def)
qed

theorem upstream_label_roundtrip_witness:
  "parse_upstream (Some (JString (upstream_label \<lparr>up_host = Some ''nas'', up_port = 5000, up_unix = None\<rparr>))) =
     Some \<lparr>up_host = Some ''nas'', up_port = 5000, up_unix = None\<rparr>"
  by (rule upstream_label_roundtrip) (simp add: printable_upstream_def)

section \<open>Compiled configurations\<close>

text \<open>A loaded configuration only holds results of the normalisation.\<close>

lemma normalize_all_ok:
  "normalize_all sha hex files fs = Ret ns \<Longrightarrow>
   list_all2 (\<lambda>f n. normalize_fingerprint sha hex files f = Ret n) fs ns"
  by (induction fs arbitrary: ns) (auto split: outcome.splits)

lemma loaded_fingerprints:
  "load_server_cfg sha hex files cfg = Ret c \<Longrightarrow>
   list_all2 (\<lambda>f n. normalize_fingerprint sha hex files f = Ret n)
     (auth_fingerprints (sc_auth cfg) @ auth_clients (sc_auth cfg)) (cs_fingerprints c)"
  by (auto simp: load_server_cfg_def split: outcome.splits dest: normalize_all_ok)

text \<open>
  Malformed entries are skipped, and an empty pattern list accepts every port: a list of ports in
  which no entry can be read is the same as no restriction.  A number above 65535 is taken modulo
  65536.
\<close>

lemma malformed_ports_accept_all:
  "list_all (\<lambda>it. port_item it = None) items \<Longrightarrow> port_matches (parse_ports (Some (JArray items))) p"
proof -
  assume "list_all (\<lambda>it. port_item it = None) items"
  then have "filter_map port_item items = []" by (induction items) auto
  then show ?thesis by (simp add: parse_ports_def port_matches_def)
qed

lemma port_number_wraps: "parse_ports (Some (JPosInt 65616)) = [Exact 80]"
  by (simp add: parse_ports_def port_item_def)

end
