(* ===== verification/Http.thy ===== *)
theory Http
  imports Config MuxState
begin

text \<open>
  HTTP heads: the local proxy \<open>crates/krymux/src/httpproxy.rs\<close> and the head parser of
  \<open>crates/krymux/src/ws.rs\<close>.

  A connection is the list of its reads; an empty read is its end.  \<open>serve_http\<close> ends with what is done
  for the client: nothing, a reply, a stream opened for CONNECT, or one opened for a forwarded request with
  the first bytes written to it.  What follows is a copy in both directions.

  Lemmas: where a head ends, however it is cut into reads; the parts of an absolute URL; what the proxy
  forwards for a well-formed request.
\<close>

section \<open>Heads\<close>

fun find_sub :: "'a list \<Rightarrow> 'a list \<Rightarrow> nat option" where
  "find_sub p [] = (if p = [] then Some 0 else None)"
| "find_sub p (x # xs) = (if starts_with p (x # xs) then Some 0 else map_option Suc (find_sub p xs))"

definition CRLF :: string where "CRLF = [CHR 0x0D, CHR 0x0A]"

definition find_head_end :: "bytes \<Rightarrow> nat option" where
  "find_head_end buf = find_sub (str_bytes (CRLF @ CRLF)) buf"

text \<open>\<open>split("\r\n")\<close> and \<open>split_whitespace\<close>.\<close>

fun split_crlf :: "string \<Rightarrow> string list" where
  "split_crlf [] = [[]]"
| "split_crlf [c] = [[c]]"
| "split_crlf (c # c' # cs) =
     (if c = CHR 0x0D \<and> c' = CHR 0x0A then [] # split_crlf cs
      else case split_crlf (c' # cs) of p # ps \<Rightarrow> (c # p) # ps | [] \<Rightarrow> [[c]])"

definition split_whitespace :: "string \<Rightarrow> string list" where
  "split_whitespace s = filter (\<lambda>w. w \<noteq> []) (split_where is_whitespace s)"

section \<open>The parser of the browser front\<close>

record http_head =
  hh_req_line :: string
  hh_headers :: "(string \<times> string) list"
  hh_rest :: bytes

definition header_of :: "string \<Rightarrow> (string \<times> string) option" where
  "header_of l = map_option (\<lambda>c. (to_lowercase (trim (take c l)), trim (drop (c + 1) l))) (find_char (CHR '':'') l)"

definition parse_http_head :: "bytes \<Rightarrow> http_head option" where
  "parse_http_head buf =
     (case find_head_end buf of
        None \<Rightarrow> None
      | Some idx \<Rightarrow>
          (case split_crlf (from_utf8_lossy (take idx buf)) of
             [] \<Rightarrow> None
           | req_line # lines \<Rightarrow>
               Some \<lparr>hh_req_line = req_line, hh_headers = filter_map header_of lines, hh_rest = drop (idx + 4) buf\<rparr>))"

definition header :: "http_head \<Rightarrow> string \<Rightarrow> string option" where
  "header head name = map_of (hh_headers head) name"

definition MAX_HEADER :: nat where "MAX_HEADER = 16 * 1024"

text \<open>The loop that reads a head: the outcome and the reads that are left.\<close>

datatype head_read = HeadClosed | HeadFlood | HeadWaiting | HeadDone http_head

fun read_ws_head :: "bytes \<Rightarrow> bytes list \<Rightarrow> head_read \<times> bytes list" where
  "read_ws_head buf [] = (HeadWaiting, [])"
| "read_ws_head buf (r # rs) =
     (if r = [] then (HeadClosed, rs)
      else
        let buf = buf @ r in
        if length buf > MAX_HEADER then (HeadFlood, rs)
        else case parse_http_head buf of Some h \<Rightarrow> (HeadDone h, rs) | None \<Rightarrow> read_ws_head buf rs)"

section \<open>The proxy\<close>

definition split_host_port :: "string \<Rightarrow> u16 \<Rightarrow> string \<times> u16" where
  "split_host_port s default_port =
     (let plain = (case rsplit_once (CHR '':'') s of
            Some (h, p) \<Rightarrow> (h, unwrap_or (parse_u16 p) default_port)
          | None \<Rightarrow> (s, default_port))
      in case strip_prefix ''['' s of
           Some rest \<Rightarrow>
             (case find_char (CHR '']'') rest of
                Some e \<Rightarrow> (take e rest, unwrap_or (parse_u16 (trim_start_matches (CHR '':'') (drop (e + 1) rest))) default_port)
              | None \<Rightarrow> plain)
         | None \<Rightarrow> plain)"

record url =
  u_host :: string
  u_port :: "u16 option"
  u_path :: string
  u_query :: "string option"

definition split_once_str :: "string \<Rightarrow> string \<Rightarrow> (string \<times> string) option" where
  "split_once_str p s = map_option (\<lambda>i. (take i s, drop (i + length p) s)) (find_sub p s)"

definition url_parse :: "string \<Rightarrow> url option" where
  "url_parse s =
     (case split_once_str ''://'' s of
        None \<Rightarrow> None
      | Some (scheme, rest) \<Rightarrow>
          let (authority, pathq) = (case find_char (CHR ''/'') rest of Some i \<Rightarrow> (take i rest, drop i rest) | None \<Rightarrow> (rest, []));
              authority = last (split_where (\<lambda>c. c = CHR ''@'') authority);
              hp = (case strip_prefix ''['' authority of
                  Some r \<Rightarrow> map_option (\<lambda>e. (take e r, parse_u16 (trim_start_matches (CHR '':'') (drop (e + 1) r)))) (find_char (CHR '']'') r)
                | None \<Rightarrow> Some (case rsplit_once (CHR '':'') authority of Some (h, p) \<Rightarrow> (h, parse_u16 p) | None \<Rightarrow> (authority, None)))
          in (case hp of
                None \<Rightarrow> None
              | Some (host, port) \<Rightarrow>
                  if host = [] then None
                  else Some (case split_once (CHR ''?'') pathq of
                      Some (p, q) \<Rightarrow> \<lparr>u_host = host, u_port = port, u_path = p, u_query = Some q\<rparr>
                    | None \<Rightarrow> \<lparr>u_host = host, u_port = port, u_path = pathq, u_query = None\<rparr>)))"

text \<open>The lines that are not passed on, and the rewritten head.\<close>

definition hop_line :: "string \<Rightarrow> bool" where
  "hop_line l \<longleftrightarrow> starts_with ''proxy-'' (to_lowercase l) \<or> starts_with ''connection:'' (to_lowercase l)"

definition rewrite_head :: "string \<Rightarrow> url \<Rightarrow> string \<Rightarrow> string list \<Rightarrow> string" where
  "rewrite_head meth u version lines =
     meth @ '' '' @ (if u_path u = [] then ''/'' else u_path u) @ (case u_query u of Some q \<Rightarrow> ''?'' @ q | None \<Rightarrow> []) @ '' '' @ version @ CRLF @
     concat (map (\<lambda>l. l @ CRLF) (filter (\<lambda>l. l \<noteq> [] \<and> \<not> hop_line l) lines)) @
     ''Connection: close'' @ CRLF @ CRLF"

datatype http_end =
    HttpGone
  | HttpReply string
  | HttpConnect string u16 bytes
  | HttpForward string u16 bytes

definition http_request :: "bytes \<Rightarrow> nat \<Rightarrow> http_end" where
  "http_request acc head_end =
     (let rest = drop (head_end + 4) acc in
      case split_crlf (from_utf8_lossy (take head_end acc)) of
        [] \<Rightarrow> HttpGone
      | request_line # lines \<Rightarrow>
          (case split_whitespace request_line of
             meth # target_url # version # _ \<Rightarrow>
               if meth = ''CONNECT'' then
                 (case split_host_port target_url 443 of (host, port) \<Rightarrow> HttpConnect host port rest)
               else (case url_parse target_url of
                   None \<Rightarrow> HttpReply (''HTTP/1.1 400 Bad Request'' @ CRLF @ ''Content-Length: 0'' @ CRLF @ CRLF)
                 | Some u \<Rightarrow> HttpForward (u_host u) (unwrap_or (u_port u) 80) (str_bytes (rewrite_head meth u version lines) @ rest))
           | _ \<Rightarrow> HttpGone))"

text \<open>The loop that reads the head: the outcome and the reads still to be copied.\<close>

fun serve_http :: "bytes \<Rightarrow> bytes list \<Rightarrow> http_end \<times> bytes list" where
  "serve_http acc [] = (HttpGone, [])"
| "serve_http acc (r # rs) =
     (if r = [] then (HttpGone, rs)
      else
        let acc = acc @ r in
        case find_head_end acc of
          Some idx \<Rightarrow> (http_request acc idx, rs)
        | None \<Rightarrow> if length acc > 64 * 1024 then (HttpGone, rs) else serve_http acc rs)"

text \<open>What the local client and the stream get first; \<open>opened\<close> says whether the stream could be opened.\<close>

definition http_first :: "bool \<Rightarrow> http_end \<Rightarrow> string \<times> (string \<times> u16 \<times> bytes) option" where
  "http_first opened e =
     (let bad_gateway = ''HTTP/1.1 502 Bad Gateway'' @ CRLF @ ''Content-Length: 0'' @ CRLF @ ''Connection: close'' @ CRLF @ CRLF in
      case e of
        HttpGone \<Rightarrow> ([], None)
      | HttpReply r \<Rightarrow> (r, None)
      | HttpConnect h p b \<Rightarrow>
          if opened then (''HTTP/1.1 200 Connection Established'' @ CRLF @ CRLF, Some (h, p, b)) else (bad_gateway, None)
      | HttpForward h p b \<Rightarrow> if opened then ([], Some (h, p, b)) else (bad_gateway, None))"

section \<open>Where a head ends\<close>

lemma find_sub_short: "length xs < length p \<Longrightarrow> find_sub p xs = None"
  by (induction xs) (auto simp: starts_with_iff dest!: arg_cong [where f = length])

lemma starts_with_prefix: "starts_with p (a @ b) \<Longrightarrow> starts_with p a \<longleftrightarrow> length p \<le> length a"
  by (induction p a rule: starts_with.induct) auto

lemma find_sub_prefix:
  "p \<noteq> [] \<Longrightarrow> find_sub p (a @ b) = Some i \<Longrightarrow> find_sub p a = (if i + length p \<le> length a then Some i else None)"
proof (induction a arbitrary: i)
  case (Cons x a)
  show ?case
  proof (cases "starts_with p ((x # a) @ b)")
    case True
    then show ?thesis using Cons.prems starts_with_prefix [OF True] find_sub_short [of a p] by (auto split: if_splits)
  next
    case False
    then obtain j where j: "find_sub p (a @ b) = Some j" "i = Suc j" using Cons.prems(2) by auto
    have "\<not> starts_with p (x # a)" using False by (metis append_assoc starts_with_iff)
    then show ?thesis using Cons.IH [OF Cons.prems(1) j(1)] j(2) by auto
  qed
qed (auto split: if_splits)

lemma find_sub_skip: "p \<noteq> [] \<Longrightarrow> hd p \<notin> set l \<Longrightarrow> find_sub p (l @ xs) = map_option ((+) (length l)) (find_sub p xs)"
proof (induction l)
  case Nil
  then show ?case by (simp add: option.map_ident)
next
  case (Cons x l)
  then have "\<not> starts_with p (x # l @ xs)" by (cases p) auto
  then show ?case using Cons by (simp add: option.map_comp comp_def)
qed

abbreviation head_mark :: bytes where
  "head_mark \<equiv> [0x0D, 0x0A, 0x0D, 0x0A]"

lemma head_mark: "str_bytes (CRLF @ CRLF) = head_mark"
  by (simp add: str_bytes_def CRLF_def)

lemma find_head_end_mark: "find_head_end = find_sub head_mark"
  by (simp only: find_head_end_def head_mark fun_eq_iff simp_thms)

text \<open>Characters of a head: ASCII and no line break.\<close>

definition head_char :: "char \<Rightarrow> bool" where
  "head_char c \<longleftrightarrow> c \<noteq> CHR 0x0D \<and> c \<noteq> CHR 0x0A \<and> of_char c < (128 :: nat)"

lemma str_bytes_append [simp]: "str_bytes (a @ b) = str_bytes a @ str_bytes b"
  by (simp add: str_bytes_def)

lemma length_str_bytes [simp]: "length (str_bytes a) = length a"
  by (simp add: str_bytes_def)

lemma unat_of_char: "unat (of_char c :: u8) = of_char c"
proof -
  have "(of_char c :: u8) = word_of_nat (of_char c)" by (simp add: of_nat_of_char)
  then show ?thesis using nat_of_char_less_256 [of c] by (simp add: unat_of_nat)
qed

lemma byte_char_of_char [simp]: "byte_char (of_char c) = c"
  by (simp add: byte_char_def unat_of_char)

lemma head_char_byte: "head_char c \<Longrightarrow> (of_char c :: u8) \<noteq> 0x0D \<and> byte_char (of_char c) = c \<and> (of_char c :: u8) < 0x80"
proof -
  assume c: "head_char c"
  have "(of_char c :: u8) \<noteq> 0x0D"
  proof
    assume "(of_char c :: u8) = 0x0D"
    moreover have "(of_char (CHR 0x0D) :: u8) = 0x0D" by simp
    ultimately have "c = CHR 0x0D" using byte_char_of_char [of c] byte_char_of_char [of "CHR 0x0D"] by metis
    then show False using c by (simp add: head_char_def)
  qed
  then show ?thesis using c by (simp add: head_char_def word_less_nat_alt unat_of_char)
qed

lemma str_bytes_no_cr: "list_all head_char l \<Longrightarrow> 0x0D \<notin> set (str_bytes l)"
  using head_char_byte by (fastforce simp: str_bytes_def list_all_iff)

lemma find_mark_crlf: "x \<noteq> 0x0D \<Longrightarrow> find_sub head_mark (0x0D # 0x0A # x # xs) = map_option ((+) 2) (find_sub head_mark (x # xs))"
  by (cases "find_sub head_mark (x # xs)") auto

definition head_line :: "string \<Rightarrow> bool" where
  "head_line l \<longleftrightarrow> l \<noteq> [] \<and> list_all head_char l"

lemma length_CRLF [simp]: "length CRLF = 2"
  by (simp add: CRLF_def)

lemma find_head_lines:
  assumes "ls \<noteq> []" and "list_all head_line ls"
  shows "find_sub head_mark (str_bytes (join CRLF ls) @ head_mark @ body) = Some (length (join CRLF ls))"
  using assms
proof (induction CRLF ls rule: join.induct)
  case (2 l)
  then show ?case using find_sub_skip [of head_mark "str_bytes l" "head_mark @ body"] str_bytes_no_cr [of l] by (simp add: head_line_def)
next
  case (3 l l' ls)
  obtain c r where l': "l' = c # r" "head_char c" using 3 by (cases l') (auto simp: head_line_def)
  let ?tail = "str_bytes (join CRLF (l' # ls)) @ head_mark @ body"
  obtain xs where tail: "?tail = of_char c # xs" by (cases ls) (auto simp: l' str_bytes_def)
  have "find_sub head_mark (str_bytes CRLF @ ?tail) = map_option ((+) 2) (find_sub head_mark ?tail)"
    using find_mark_crlf [of "of_char c" xs] head_char_byte [OF l'(2)] unfolding tail by (simp add: str_bytes_def CRLF_def)
  also have "\<dots> = Some (2 + length (join CRLF (l' # ls)))" using 3 by simp
  finally show ?case
    using find_sub_skip [of head_mark "str_bytes l" "str_bytes CRLF @ ?tail"] str_bytes_no_cr [of l] 3 by (simp add: head_line_def)
qed simp

lemma head_found_prefix:
  "find_head_end (a @ b) = Some i \<Longrightarrow> find_head_end a = (if i + 4 \<le> length a then Some i else None)"
  using find_sub_prefix [of head_mark a b i] by (simp add: find_head_end_mark)

lemma serve_http_reads:
  assumes "find_head_end (acc @ concat rs) = Some i" and "i + 4 \<le> 64 * 1024" and "length acc < i + 4" and "[] \<notin> set rs"
  shows "\<exists>acc' rs'. serve_http acc rs = (http_request acc' i, rs') \<and> acc' @ concat rs' = acc @ concat rs \<and> i + 4 \<le> length acc'"
  using assms
proof (induction rs arbitrary: acc)
  case Nil
  then show ?case using head_found_prefix [of acc "[]" i] by simp
next
  case (Cons r rs)
  then have "find_head_end (acc @ r) = (if i + 4 \<le> length (acc @ r) then Some i else None)"
    using head_found_prefix [of "acc @ r" "concat rs" i] by simp
  then show ?case using Cons.IH [of "acc @ r"] Cons.prems by (cases "i + 4 \<le> length (acc @ r)") auto
qed

section \<open>Lines, words and URLs\<close>

lemma split_crlf_line: "CHR 0x0D \<notin> set l \<Longrightarrow> split_crlf l = [l]"
  by (induction l rule: split_crlf.induct) auto

lemma split_crlf_append: "CHR 0x0D \<notin> set l \<Longrightarrow> split_crlf (l @ CRLF @ xs) = l # split_crlf xs"
proof (induction l)
  case (Cons c l)
  obtain d r where "l @ CRLF @ xs = d # r" by (cases "l @ CRLF @ xs") (auto simp: CRLF_def)
  then show ?case using Cons by (auto simp del: split_crlf.simps simp add: split_crlf.simps(3))
qed (simp add: CRLF_def)

lemma split_crlf_join: "ls \<noteq> [] \<Longrightarrow> list_all (\<lambda>l. CHR 0x0D \<notin> set l) ls \<Longrightarrow> split_crlf (join CRLF ls) = ls"
  by (induction CRLF ls rule: join.induct) (simp_all add: split_crlf_line split_crlf_append)

definition word :: "string \<Rightarrow> bool" where
  "word w \<longleftrightarrow> w \<noteq> [] \<and> list_all (\<lambda>c. \<not> is_whitespace c) w"

lemma split_three_words:
  assumes "word a" and "word b" and "word c"
  shows "split_whitespace (a @ '' '' @ b @ '' '' @ c) = [a, b, c]"
proof -
  have sp: "is_whitespace (CHR '' '')" by (simp add: is_whitespace_def)
  have plain: "split_where is_whitespace w = [w]" if "word w" for w
    using that by (intro split_where_plain) (auto simp: word_def list_all_iff)
  have "split_where is_whitespace (a @ '' '' @ b @ '' '' @ c) = [a, b, c]"
    using split_where_append [where P = is_whitespace and c = "CHR '' ''"] plain assms sp by simp
  then show ?thesis using assms by (simp add: split_whitespace_def word_def)
qed

lemma find_sub_scheme: "CHR '':'' \<notin> set scheme \<Longrightarrow> find_sub ''://'' (scheme @ ''://'' @ rest) = Some (length scheme)"
  using find_sub_skip [of "''://''" scheme "''://'' @ rest"] by simp

text \<open>An absolute URL from its parts.\<close>

definition show_url :: "string \<Rightarrow> url \<Rightarrow> string" where
  "show_url scheme u = scheme @ ''://'' @ u_host u @ (case u_port u of Some p \<Rightarrow> '':'' @ show_u16 p | None \<Rightarrow> []) @ u_path u @
     (case u_query u of Some q \<Rightarrow> ''?'' @ q | None \<Rightarrow> [])"

definition url_ok :: "string \<Rightarrow> url \<Rightarrow> bool" where
  "url_ok scheme u \<longleftrightarrow>
     CHR '':'' \<notin> set scheme \<and> u_host u \<noteq> [] \<and> hd (u_host u) \<noteq> CHR ''['' \<and>
     list_all (\<lambda>c. c \<noteq> CHR ''/'' \<and> c \<noteq> CHR ''@'' \<and> c \<noteq> CHR '':'') (u_host u) \<and>
     CHR ''?'' \<notin> set (u_path u) \<and> (u_path u = [] \<and> u_query u = None \<or> u_path u \<noteq> [] \<and> hd (u_path u) = CHR ''/'')"

lemma show_nat_plain: "\<not> is_digit c \<Longrightarrow> c \<notin> set (show_nat n)"
  using show_nat_digits [of n] by (auto simp: list_all_iff)

lemma split_once_None: "c \<notin> set s \<Longrightarrow> split_once c s = None"
  by (simp add: split_once_def find_char_None [THEN iffD2])

lemma authority_parts:
  assumes "url_ok scheme u"
  defines "auth \<equiv> u_host u @ (case u_port u of Some p \<Rightarrow> '':'' @ show_u16 p | None \<Rightarrow> [])"
  shows "CHR ''/'' \<notin> set auth" and "CHR ''@'' \<notin> set auth" and "strip_prefix ''['' auth = None"
    and "(case rsplit_once (CHR '':'') auth of Some (h, p) \<Rightarrow> (h, parse_u16 p) | None \<Rightarrow> (auth, None)) = (u_host u, u_port u)"
proof -
  have digits: "CHR ''/'' \<notin> set (show_u16 p)" "CHR ''@'' \<notin> set (show_u16 p)" for p :: u16
    by (simp_all add: show_u16_def show_nat_plain is_digit_def)
  show "CHR ''/'' \<notin> set auth" "CHR ''@'' \<notin> set auth"
    using assms(1) digits by (auto simp: auth_def url_ok_def list_all_iff split: option.splits)
  show "strip_prefix ''['' auth = None"
    using assms(1) by (cases "u_host u") (auto simp: auth_def url_ok_def strip_prefix_def)
  have host: "CHR '':'' \<notin> set (u_host u)" using assms(1) by (auto simp: url_ok_def list_all_iff)
  show "(case rsplit_once (CHR '':'') auth of Some (h, p) \<Rightarrow> (h, parse_u16 p) | None \<Rightarrow> (auth, None)) = (u_host u, u_port u)"
    using rsplit_once_append [OF show_u16_no_colon] host
    by (cases "u_port u") (auto simp: auth_def rsplit_once_None [THEN iffD2])
qed

lemma url_parse_show:
  assumes ok: "url_ok scheme u"
  shows "url_parse (show_url scheme u) = Some u"
proof -
  define auth where "auth = u_host u @ (case u_port u of Some p \<Rightarrow> '':'' @ show_u16 p | None \<Rightarrow> [])"
  define pathq where "pathq = u_path u @ (case u_query u of Some q \<Rightarrow> ''?'' @ q | None \<Rightarrow> [])"
  note parts = authority_parts [OF ok, folded auth_def]
  have shown: "show_url scheme u = scheme @ ''://'' @ auth @ pathq" by (simp add: show_url_def auth_def pathq_def)
  have scheme: "split_once_str ''://'' (show_url scheme u) = Some (scheme, auth @ pathq)"
    using ok find_sub_scheme [of scheme "auth @ pathq"] by (simp add: split_once_str_def shown url_ok_def)
  have cut: "(case find_char (CHR ''/'') (auth @ pathq) of Some i \<Rightarrow> (take i (auth @ pathq), drop i (auth @ pathq)) | None \<Rightarrow> (auth @ pathq, []))
    = (auth, pathq)"
  proof (cases "u_path u")
    case Nil
    then have "pathq = []" using ok by (simp add: pathq_def url_ok_def)
    then show ?thesis using parts(1) by (simp add: find_char_None [THEN iffD2])
  next
    case (Cons c r)
    then have "\<exists>t. pathq = CHR ''/'' # t" using ok by (simp add: pathq_def url_ok_def)
    then show ?thesis using find_char_append [OF parts(1)] by auto
  qed
  have user: "split_where (\<lambda>c. c = CHR ''@'') auth = [auth]" using parts(2) by (intro split_where_plain) auto
  have query: "(case split_once (CHR ''?'') pathq of Some (p, q) \<Rightarrow> (p, Some q) | None \<Rightarrow> (pathq, None)) = (u_path u, u_query u)"
    using ok split_once_append [of "CHR ''?''" "u_path u"]
    by (cases "u_query u") (auto simp: pathq_def url_ok_def split_once_None)
  have "u_host u \<noteq> []" using ok by (simp add: url_ok_def)
  then show ?thesis
    using query unfolding url_parse_def scheme
    by (simp add: cut user parts(3,4) split: option.splits prod.splits)
qed

section \<open>What is forwarded\<close>

text \<open>The text of a head from its lines.\<close>

definition http_text :: "string list \<Rightarrow> string" where
  "http_text ls = join CRLF ls @ CRLF @ CRLF"

definition absolute_line :: "string \<Rightarrow> string \<Rightarrow> url \<Rightarrow> string \<Rightarrow> string" where
  "absolute_line meth scheme u version = meth @ '' '' @ show_url scheme u @ '' '' @ version"

definition origin_line :: "string \<Rightarrow> url \<Rightarrow> string \<Rightarrow> string" where
  "origin_line meth u version =
     meth @ '' '' @ (if u_path u = [] then ''/'' else u_path u) @ (case u_query u of Some q \<Rightarrow> ''?'' @ q | None \<Rightarrow> []) @ '' '' @ version"

lemma join_snoc: "join CRLF (l # ls @ [x]) = l @ CRLF @ concat (map (\<lambda>l. l @ CRLF) ls) @ x"
  by (induction ls arbitrary: l) simp_all

lemma rewrite_head_text:
  assumes "list_all head_line ls"
  shows "rewrite_head meth u version ls = http_text (origin_line meth u version # filter (\<lambda>l. \<not> hop_line l) ls @ [''Connection: close''])"
proof -
  have "filter (\<lambda>l. l \<noteq> [] \<and> \<not> hop_line l) ls = filter (\<lambda>l. \<not> hop_line l) ls"
    using assms by (intro filter_cong) (auto simp: list_all_iff head_line_def)
  then show ?thesis by (simp add: rewrite_head_def http_text_def join_snoc origin_line_def)
qed

lemma append_longer: "a @ b = p @ q \<Longrightarrow> length p \<le> length a \<Longrightarrow> \<exists>r. a = p @ r \<and> r @ b = q"
  by (metis append_eq_append_conv_if append_take_drop_id)

lemma head_line_ascii: "head_line l \<Longrightarrow> list_all (\<lambda>c. of_char c < (128 :: nat)) l"
  by (auto simp: head_line_def head_char_def list_all_iff)

lemma join_ascii: "list_all head_line ls \<Longrightarrow> list_all (\<lambda>c. of_char c < (128 :: nat)) (join CRLF ls)"
proof (induction CRLF ls rule: join.induct)
  case (3 l l' ls)
  have "list_all (\<lambda>c. of_char c < (128 :: nat)) CRLF" by (simp add: CRLF_def)
  with 3 show ?case by (simp add: head_line_ascii)
qed (simp_all add: head_line_ascii)

lemma lossy_ascii: "list_all (\<lambda>c. of_char c < (128 :: nat)) s \<Longrightarrow> from_utf8_lossy (str_bytes s) = s"
proof -
  assume s: "list_all (\<lambda>c. of_char c < (128 :: nat)) s"
  then have "list_all (\<lambda>b. b < 0x80) (str_bytes s)"
    by (auto simp: list_all_iff str_bytes_def word_less_nat_alt unat_of_char)
  then show ?thesis using from_utf8_lossy_ascii [of "str_bytes s"] by (simp add: str_bytes_def comp_def)
qed

lemma head_end_text:
  assumes "list_all head_line ls" and "ls \<noteq> []"
  shows "find_head_end (str_bytes (http_text ls) @ body) = Some (length (join CRLF ls))"
  using find_head_lines [OF assms(2,1)] head_mark by (simp add: find_head_end_mark http_text_def)

lemma http_request_text:
  assumes "acc = str_bytes (http_text (line # ls)) @ rest" and "list_all head_line (line # ls)"
  shows "split_crlf (from_utf8_lossy (take (length (join CRLF (line # ls))) acc)) = line # ls
    \<and> drop (length (join CRLF (line # ls)) + 4) acc = rest"
proof -
  have "take (length (join CRLF (line # ls))) acc = str_bytes (join CRLF (line # ls))" using assms(1) by (simp add: http_text_def)
  moreover have "split_crlf (join CRLF (line # ls)) = line # ls"
    using assms(2) by (intro split_crlf_join) (auto simp: list_all_iff head_line_def head_char_def)
  ultimately show ?thesis using lossy_ascii [OF join_ascii [OF assms(2)]] assms(1) by (simp add: http_text_def)
qed

lemma http_request_plain:
  assumes "url_ok scheme u" and "word meth" and "meth \<noteq> ''CONNECT''" and "word (show_url scheme u)" and "word version"
    and "acc = str_bytes (http_text (absolute_line meth scheme u version # ls)) @ rest"
    and "list_all head_line (absolute_line meth scheme u version # ls)"
  shows "http_request acc (length (join CRLF (absolute_line meth scheme u version # ls)))
    = HttpForward (u_host u) (unwrap_or (u_port u) 80) (str_bytes (rewrite_head meth u version ls) @ rest)"
  using http_request_text [OF assms(6,7)] split_three_words [OF assms(2,4,5)] url_parse_show [OF assms(1)] assms(3)
  by (simp add: http_request_def Let_def absolute_line_def del: str_bytes_append)

text \<open>
  C30.  A well-formed absolute-form request is forwarded as the same request in origin form: however its
  bytes are cut into reads, and with whatever follows it, the proxy opens a stream to the URL's host and port (80
  if it names none) and writes the path-form request line, the client's header lines without the \<open>Proxy-\<close>
  and \<open>Connection\<close> ones in their order, and \<open>Connection: close\<close>; the bytes of the body that came with the
  head follow at once, and together with the reads still to be copied they are the body.
\<close>

theorem http_request_forwarded:
  assumes "url_ok scheme u" and "word meth" and "meth \<noteq> ''CONNECT''" and "word (show_url scheme u)" and "word version"
    and "list_all head_line (absolute_line meth scheme u version # ls)"
    and "length (http_text (absolute_line meth scheme u version # ls)) \<le> 64 * 1024"
    and "concat rs = str_bytes (http_text (absolute_line meth scheme u version # ls)) @ body"
    and "[] \<notin> set rs"
  shows "\<exists>rest rs'. rest @ concat rs' = body \<and>
    serve_http [] rs =
      (HttpForward (u_host u) (unwrap_or (u_port u) 80)
         (str_bytes (http_text (origin_line meth u version # filter (\<lambda>l. \<not> hop_line l) ls @ [''Connection: close''])) @ rest), rs')"
proof -
  let ?head = "absolute_line meth scheme u version # ls"
  define i where "i = length (join CRLF ?head)"
  have len: "length (http_text ?head) = i + 4" by (simp add: http_text_def i_def)
  have "find_head_end ([] @ concat rs) = Some i"
    using head_end_text [OF assms(6), of body] assms(8) by (simp add: i_def)
  moreover have "i + 4 \<le> 64 * 1024" using assms(7) len by simp
  ultimately obtain acc rs' where run: "serve_http [] rs = (http_request acc i, rs')"
    and acc: "acc @ concat rs' = str_bytes (http_text ?head) @ body" "i + 4 \<le> length acc"
    using serve_http_reads [of "[]" rs i] assms(8,9) by auto
  obtain rest where rest: "acc = str_bytes (http_text ?head) @ rest" "rest @ concat rs' = body"
    using append_longer [OF acc(1)] acc(2) len by auto
  have "http_request acc i = HttpForward (u_host u) (unwrap_or (u_port u) 80) (str_bytes (rewrite_head meth u version ls) @ rest)"
    using http_request_plain [OF assms(1-5), of acc ls rest] rest(1) assms(6) by (simp add: i_def)
  moreover have "list_all head_line ls" using assms(6) by simp
  ultimately show ?thesis using run rest(2) rewrite_head_text by auto
qed

theorem http_request_forwarded_witness:
  "\<exists>rest rs'. rest @ concat rs' = str_bytes ''hello'' \<and>
    serve_http [] [str_bytes (''GET http://a.b:81/x?y HTTP/1.1'' @ CRLF @ ''Host: a''),
                   str_bytes (CRLF @ ''Proxy-Thing: 1'' @ CRLF @ CRLF @ ''hel''), str_bytes ''lo''] =
      (HttpForward ''a.b'' 81 (str_bytes (''GET /x?y HTTP/1.1'' @ CRLF @ ''Host: a'' @ CRLF @ ''Connection: close'' @ CRLF @ CRLF) @ rest), rs')"
proof -
  let ?u = "\<lparr>u_host = ''a.b'', u_port = Some 81, u_path = ''/x'', u_query = Some ''y''\<rparr>"
  let ?ls = "[''Host: a'', ''Proxy-Thing: 1'']"
  have shown: "show_url ''http'' ?u = ''http://a.b:81/x?y''"
    by code_simp
  have shape: "http_text (absolute_line ''GET'' ''http'' ?u ''HTTP/1.1'' # ?ls) =
      ''GET http://a.b:81/x?y HTTP/1.1'' @ CRLF @ ''Host: a'' @ CRLF @ ''Proxy-Thing: 1'' @ CRLF @ CRLF"
    by (simp add: http_text_def absolute_line_def shown)
  have lines: "list_all head_line (absolute_line ''GET'' ''http'' ?u ''HTTP/1.1'' # ?ls)"
    by (simp add: absolute_line_def shown head_line_def head_char_def)
  have kept: "filter (\<lambda>l. \<not> hop_line l) ?ls = [''Host: a'']"
    by code_simp
  show ?thesis
    using http_request_forwarded [of "''http''" ?u "''GET''" "''HTTP/1.1''" ?ls
        "[str_bytes (''GET http://a.b:81/x?y HTTP/1.1'' @ CRLF @ ''Host: a''),
          str_bytes (CRLF @ ''Proxy-Thing: 1'' @ CRLF @ CRLF @ ''hel''), str_bytes ''lo'']" "str_bytes ''hello''"]
    unfolding kept shape
    using lines
    by (simp add: shown url_ok_def word_def is_whitespace_def http_text_def origin_line_def str_bytes_def)
qed

text \<open>The query of a URL without a path is taken for a part of the host.\<close>

lemma query_taken_for_host: "map_option u_host (url_parse ''http://a.b?x=1'') = Some ''a.b?x=1''"
  by code_simp

end
