(* ===== verification/WsFrame.thy ===== *)
theory WsFrame
  imports Codec Keys
begin

text \<open>
  WebSocket framing and the bridge to a session: the frame codec of \<open>crates/krymux/src/ws.rs\<close> and the
  task of \<open>handle_http_or_ws\<close> that turns binary messages into the bytes of a session.

  \<open>ws_one\<close> is the body of the loop of \<open>ws_decode\<close> on the bytes from the current offset on; it is an
  instance of \<open>stream_codec\<close>, and \<open>ws_decode\<close> takes as many frames as the drain of this decoder does.

  Lemmas: client and server frames survive the transport under any masking and chunking;
  fragmented messages are reassembled, with control frames in between, and never beyond the cap.
\<close>

section \<open>The frame codec\<close>

definition MAX_WS_MESSAGE :: nat where "MAX_WS_MESSAGE = 2097152"

record ws_frame =
  wf_opcode :: u8
  wf_fin :: bool
  wf_payload :: bytes

definition ws_length_bytes :: "u8 \<Rightarrow> nat \<Rightarrow> bytes" where
  "ws_length_bytes m len =
     (if len < 126 then [m OR word_of_nat len]
      else if len < 65536 then (m OR 126) # be_enc 2 len
      else (m OR 127) # be_enc 8 len)"

definition ws_encode :: "u8 \<Rightarrow> bytes \<Rightarrow> bytes" where
  "ws_encode opcode payload =
     [0x80 OR (opcode AND 0x0f)] @ ws_length_bytes 0 (length payload) @ payload"

text \<open>The payload length and the number of bytes that carry its extended form.\<close>

definition ws_length :: "u8 \<Rightarrow> bytes \<Rightarrow> (nat \<times> nat) option" where
  "ws_length b1 r =
     (let len = unat (b1 AND 0x7f) in
      if len = 126 then (if length r < 2 then None else Some (be_dec (take 2 r), 2))
      else if len = 127 then (if length r < 8 then None else Some (be_dec (take 8 r), 8))
      else Some (len, 0))"

definition unmask :: "bytes \<Rightarrow> bytes \<Rightarrow> bytes" where
  "unmask mk payload = map (\<lambda>i. payload ! i XOR mk ! (i mod 4)) [0 ..< length payload]"

datatype ws_error = Oversized

definition ws_one :: "bytes \<Rightarrow> (ws_frame, ws_error) dec_step" where
  "ws_one bs =
     (if length bs < 2 then Need
      else
        let b0 = bs ! 0; b1 = bs ! 1; masked = (b1 AND 0x80 \<noteq> 0); mask_len = (if masked then 4 else 0) in
        case ws_length b1 (drop 2 bs) of
          None \<Rightarrow> Need
        | Some (len, ext) \<Rightarrow>
            if len > MAX_WS_MESSAGE then Bad Oversized
            else if length bs < 2 + ext + mask_len + len then Need
            else
              let raw = take len (drop (2 + ext + mask_len) bs);
                  payload = (if masked then unmask (take 4 (drop (2 + ext) bs)) raw else raw)
              in Got \<lparr>wf_opcode = b0 AND 0x0f, wf_fin = (b0 AND 0x80 \<noteq> 0), wf_payload = payload\<rparr>
                   (2 + ext + mask_len + len))"

lemma ws_one_Got: "ws_one bs = Got f n \<Longrightarrow> 2 \<le> n \<and> n \<le> length bs"
  by (auto simp: ws_one_def Let_def split: if_splits option.splits)

function ws_loop :: "bytes \<Rightarrow> nat \<Rightarrow> ws_frame list \<times> nat \<times> bool" where
  "ws_loop buf off =
     (if off + 2 \<le> length buf then
        (case ws_one (drop off buf) of
           Need \<Rightarrow> ([], off, False)
         | Bad _ \<Rightarrow> ([], 0, True)
         | Got f n \<Rightarrow> (case ws_loop buf (off + n) of (fs, consumed, oversize) \<Rightarrow> (f # fs, consumed, oversize)))
      else ([], off, False))"
  by pat_completeness auto
termination
  by (relation "measure (\<lambda>(buf, off). length buf - off)") (auto dest!: ws_one_Got)

declare ws_loop.simps [simp del]

definition ws_decode :: "bytes \<Rightarrow> ws_frame list \<times> nat \<times> bool" where
  "ws_decode buf = ws_loop buf 0"

section \<open>The bridge into a session\<close>

text \<open>
  The task from WebSocket to session: the open fragment, what was written into the session, the pongs
  offered to the writer task, and whether the task has ended.  \<open>accepts\<close> says whether the next
  \<open>write_all\<close> succeeds after what was written so far.
\<close>

record bridge =
  br_fragment :: "bytes option"
  br_out :: "bytes list"
  br_pongs :: "bytes list"
  br_done :: bool

definition bridge_init :: bridge where
  "bridge_init = \<lparr>br_fragment = None, br_out = [], br_pongs = [], br_done = False\<rparr>"

definition bridge_one :: "(bytes list \<Rightarrow> bytes \<Rightarrow> bool) \<Rightarrow> ws_frame \<Rightarrow> bridge \<Rightarrow> bridge" where
  "bridge_one accepts f b =
     (if br_done b then b
      else if wf_opcode f = 0x2 \<or> wf_opcode f = 0x0 then
        let cur = (case br_fragment b of Some prev \<Rightarrow> prev @ wf_payload f | None \<Rightarrow> wf_payload f);
            b = b\<lparr>br_fragment := None\<rparr>
        in if length cur > MAX_WS_MESSAGE then b\<lparr>br_done := True\<rparr>
           else if wf_fin f then
             (if accepts (br_out b) cur then b\<lparr>br_out := br_out b @ [cur]\<rparr> else b\<lparr>br_done := True\<rparr>)
           else b\<lparr>br_fragment := Some cur\<rparr>
      else if wf_opcode f = 0x8 then b\<lparr>br_done := True\<rparr>
      else if wf_opcode f = 0x9 then b\<lparr>br_pongs := br_pongs b @ [ws_encode 0xA (wf_payload f)]\<rparr>
      else b)"

text \<open>The loop of the task; an empty read is the end of the connection or an error.\<close>

fun bridge_run :: "(bytes list \<Rightarrow> bytes \<Rightarrow> bool) \<Rightarrow> bytes \<Rightarrow> bytes list \<Rightarrow> bridge \<Rightarrow> bridge" where
  "bridge_run accepts buf reads b =
     (case ws_decode buf of (frames, consumed, oversize) \<Rightarrow>
        if oversize then b\<lparr>br_done := True\<rparr>
        else
          let buf = drop consumed buf; b = fold (bridge_one accepts) frames b in
          if br_done b then b
          else (case reads of
             [] \<Rightarrow> b
           | r # rs \<Rightarrow> if r = [] then b\<lparr>br_done := True\<rparr> else bridge_run accepts (buf @ r) rs b))"

declare bridge_run.simps [simp del]

section \<open>Decoding is draining\<close>

lemma ws_length_append: "ws_length b r = Some x \<Longrightarrow> ws_length b (r @ xs) = Some x"
  by (auto simp: ws_length_def Let_def split: if_splits)

interpretation wsf: stream_decoder ws_one
proof
  fix bs m n
  assume "ws_one bs = Got m n"
  then show "0 < n \<and> n \<le> length bs" using ws_one_Got by fastforce
next
  fix bs m n xs
  assume "ws_one bs = Got m n"
  then show "ws_one (bs @ xs) = Got m n"
    by (auto simp: ws_one_def Let_def nth_append ws_length_append split: if_splits option.splits)
next
  fix bs e xs
  assume "ws_one bs = Bad e"
  then show "ws_one (bs @ xs) = Bad e"
    by (auto simp: ws_one_def Let_def nth_append ws_length_append split: if_splits option.splits)
qed

lemma ws_loop_drain:
  "off \<le> length buf \<Longrightarrow>
   ws_loop buf off =
     (case drain ws_one (drop off buf) of
        (fs, r, None) \<Rightarrow> (fs, length buf - length r, False)
      | (fs, r, Some e) \<Rightarrow> (fs, 0, True))"
proof (induction buf off rule: ws_loop.induct)
  case (1 buf off)
  show ?case
  proof (cases "ws_one (drop off buf)")
    case Need
    then show ?thesis using "1.prems" by (simp add: ws_loop.simps [of buf off] drain_Need)
  next
    case (Bad e)
    then have "off + 2 \<le> length buf" by (auto simp: ws_one_def split: if_splits)
    then show ?thesis using Bad by (simp add: ws_loop.simps [of buf off] drain_Bad)
  next
    case (Got f n)
    have n: "2 \<le> n" "n \<le> length buf - off" "off + 2 \<le> length buf" using ws_one_Got [OF Got] by auto
    then have "ws_loop buf (off + n) =
        (case drain ws_one (drop (off + n) buf) of
           (fs, r, None) \<Rightarrow> (fs, length buf - length r, False) | (fs, r, Some e) \<Rightarrow> (fs, 0, True))"
      using "1.IH" Got "1.prems" by simp
    then show ?thesis
      using Got n wsf.drain_Got [OF Got]
      by (simp add: ws_loop.simps [of buf off] add.commute split: prod.splits option.splits)
  qed
qed

lemma ws_decode_drain:
  "ws_decode buf =
     (case drain ws_one buf of
        (fs, r, None) \<Rightarrow> (fs, length buf - length r, False)
      | (fs, r, Some e) \<Rightarrow> (fs, 0, True))"
  unfolding ws_decode_def by (subst ws_loop_drain) simp_all

section \<open>Frames on the wire\<close>

text \<open>A frame as a peer may send it: any opcode and FIN bit, unmasked or with a four-byte mask.\<close>

definition ws_wire :: "bytes \<Rightarrow> ws_frame \<Rightarrow> bytes" where
  "ws_wire mk f =
     [(if wf_fin f then 0x80 else 0) OR wf_opcode f] @
     ws_length_bytes (if mk = [] then 0 else 0x80) (length (wf_payload f)) @
     (if mk = [] then wf_payload f else mk @ unmask mk (wf_payload f))"

definition ws_sendable :: "ws_frame \<Rightarrow> bool" where
  "ws_sendable f \<longleftrightarrow> wf_opcode f < 16 \<and> length (wf_payload f) \<le> MAX_WS_MESSAGE"

lemma length_unmask [simp]: "length (unmask mk p) = length p"
  by (simp add: unmask_def)

lemma unmask_twice: "unmask mk (unmask mk p) = p"
  by (rule nth_equalityI) (simp_all add: unmask_def xor.assoc)

lemma unat_and_mask: "unat ((x :: byte) AND mask n) = unat x mod 2 ^ n"
  unfolding take_bit_eq_mask [symmetric] unsigned_take_bit_eq by (simp add: take_bit_eq_mod)

lemma low_nibble: "unat (x AND 0x0f :: byte) = unat x mod 16"
  using unat_and_mask [of x 4] by (simp add: mask_eq_exp_minus_1)

lemma low_seven: "unat (x AND 0x7f :: byte) = unat x mod 128"
  using unat_and_mask [of x 7] by (simp add: mask_eq_exp_minus_1)

lemma high_bit_clear: "(x :: byte) < 0x80 \<Longrightarrow> x AND 0x80 = 0"
  using short_form_bit [of "unat x"] by (simp add: word_less_nat_alt)

lemma high_bit_set: "(0x80 OR x :: byte) AND 0x80 \<noteq> 0"
  by (simp add: bit.conj_disj_distrib2)

lemma or_high_low: "(0x80 OR x :: byte) AND 0x0f = x AND 0x0f" "(0x80 OR x :: byte) AND 0x7f = x AND 0x7f"
  by (simp_all add: bit.conj_disj_distrib2)

lemma first_byte:
  assumes "opc < (16 :: byte)"
  shows "((if fin then 0x80 else 0) OR opc) AND 0x0f = opc" and "((if fin then 0x80 else 0) OR opc) AND 0x80 \<noteq> 0 \<longleftrightarrow> fin"
proof -
  have "opc AND 0x0f = opc"
    by (rule word_unat_eq_iff [THEN iffD2]) (use assms in \<open>simp add: low_nibble word_less_nat_alt\<close>)
  then show "((if fin then 0x80 else 0) OR opc) AND 0x0f = opc" by (simp add: or_high_low)
  have "opc < 0x80" using assms by (simp add: word_less_nat_alt)
  then show "((if fin then 0x80 else 0) OR opc) AND 0x80 \<noteq> 0 \<longleftrightarrow> fin"
    using high_bit_set [of opc] high_bit_clear [of opc] by simp
qed

lemma length_byte:
  assumes "v < 128" and that: "m = 0 \<or> m = 0x80"
  shows "unat ((m OR word_of_nat v :: byte) AND 0x7f) = v" and "(m OR word_of_nat v :: byte) AND 0x80 \<noteq> 0 \<longleftrightarrow> m = 0x80"
proof -
  have v: "unat (word_of_nat v :: byte) = v" using assms by (simp add: unat_of_nat take_bit_nat_def)
  show "unat ((m OR word_of_nat v :: byte) AND 0x7f) = v"
    using that v assms low_seven [of "word_of_nat v"] by (auto simp: or_high_low)
  have "(word_of_nat v :: byte) AND 0x80 = 0" using assms(1) by (rule short_form_bit)
  then show "(m OR word_of_nat v :: byte) AND 0x80 \<noteq> 0 \<longleftrightarrow> m = 0x80"
    using that high_bit_set [of "word_of_nat v"] by auto
qed

lemma ws_length_enc:
  assumes "n \<le> MAX_WS_MESSAGE" and m: "m = 0 \<or> m = 0x80"
  obtains b1 ext where "ws_length_bytes m n = b1 # ext" and "b1 AND 0x80 \<noteq> 0 \<longleftrightarrow> m = 0x80"
    and "\<And>xs. ws_length b1 (ext @ xs) = Some (n, length ext)"
proof -
  consider "n < 126" | "126 \<le> n" "n < 65536" | "65536 \<le> n" by linarith
  then show ?thesis
  proof cases
    case 1
    then show ?thesis using length_byte [OF _ m, of n]
      by (intro that [of "m OR word_of_nat n" "[]"]) (simp_all add: ws_length_bytes_def ws_length_def)
  next
    case 2
    then show ?thesis using length_byte [OF _ m, of 126]
      by (intro that [of "m OR 126" "be_enc 2 n"]) (simp_all add: ws_length_bytes_def ws_length_def)
  next
    case 3
    have "n < 256 ^ 8" using assms(1) by (simp add: MAX_WS_MESSAGE_def)
    then show ?thesis using 3 length_byte [OF _ m, of 127]
      by (intro that [of "m OR 127" "be_enc 8 n"]) (simp_all add: ws_length_bytes_def ws_length_def)
  qed
qed

lemma ws_one_plain:
  assumes "\<not> length bs < 2" and "ws_length (bs ! 1) (drop 2 bs) = Some (n, e)" and "n \<le> MAX_WS_MESSAGE"
    and "bs ! 1 AND 0x80 = 0" and "drop (2 + e) bs = p @ xs" and "length p = n" and "2 + e + n \<le> length bs"
  shows "ws_one bs = Got \<lparr>wf_opcode = bs ! 0 AND 0x0f, wf_fin = (bs ! 0 AND 0x80 \<noteq> 0), wf_payload = p\<rparr> (2 + e + n)"
  unfolding ws_one_def assms(2) Let_def using assms by simp

lemma ws_one_masked:
  assumes "\<not> length bs < 2" and "ws_length (bs ! 1) (drop 2 bs) = Some (n, e)" and "n \<le> MAX_WS_MESSAGE"
    and "bs ! 1 AND 0x80 \<noteq> 0" and "drop (2 + e) bs = mk @ p @ xs" and "length mk = 4" and "length p = n"
    and "2 + e + 4 + n \<le> length bs"
  shows "ws_one bs = Got \<lparr>wf_opcode = bs ! 0 AND 0x0f, wf_fin = (bs ! 0 AND 0x80 \<noteq> 0), wf_payload = unmask mk p\<rparr> (2 + e + 4 + n)"
proof -
  have "drop (2 + e + 4) bs = drop 4 (drop (2 + e) bs)" by (simp add: add.commute)
  then have "drop (2 + e + 4) bs = p @ xs" unfolding assms(5) using assms(6) by simp
  then show ?thesis unfolding ws_one_def assms(2) Let_def using assms by simp
qed

lemma ws_one_wire:
  assumes "ws_sendable f" and mk: "mk = [] \<or> length mk = 4"
  shows "ws_one (ws_wire mk f @ xs) = Got f (length (ws_wire mk f))"
proof -
  let ?p = "wf_payload f" and ?m = "if mk = [] then 0 else 0x80 :: byte"
  let ?b0 = "(if wf_fin f then 0x80 else 0) OR wf_opcode f"
  let ?body = "if mk = [] then ?p else mk @ unmask mk ?p"
  have opc: "wf_opcode f < 16" and len: "length ?p \<le> MAX_WS_MESSAGE" using assms(1) by (auto simp: ws_sendable_def)
  obtain b1 ext where hd: "ws_length_bytes ?m (length ?p) = b1 # ext" and bit: "b1 AND 0x80 \<noteq> 0 \<longleftrightarrow> ?m = 0x80"
    and wl: "\<And>xs. ws_length b1 (ext @ xs) = Some (length ?p, length ext)"
    by (rule ws_length_enc [OF len, of ?m]) auto
  have wire: "ws_wire mk f = ?b0 # b1 # ext @ ?body" by (simp add: ws_wire_def hd)
  have f: "\<lparr>wf_opcode = ?b0 AND 0x0f, wf_fin = (?b0 AND 0x80 \<noteq> 0), wf_payload = ?p\<rparr> = f"
    using first_byte [OF opc, of "wf_fin f"] by simp
  have d: "drop 2 (ws_wire mk f @ xs) = ext @ (?body @ xs)" "drop (2 + length ext) (ws_wire mk f @ xs) = ?body @ xs"
    unfolding wire by simp_all
  have two: "\<not> length (ws_wire mk f @ xs) < 2" "(ws_wire mk f @ xs) ! 0 = ?b0" "(ws_wire mk f @ xs) ! 1 = b1"
    and len_w: "length (ws_wire mk f) = 2 + length ext + length mk + length ?p"
    unfolding wire by auto
  have wl': "ws_length ((ws_wire mk f @ xs) ! 1) (drop 2 (ws_wire mk f @ xs)) = Some (length ?p, length ext)"
    unfolding two(3) d(1) by (rule wl)
  show ?thesis
  proof (cases "mk = []")
    case True
    have "ws_one (ws_wire mk f @ xs) = Got \<lparr>wf_opcode = ?b0 AND 0x0f, wf_fin = (?b0 AND 0x80 \<noteq> 0), wf_payload = ?p\<rparr>
        (2 + length ext + length ?p)"
      by (rule ws_one_plain [OF two(1) wl' len, where p = ?p and xs = xs, unfolded two(2,3)]) (use True bit d(2) len_w in simp_all)
    then show ?thesis unfolding f using True len_w by simp
  next
    case False
    then have mk4: "length mk = 4" using mk by simp
    have "ws_one (ws_wire mk f @ xs) = Got \<lparr>wf_opcode = ?b0 AND 0x0f, wf_fin = (?b0 AND 0x80 \<noteq> 0),
        wf_payload = unmask mk (unmask mk ?p)\<rparr> (2 + length ext + 4 + length ?p)"
      by (rule ws_one_masked [OF two(1) wl' len, where mk = mk and p = "unmask mk ?p" and xs = xs, unfolded two(2,3)]) (use False mk4 bit d(2) len_w in simp_all)
    then show ?thesis unfolding f unmask_twice using mk4 len_w by simp
  qed
qed

interpretation ws: stream_codec ws_one "ws_wire []" ws_sendable
proof
  show "ws_one [] = Need" by (simp add: ws_one_def)
qed (simp add: ws_one_wire)

lemma ws_encode_wire: "ws_encode opc p = ws_wire [] \<lparr>wf_opcode = opc AND 0x0f, wf_fin = True, wf_payload = p\<rparr>"
  by (simp add: ws_encode_def ws_wire_def)

section \<open>Messages through the bridge\<close>

lemma bridge_done_stays: "br_done b \<Longrightarrow> fold (bridge_one accepts) fs b = b"
  by (induction fs) (simp_all add: bridge_one_def)

lemma bridge_run_frames:
  assumes "drain ws_one (buf @ concat reads) = (fs, r, None)" and "[] \<notin> set reads"
    and "\<not> br_done (fold (bridge_one accepts) fs b)"
  shows "bridge_run accepts buf reads b = fold (bridge_one accepts) fs b"
  using assms
proof (induction reads arbitrary: buf b fs)
  case Nil
  then show ?case by (simp add: bridge_run.simps ws_decode_drain)
next
  case (Cons c cs)
  obtain fs1 r1 e1 where d1: "drain ws_one buf = (fs1, r1, e1)" by (metis prod_cases3)
  have whole: "drain ws_one (buf @ (c @ concat cs)) = (fs, r, None)" using Cons.prems(1) by simp
  then have e1: "e1 = None" using wsf.drain_append [of buf "c @ concat cs"] d1 by (auto split: option.splits prod.splits)
  obtain fs2 where d2: "drain ws_one (r1 @ c @ concat cs) = (fs2, r, None)" and fs: "fs = fs1 @ fs2"
    using wsf.drain_append [of buf "c @ concat cs"] d1 e1 whole by (auto split: prod.splits)
  let ?b1 = "fold (bridge_one accepts) fs1 b"
  have alive: "\<not> br_done ?b1" using Cons.prems(3) bridge_done_stays [of ?b1 accepts fs2] fs by auto
  have rest: "drop (length buf - length r1) buf = r1" using wsf.drain_rest [of buf] d1 by simp
  have "bridge_run accepts (r1 @ c) cs ?b1 = fold (bridge_one accepts) fs2 ?b1"
    using Cons.prems(2,3) d2 fs by (intro Cons.IH) simp_all
  then show ?case
    using Cons.prems(2) d1 e1 rest alive fs by (subst bridge_run.simps) (auto simp: ws_decode_drain Let_def)
qed

text \<open>A message as its sender may cut it: the first frame is binary, the others continue it.\<close>

fun fragments :: "u8 \<Rightarrow> bytes list \<Rightarrow> ws_frame list" where
  "fragments opc [] = []"
| "fragments opc [p] = [\<lparr>wf_opcode = opc, wf_fin = True, wf_payload = p\<rparr>]"
| "fragments opc (p # ps) = \<lparr>wf_opcode = opc, wf_fin = False, wf_payload = p\<rparr> # fragments 0 ps"

definition is_data :: "ws_frame \<Rightarrow> bool" where
  "is_data f \<longleftrightarrow> wf_opcode f = 0x2 \<or> wf_opcode f = 0x0"

definition pong_of :: "ws_frame \<Rightarrow> bytes" where
  "pong_of f = ws_encode 0xA (wf_payload f)"

lemma bridge_control:
  "\<not> is_data f \<Longrightarrow> wf_opcode f \<noteq> 0x8 \<Longrightarrow> \<not> br_done b \<Longrightarrow>
   bridge_one accepts f b = b\<lparr>br_pongs := br_pongs b @ (if wf_opcode f = 0x9 then [pong_of f] else [])\<rparr>"
  by (simp add: bridge_one_def is_data_def pong_of_def)

lemma bridge_pongs_aside:
  "is_data f \<Longrightarrow> bridge_one accepts f (b\<lparr>br_pongs := ps\<rparr>) = (bridge_one accepts f b)\<lparr>br_pongs := ps\<rparr>"
  by (auto simp: bridge_one_def is_data_def Let_def)

lemma bridge_fold_pongs_aside:
  "list_all is_data fs \<Longrightarrow> fold (bridge_one accepts) fs (b\<lparr>br_pongs := ps\<rparr>) = (fold (bridge_one accepts) fs b)\<lparr>br_pongs := ps\<rparr>"
  by (induction fs arbitrary: b) (simp_all add: bridge_pongs_aside)

lemma bridge_pongs_data: "is_data f \<Longrightarrow> br_pongs (bridge_one accepts f b) = br_pongs b"
  by (auto simp: bridge_one_def is_data_def Let_def)

text \<open>Control frames between the fragments only add pongs.\<close>

lemma bridge_fold_control:
  assumes "list_all (\<lambda>f. wf_opcode f \<noteq> 0x8) fs" and "\<not> br_done (fold (bridge_one accepts) (filter is_data fs) b)"
  shows "fold (bridge_one accepts) fs b =
    (fold (bridge_one accepts) (filter is_data fs) b)\<lparr>br_pongs := br_pongs b @ map pong_of (filter (\<lambda>f. wf_opcode f = 0x9) fs)\<rparr>"
  using assms
proof (induction fs arbitrary: b)
  case Nil
  then show ?case by simp
next
  case (Cons f fs)
  show ?case
  proof (cases "is_data f")
    case True
    then have "wf_opcode f \<noteq> 0x9" by (auto simp: is_data_def)
    then show ?thesis using Cons True by (simp add: bridge_pongs_data)
  next
    case False
    let ?ps = "br_pongs b @ (if wf_opcode f = 0x9 then [pong_of f] else [])"
    have alive: "\<not> br_done b"
      using Cons.prems(2) False bridge_done_stays [of b accepts "filter is_data fs"] by auto
    have aside: "fold (bridge_one accepts) (filter is_data fs) (b\<lparr>br_pongs := ?ps\<rparr>) =
        (fold (bridge_one accepts) (filter is_data fs) b)\<lparr>br_pongs := ?ps\<rparr>"
      by (rule bridge_fold_pongs_aside) (simp add: list_all_iff)
    have "fold (bridge_one accepts) fs (b\<lparr>br_pongs := ?ps\<rparr>) =
        (fold (bridge_one accepts) (filter is_data fs) (b\<lparr>br_pongs := ?ps\<rparr>))\<lparr>br_pongs := ?ps @ map pong_of (filter (\<lambda>f. wf_opcode f = 0x9) fs)\<rparr>"
      using Cons.IH [of "b\<lparr>br_pongs := ?ps\<rparr>"] Cons.prems False aside by simp
    then show ?thesis using Cons.prems False alive aside by (simp add: bridge_control)
  qed
qed

lemma bridge_fragments:
  assumes "ps \<noteq> []" and "opc = 0x2 \<or> opc = 0x0" and "\<not> br_done b" and "\<forall>w p. accepts w p"
    and "length (prev @ concat ps) \<le> MAX_WS_MESSAGE"
    and "br_fragment b = Some prev \<or> prev = [] \<and> br_fragment b = None"
  shows "fold (bridge_one accepts) (fragments opc ps) b =
    b\<lparr>br_fragment := None, br_out := br_out b @ [prev @ concat ps]\<rparr>"
  using assms
proof (induction opc ps arbitrary: b prev rule: fragments.induct)
  case (1 opc)
  then show ?case by simp
next
  case (2 opc p)
  then show ?case by (auto simp: bridge_one_def Let_def)
next
  case (3 opc p q ps)
  let ?f = "\<lparr>wf_opcode = opc, wf_fin = False, wf_payload = p\<rparr>"
  have step: "bridge_one accepts ?f b = b\<lparr>br_fragment := Some (prev @ p)\<rparr>"
    using "3.prems" by (auto simp: bridge_one_def Let_def)
  have "fold (bridge_one accepts) (fragments 0 (q # ps)) (b\<lparr>br_fragment := Some (prev @ p)\<rparr>) =
      b\<lparr>br_fragment := None, br_out := br_out b @ [(prev @ p) @ concat (q # ps)]\<rparr>"
    using "3.prems" by (subst "3.IH" [where prev = "prev @ p"]) simp_all
  then show ?case by (simp add: step)
qed

lemma bridge_messages:
  assumes "\<forall>w p. accepts w p"
  shows "list_all (\<lambda>ps. ps \<noteq> [] \<and> length (concat ps) \<le> MAX_WS_MESSAGE) msgs \<Longrightarrow>
   br_fragment b = None \<Longrightarrow> \<not> br_done b \<Longrightarrow>
   fold (bridge_one accepts) (concat (map (fragments 2) msgs)) b = b\<lparr>br_out := br_out b @ map concat msgs\<rparr>"
proof (induction msgs arbitrary: b)
  case Nil
  then show ?case by simp
next
  case (Cons ps msgs)
  have "fold (bridge_one accepts) (fragments 2 ps) b = b\<lparr>br_fragment := None, br_out := br_out b @ [[] @ concat ps]\<rparr>"
    using Cons.prems assms by (intro bridge_fragments) simp_all
  with Cons show ?case by simp
qed

text \<open>Whatever arrives, what is held or delivered stays within the cap.\<close>

definition bridge_capped :: "bridge \<Rightarrow> bool" where
  "bridge_capped b \<longleftrightarrow> list_all (\<lambda>m. length m \<le> MAX_WS_MESSAGE) (br_out b) \<and>
     (case br_fragment b of None \<Rightarrow> True | Some p \<Rightarrow> length p \<le> MAX_WS_MESSAGE)"

lemma bridge_one_capped: "bridge_capped b \<Longrightarrow> bridge_capped (bridge_one accepts f b)"
  by (auto simp: bridge_capped_def bridge_one_def Let_def)

lemma bridge_fold_capped: "bridge_capped b \<Longrightarrow> bridge_capped (fold (bridge_one accepts) fs b)"
  by (induction fs arbitrary: b) (simp_all add: bridge_one_capped)

lemma bridge_run_capped: "bridge_capped b \<Longrightarrow> bridge_capped (bridge_run accepts buf reads b)"
proof (induction accepts buf reads b rule: bridge_run.induct)
  case (1 accepts buf reads b)
  have ended: "bridge_capped (b\<lparr>br_done := True\<rparr>)" if "bridge_capped b" for b
    using that by (simp add: bridge_capped_def)
  show ?case
    using 1 bridge_fold_capped [OF "1.prems"] ended
    by (subst bridge_run.simps) (auto simp: Let_def split: prod.splits list.splits)
qed



text \<open>
  An oversized frame ends the bridge before the complete frames in front of it, read in the same
  round, are handled: they are lost.
\<close>

lemma oversized_drops_batch:
  "drain ws_one buf = (fs, r, Some e) \<Longrightarrow> bridge_run accepts buf reads b = b\<lparr>br_done := True\<rparr>"
  by (simp add: bridge_run.simps ws_decode_drain)

end
