(* ===== verification/Ws.thy ===== *)
theory Ws
  imports WsFrame
begin

text \<open>
  Authentication of browsers: the challenge and response of \<open>auth_phase\<close> in \<open>crates/krymux/src/ws.rs\<close>,
  its signed transcript, and the cap on connections that have not authenticated yet.

  SHA-256, ECDSA, base64, hexadecimal and JSON are fields of \<open>ws_env\<close>; the random nonces are a
  sequence, one for each challenge.  A read of the connection is a value of \<open>auth_read\<close>.

  Lemmas: acceptance goes back to a challenge of the same connection and to a signature over its
  nonce with the key whose fingerprint is listed; the transcript is an unambiguous encoding; the
  counter of unauthenticated connections equals the number of slots held under every interleaving.
\<close>

section \<open>Keys and transcripts\<close>

definition MAX_AUTH_JSON :: nat where "MAX_AUTH_JSON = 4096"
definition MAX_UNAUTH_WS_CONNS :: nat where "MAX_UNAUTH_WS_CONNS = 256"

definition P256_SPKI_PREFIX :: bytes where
  "P256_SPKI_PREFIX =
     [0x30, 0x59, 0x30, 0x13, 0x06, 0x07, 0x2a, 0x86, 0x48, 0xce, 0x3d, 0x02, 0x01, 0x06, 0x08, 0x2a,
      0x86, 0x48, 0xce, 0x3d, 0x03, 0x01, 0x07, 0x03, 0x42, 0x00]"

definition p256_spki_der :: "bytes \<Rightarrow> bytes" where
  "p256_spki_der raw_point = P256_SPKI_PREFIX @ raw_point"

record ws_env =
  we_sha256 :: "bytes \<Rightarrow> bytes"
  we_hex :: "bytes \<Rightarrow> string"
  we_unhex :: "string \<Rightarrow> bytes"
  we_b64d :: "string \<Rightarrow> bytes"
  we_b64e :: "bytes \<Rightarrow> string"
  we_ecdsa :: "bytes \<Rightarrow> bytes \<Rightarrow> bytes \<Rightarrow> bool" \<comment> \<open>key, message, signature\<close>
  we_sign :: "bytes \<Rightarrow> bytes"
  we_parse :: "bytes \<Rightarrow> (string, json) result"
  we_print :: "json \<Rightarrow> bytes"
  we_spki :: bytes \<comment> \<open>our public key\<close>

definition verify_p256 :: "ws_env \<Rightarrow> bytes \<Rightarrow> bytes \<Rightarrow> bytes \<Rightarrow> bool" where
  "verify_p256 W spki sig data =
     (let key = (if length spki = length P256_SPKI_PREFIX + 65 \<and> starts_with P256_SPKI_PREFIX spki
                 then drop (length P256_SPKI_PREFIX) spki else spki)
      in we_ecdsa W key data sig)"

definition WS_AUTH_LABEL :: bytes where
  "WS_AUTH_LABEL = map (\<lambda>c. word_of_nat (of_char c)) ''ectun-ws-auth-v1''"

definition legacy_auth_message :: "bytes \<Rightarrow> bytes \<Rightarrow> bytes" where
  "legacy_auth_message nonce_c nonce_s = nonce_c @ nonce_s"

definition transcript_bytes :: "bytes list \<Rightarrow> bytes" where
  "transcript_bytes parts = WS_AUTH_LABEL @ concat (map (\<lambda>p. u32_to_be (word_of_nat (length p)) @ p) parts)"

definition ws_auth_transcript :: "ws_env \<Rightarrow> bytes \<Rightarrow> bytes \<Rightarrow> bytes \<Rightarrow> bytes \<Rightarrow> bytes" where
  "ws_auth_transcript W client_spki server_spki client_nonce server_nonce =
     we_sha256 W (transcript_bytes [client_spki, server_spki, client_nonce, server_nonce])"

definition verify_client_sig :: "ws_env \<Rightarrow> bytes \<Rightarrow> bytes \<Rightarrow> bytes \<Rightarrow> bytes \<Rightarrow> bytes \<Rightarrow> u64 \<Rightarrow> bool" where
  "verify_client_sig W client_spki server_spki nonce_c nonce_s sig msg_v =
     (if verify_p256 W client_spki sig (ws_auth_transcript W client_spki server_spki nonce_c nonce_s) then True
      else if msg_v \<ge> 2 then False
      else verify_p256 W client_spki sig (legacy_auth_message nonce_c nonce_s))"

section \<open>The exchange\<close>

text \<open>The locals of \<open>auth_phase\<close>, with the number of challenges issued so far.\<close>

record auth_st =
  au_spki :: "bytes option"
  au_nonce_c :: "bytes option"
  au_nonce_s :: "bytes option"
  au_count :: nat

definition auth_init :: auth_st where
  "auth_init = \<lparr>au_spki = None, au_nonce_c = None, au_nonce_s = None, au_count = 0\<rparr>"

datatype auth_step = AuthMore auth_st | AuthOk | AuthErr string

definition json_str :: "json \<Rightarrow> string \<Rightarrow> string" where
  "json_str m k = unwrap_or (as_str (json_index m k)) []"

definition auth_init_msg ::
    "ws_env \<Rightarrow> string \<Rightarrow> string list \<Rightarrow> (nat \<Rightarrow> bytes) \<Rightarrow> json \<Rightarrow> auth_st \<Rightarrow> bytes list \<times> auth_step" where
  "auth_init_msg W mode fps rnd msg st =
     (let spki = we_b64d W (json_str msg ''spki'');
          nc = we_unhex W (json_str msg ''nonce'')
      in if length nc \<noteq> 32 then ([], AuthErr ''bad nonce'')
         else if mode \<noteq> ''open'' \<and> fingerprint_of_spki (we_sha256 W) (we_hex W) spki \<notin> set fps
         then ([], AuthErr ''client fingerprint not whitelisted'')
         else
           let ns = rnd (au_count st);
               negotiated = (if unwrap_or (as_u64 (json_index msg ''v'')) 1 \<ge> 2 then 2 else 1 :: u64);
               sig_s = (if negotiated \<ge> 2 then we_sign W (ws_auth_transcript W spki (we_spki W) nc ns)
                        else we_sign W (legacy_auth_message nc ns));
               challenge = JObject [(''t'', JString ''challenge''), (''v'', JPosInt negotiated), (''nonceS'', JString (we_hex W ns)),
                                    (''sigS'', JString (we_b64e W sig_s)), (''spki'', JString (we_b64e W (we_spki W)))]
           in ([ws_encode 0x1 (we_print W challenge)],
               AuthMore (st\<lparr>au_spki := Some spki, au_nonce_c := Some nc, au_nonce_s := Some ns, au_count := Suc (au_count st)\<rparr>)))"

definition auth_response_msg :: "ws_env \<Rightarrow> json \<Rightarrow> auth_st \<Rightarrow> bytes list \<times> auth_step" where
  "auth_response_msg W msg st =
     (case (au_spki st, au_nonce_c st, au_nonce_s st) of
        (Some spki, Some nc, Some ns) \<Rightarrow>
          let sig_c = we_b64d W (json_str msg ''sig'');
              msg_v = unwrap_or (as_u64 (json_index msg ''v'')) 1
          in if \<not> verify_client_sig W spki (we_spki W) nc ns sig_c msg_v then ([], AuthErr ''bad signature'')
             else ([ws_encode 0x1 (we_print W (JObject [(''t'', JString ''ok'')]))], AuthOk)
      | _ \<Rightarrow> ([], AuthErr ''protocol order''))"

definition auth_frame ::
    "ws_env \<Rightarrow> string \<Rightarrow> string list \<Rightarrow> (nat \<Rightarrow> bytes) \<Rightarrow> ws_frame \<Rightarrow> auth_st \<Rightarrow> bytes list \<times> auth_step" where
  "auth_frame W mode fps rnd f st =
     (if wf_opcode f = 0x9 then ([ws_encode 0xA (wf_payload f)], AuthMore st)
      else if wf_opcode f = 0xA then ([], AuthMore st)
      else if wf_opcode f \<noteq> 0x1 then ([], AuthErr ''binary before auth'')
      else if length (wf_payload f) > MAX_AUTH_JSON then ([], AuthErr ''auth too large'')
      else case we_parse W (wf_payload f) of
        Inl e \<Rightarrow> ([], AuthErr e)
      | Inr msg \<Rightarrow>
          let t = json_str msg ''t'' in
          if t = ''init'' then auth_init_msg W mode fps rnd msg st
          else if t = ''response'' then auth_response_msg W msg st
          else ([], AuthErr ''unknown message''))"

text \<open>One batch of frames; the first verdict ends it.\<close>

fun auth_frames ::
    "ws_env \<Rightarrow> string \<Rightarrow> string list \<Rightarrow> (nat \<Rightarrow> bytes) \<Rightarrow> ws_frame list \<Rightarrow> auth_st \<Rightarrow> bytes list \<times> auth_step" where
  "auth_frames W mode fps rnd [] st = ([], AuthMore st)"
| "auth_frames W mode fps rnd (f # fs) st =
     (case auth_frame W mode fps rnd f st of
        (w, AuthMore st') \<Rightarrow> (case auth_frames W mode fps rnd fs st' of (w', r) \<Rightarrow> (w @ w', r))
      | (w, r) \<Rightarrow> (w, r))"

datatype auth_read = AuthBytes bytes | AuthTimeout | AuthReadErr string

datatype auth_end = AuthWaiting | Authenticated bytes | AuthFailed string

text \<open>The loop: the bytes not yet decoded, and the reads still to come.\<close>

fun auth_phase ::
    "ws_env \<Rightarrow> string \<Rightarrow> string list \<Rightarrow> (nat \<Rightarrow> bytes) \<Rightarrow> bytes \<Rightarrow> auth_read list \<Rightarrow> auth_st \<Rightarrow> bytes list \<times> auth_end" where
  "auth_phase W mode fps rnd rest reads st =
     (case ws_decode rest of (frames, consumed, oversize) \<Rightarrow>
        let rest = drop consumed rest in
        if oversize then ([], AuthFailed ''oversized auth frame'')
        else case auth_frames W mode fps rnd frames st of
          (w, AuthErr e) \<Rightarrow> (w, AuthFailed e)
        | (w, AuthOk) \<Rightarrow> (w, Authenticated rest)
        | (w, AuthMore st') \<Rightarrow>
            (case reads of
               [] \<Rightarrow> (w, AuthWaiting)
             | AuthTimeout # _ \<Rightarrow> (w, AuthFailed ''auth timeout'')
             | AuthReadErr e # _ \<Rightarrow> (w, AuthFailed e)
             | AuthBytes b # rs \<Rightarrow>
                 if b = [] then (w, AuthFailed ''closed during auth'')
                 else if length (rest @ b) > MAX_WS_MESSAGE then (w, AuthFailed ''auth buffer overflow'')
                 else (case auth_phase W mode fps rnd (rest @ b) rs st' of (w', r) \<Rightarrow> (w @ w', r))))"

declare auth_phase.simps [simp del]

section \<open>Slots\<close>

text \<open>
  \<open>UnauthSlot\<close>: threads that read the counter, try to increment it with a compare-and-swap that may
  also fail spuriously, hold a slot, and drop it.
\<close>

datatype slot_pc = SlotIdle | SlotLoaded nat | SlotHeld | SlotRefused

inductive slot_step :: "nat \<times> (nat \<Rightarrow> slot_pc) \<Rightarrow> nat \<times> (nat \<Rightarrow> slot_pc) \<Rightarrow> bool" where
  load: "ts i = SlotIdle \<Longrightarrow> slot_step (c, ts) (c, ts(i := SlotLoaded c))"
| refuse: "ts i = SlotLoaded cur \<Longrightarrow> cur \<ge> MAX_UNAUTH_WS_CONNS \<Longrightarrow> slot_step (c, ts) (c, ts(i := SlotRefused))"
| swap: "ts i = SlotLoaded cur \<Longrightarrow> cur < MAX_UNAUTH_WS_CONNS \<Longrightarrow> c = cur \<Longrightarrow> slot_step (c, ts) (cur + 1, ts(i := SlotHeld))"
| retry: "ts i = SlotLoaded cur \<Longrightarrow> cur < MAX_UNAUTH_WS_CONNS \<Longrightarrow> slot_step (c, ts) (c, ts(i := SlotLoaded c))"
| release: "ts i = SlotHeld \<Longrightarrow> slot_step (c, ts) (c - 1, ts(i := SlotIdle))"

inductive slots_reachable :: "nat \<times> (nat \<Rightarrow> slot_pc) \<Rightarrow> bool" where
  start: "slots_reachable (0, \<lambda>_. SlotIdle)"
| step: "slots_reachable s \<Longrightarrow> slot_step s s' \<Longrightarrow> slots_reachable s'"

inductive_cases slot_stepE: "slot_step (c, ts) s'"

section \<open>What acceptance proves\<close>

text \<open>The message of a text frame of acceptable size, and the messages that open an exchange.\<close>

definition text_msg :: "ws_env \<Rightarrow> ws_frame \<Rightarrow> json option" where
  "text_msg W f =
     (if wf_opcode f = 0x1 \<and> length (wf_payload f) \<le> MAX_AUTH_JSON
      then (case we_parse W (wf_payload f) of Inr m \<Rightarrow> Some m | Inl _ \<Rightarrow> None) else None)"

definition is_init :: "ws_env \<Rightarrow> ws_frame \<Rightarrow> bool" where
  "is_init W f \<longleftrightarrow> (case text_msg W f of Some m \<Rightarrow> json_str m ''t'' = ''init'' | None \<Rightarrow> False)"

definition claimed_key :: "ws_env \<Rightarrow> json \<Rightarrow> bytes" where
  "claimed_key W m = we_b64d W (json_str m ''spki'')"

definition client_nonce :: "ws_env \<Rightarrow> json \<Rightarrow> bytes" where
  "client_nonce W m = we_unhex W (json_str m ''nonce'')"

definition listed :: "ws_env \<Rightarrow> string \<Rightarrow> string list \<Rightarrow> bytes \<Rightarrow> bool" where
  "listed W mode fps spki \<longleftrightarrow> mode = ''open'' \<or> fingerprint_of_spki (we_sha256 W) (we_hex W) spki \<in> set fps"

lemma auth_frame_text:
  "text_msg W f = Some m \<Longrightarrow> auth_frame W mode fps rnd f st =
     (if json_str m ''t'' = ''init'' then auth_init_msg W mode fps rnd m st
      else if json_str m ''t'' = ''response'' then auth_response_msg W m st
      else ([], AuthErr ''unknown message''))"
  by (auto simp: text_msg_def auth_frame_def Let_def split: if_splits sum.splits)

lemma auth_frame_other: "text_msg W f = None \<Longrightarrow> auth_frame W mode fps rnd f st = (w, r) \<Longrightarrow> r = AuthMore st \<or> (\<exists>e. r = AuthErr e)"
  by (auto simp: text_msg_def auth_frame_def Let_def split: if_splits sum.splits)

lemma auth_response_ends:
  "auth_response_msg W m st = (w, r) \<Longrightarrow> r = AuthOk \<or> (\<exists>e. r = AuthErr e)"
  by (auto simp: auth_response_msg_def Let_def split: option.splits if_splits)

lemma auth_frame_More:
  assumes "auth_frame W mode fps rnd f st = (w, AuthMore st')"
  shows "\<not> is_init W f \<and> st' = st \<or>
    (\<exists>m. text_msg W f = Some m \<and> is_init W f \<and> length (client_nonce W m) = 32 \<and> listed W mode fps (claimed_key W m) \<and>
       st' = st\<lparr>au_spki := Some (claimed_key W m), au_nonce_c := Some (client_nonce W m),
                au_nonce_s := Some (rnd (au_count st)), au_count := Suc (au_count st)\<rparr>)"
proof (cases "text_msg W f")
  case None
  then show ?thesis using auth_frame_other [OF None assms] by (simp add: is_init_def)
next
  case (Some m)
  have i: "is_init W f \<longleftrightarrow> json_str m ''t'' = ''init''" by (simp add: is_init_def Some)
  show ?thesis
  proof (cases "json_str m ''t'' = ''init''")
    case True
    then have "auth_init_msg W mode fps rnd m st = (w, AuthMore st')" using assms auth_frame_text [OF Some] by simp
    then show ?thesis using True i Some
      by (auto simp: auth_init_msg_def Let_def client_nonce_def claimed_key_def listed_def split: if_splits)
  next
    case False
    then show ?thesis using assms auth_frame_text [OF Some] auth_response_ends [of W m st] i
      by (auto split: if_splits)
  qed
qed

lemma auth_frame_Ok:
  assumes "auth_frame W mode fps rnd f st = (w, AuthOk)"
  obtains m spki nc ns where "text_msg W f = Some m" and "json_str m ''t'' = ''response''"
    and "au_spki st = Some spki" and "au_nonce_c st = Some nc" and "au_nonce_s st = Some ns"
    and "verify_client_sig W spki (we_spki W) nc ns (we_b64d W (json_str m ''sig'')) (unwrap_or (as_u64 (json_index m ''v'')) 1)"
proof (cases "text_msg W f")
  case None
  then show ?thesis using auth_frame_other [OF None assms] by simp
next
  case (Some m)
  have t: "json_str m ''t'' = ''response'' \<and> auth_response_msg W m st = (w, AuthOk)"
    using assms auth_frame_text [OF Some] by (auto simp: auth_init_msg_def Let_def split: if_splits)
  then show ?thesis
    using Some by (auto simp: auth_response_msg_def Let_def split: option.splits if_splits intro: that)
qed

lemma auth_frames_append:
  "auth_frames W mode fps rnd (xs @ ys) st =
     (case auth_frames W mode fps rnd xs st of
        (w, AuthMore st') \<Rightarrow> (case auth_frames W mode fps rnd ys st' of (w', r) \<Rightarrow> (w @ w', r))
      | (w, r) \<Rightarrow> (w, r))"
  by (induction xs arbitrary: st) (auto split: prod.splits auth_step.splits)

text \<open>What the state remembers: the last challenge of this connection.\<close>

definition auth_hist :: "ws_env \<Rightarrow> string \<Rightarrow> string list \<Rightarrow> (nat \<Rightarrow> bytes) \<Rightarrow> ws_frame list \<Rightarrow> auth_st \<Rightarrow> bool" where
  "auth_hist W mode fps rnd fs st \<longleftrightarrow>
     au_count st = length (filter (is_init W) fs) \<and>
     (\<forall>spki. au_spki st = Some spki \<longrightarrow>
        (\<exists>pre g mid m. fs = pre @ g # mid \<and> \<not> list_ex (is_init W) mid \<and> is_init W g \<and> text_msg W g = Some m \<and>
           spki = claimed_key W m \<and> length (client_nonce W m) = 32 \<and> listed W mode fps spki \<and>
           au_nonce_c st = Some (client_nonce W m) \<and> au_nonce_s st = Some (rnd (length (filter (is_init W) pre)))))"

lemma auth_frames_hist:
  "auth_frames W mode fps rnd fs auth_init = (w, AuthMore st) \<Longrightarrow> auth_hist W mode fps rnd fs st"
proof (induction fs arbitrary: w st rule: rev_induct)
  case Nil
  then show ?case by (auto simp: auth_hist_def auth_init_def)
next
  case (snoc f fs)
  then obtain w1 st1 w2 where a: "auth_frames W mode fps rnd fs auth_init = (w1, AuthMore st1)"
    and b: "auth_frame W mode fps rnd f st1 = (w2, AuthMore st)"
    by (auto simp: auth_frames_append split: prod.splits auth_step.splits)
  have IH: "auth_hist W mode fps rnd fs st1" using snoc.IH [OF a] .
  from auth_frame_More [OF b] show ?case
  proof (elim disjE exE conjE)
    assume n: "\<not> is_init W f" and st: "st = st1"
    have "\<exists>pre g mid m. fs @ [f] = pre @ g # mid \<and> \<not> list_ex (is_init W) mid \<and> is_init W g \<and> text_msg W g = Some m \<and>
        spki = claimed_key W m \<and> length (client_nonce W m) = 32 \<and> listed W mode fps spki \<and>
        au_nonce_c st = Some (client_nonce W m) \<and> au_nonce_s st = Some (rnd (length (filter (is_init W) pre)))"
      if s: "au_spki st = Some spki" for spki
    proof -
      obtain pre g mid m where "fs = pre @ g # mid" "\<not> list_ex (is_init W) mid" "is_init W g" "text_msg W g = Some m"
        "spki = claimed_key W m" "length (client_nonce W m) = 32" "listed W mode fps spki"
        "au_nonce_c st = Some (client_nonce W m)" "au_nonce_s st = Some (rnd (length (filter (is_init W) pre)))"
        using IH s st unfolding auth_hist_def by blast
      then show ?thesis using n by (intro exI [of _ pre] exI [of _ g] exI [of _ "mid @ [f]"] exI [of _ m]) simp
    qed
    then show ?thesis using IH n st by (simp add: auth_hist_def)
  next
    fix m
    assume m: "text_msg W f = Some m" "is_init W f" "length (client_nonce W m) = 32" "listed W mode fps (claimed_key W m)"
      "st = st1\<lparr>au_spki := Some (claimed_key W m), au_nonce_c := Some (client_nonce W m),
        au_nonce_s := Some (rnd (au_count st1)), au_count := Suc (au_count st1)\<rparr>"
    have c: "au_count st1 = length (filter (is_init W) fs)" using IH by (simp add: auth_hist_def)
    show ?thesis unfolding auth_hist_def
      using m c by (intro conjI allI impI exI [of _ fs] exI [of _ f] exI [of _ "[]"] exI [of _ m]) simp_all
  qed
qed

lemma auth_frames_Ok_split:
  "auth_frames W mode fps rnd fs st = (w, AuthOk) \<Longrightarrow>
   \<exists>pre f post w1 st' w2. fs = pre @ f # post \<and> auth_frames W mode fps rnd pre st = (w1, AuthMore st') \<and>
     auth_frame W mode fps rnd f st' = (w2, AuthOk)"
proof (induction fs arbitrary: st w)
  case (Cons f fs)
  show ?case
  proof (cases "auth_frame W mode fps rnd f st")
    case (Pair w1 r)
    show ?thesis
    proof (cases r)
      case (AuthMore st')
      then obtain w' where "auth_frames W mode fps rnd fs st' = (w', AuthOk)"
        using Cons.prems Pair by (auto split: prod.splits)
      from Cons.IH [OF this] obtain pre g post w2 st2 w3 where s: "fs = pre @ g # post"
        "auth_frames W mode fps rnd pre st' = (w2, AuthMore st2)" "auth_frame W mode fps rnd g st2 = (w3, AuthOk)" by blast
      then have "auth_frames W mode fps rnd (f # pre) st = (w1 @ w2, AuthMore st2)" using Pair AuthMore by simp
      with s show ?thesis by (metis append_Cons)
    next
      case AuthOk
      then show ?thesis using Pair by (intro exI [of _ "[]"] exI [of _ f] exI [of _ fs]) simp
    next
      case (AuthErr e)
      then show ?thesis using Cons.prems Pair by simp
    qed
  qed
qed simp

lemma auth_phase_frames:
  "auth_phase W mode fps rnd rest reads st = (w, Authenticated r) \<Longrightarrow>
   \<exists>bs more fs. reads = map AuthBytes bs @ more \<and> drain ws_one (rest @ concat bs) = (fs, r, None) \<and>
     auth_frames W mode fps rnd fs st = (w, AuthOk)"
proof (induction reads arbitrary: rest st w rule: length_induct)
  case (1 reads)
  obtain fs r1 e where d: "drain ws_one rest = (fs, r1, e)" by (metis prod_cases3)
  have e: "e = None" using "1.prems" d by (subst (asm) auth_phase.simps) (auto simp: ws_decode_drain Let_def split: option.splits)
  have drop: "drop (length rest - length r1) rest = r1" using wsf.drain_rest [OF d] .
  obtain w1 v where v: "auth_frames W mode fps rnd fs st = (w1, v)" by fastforce
  show ?case
  proof (cases v)
    case AuthOk
    then have "r = r1 \<and> w = w1"
      using "1.prems" d e drop v by (subst (asm) auth_phase.simps) (simp add: ws_decode_drain)
    then show ?thesis using d e v AuthOk by (intro exI [of _ "[]"] exI [of _ reads] exI [of _ fs]) simp
  next
    case (AuthErr x)
    then show ?thesis using "1.prems" d e v by (subst (asm) auth_phase.simps) (simp add: ws_decode_drain)
  next
    case (AuthMore st')
    obtain b rs w2 where reads: "reads = AuthBytes b # rs" and IHp: "auth_phase W mode fps rnd (r1 @ b) rs st' = (w2, Authenticated r)"
      and w: "w = w1 @ w2" and guards: "b \<noteq> []" "\<not> MAX_WS_MESSAGE < length (r1 @ b)"
      using "1.prems" d e drop v AuthMore
      by (subst (asm) auth_phase.simps) (auto simp: ws_decode_drain split: list.splits auth_read.splits if_splits prod.splits)
    have "\<exists>bs more fs. rs = map AuthBytes bs @ more \<and> drain ws_one ((r1 @ b) @ concat bs) = (fs, r, None) \<and>
        auth_frames W mode fps rnd fs st' = (w2, AuthOk)"
      using "1.IH" [rule_format, OF _ IHp] reads by simp
    then obtain bs more fs2 where h: "rs = map AuthBytes bs @ more" "drain ws_one (r1 @ b @ concat bs) = (fs2, r, None)"
      "auth_frames W mode fps rnd fs2 st' = (w2, AuthOk)" by auto
    have "drain ws_one (rest @ concat (b # bs)) = (fs @ fs2, r, None)"
      using wsf.drain_append [of rest "b @ concat bs"] d e h(2) by simp
    moreover have "auth_frames W mode fps rnd (fs @ fs2) st = (w, AuthOk)"
      using v AuthMore h(3) w by (simp add: auth_frames_append)
    ultimately show ?thesis using reads h(1) by (intro exI [of _ "b # bs"] exI [of _ more] exI [of _ "fs @ fs2"]) simp
  qed
qed

text \<open>
  C8.  What an accepted browser has proved.  If the exchange ends with acceptance, for any bytes and
  reads, then among the frames decoded from them there is an opening message followed, with
  no other opening in between, by a response such that: the opening claims a key whose fingerprint
  is listed (or the mode is \<open>open\<close>) and a nonce of 32 bytes; and the signature of the response verifies
  under that key over the transcript of this key, our key, that nonce and the very nonce we drew for
  this opening, or over the two nonces alone when the response does not claim version 2.
  The bytes after the decoded frames are handed on to the session.
\<close>

theorem ws_auth_sound:
  assumes "auth_phase W mode fps rnd rest reads auth_init = (w, Authenticated r)"
  shows "\<exists>bs more pre g mid f post m resp. reads = map AuthBytes bs @ more \<and>
    drain ws_one (rest @ concat bs) = (pre @ g # mid @ f # post, r, None) \<and>
    is_init W g \<and> text_msg W g = Some m \<and> \<not> list_ex (is_init W) mid \<and>
    listed W mode fps (claimed_key W m) \<and> length (client_nonce W m) = 32 \<and>
    text_msg W f = Some resp \<and> json_str resp ''t'' = ''response'' \<and>
    (let ns = rnd (length (filter (is_init W) pre)); sig = we_b64d W (json_str resp ''sig'') in
       verify_p256 W (claimed_key W m) sig (ws_auth_transcript W (claimed_key W m) (we_spki W) (client_nonce W m) ns) \<or>
       unwrap_or (as_u64 (json_index resp ''v'')) 1 < 2 \<and>
       verify_p256 W (claimed_key W m) sig (legacy_auth_message (client_nonce W m) ns))"
proof -
  obtain bs more fs where reads: "reads = map AuthBytes bs @ more" and d: "drain ws_one (rest @ concat bs) = (fs, r, None)"
    and ok: "auth_frames W mode fps rnd fs auth_init = (w, AuthOk)"
    using auth_phase_frames [OF assms] by blast
  obtain before f post w1 st w2 where fs: "fs = before @ f # post"
    and more: "auth_frames W mode fps rnd before auth_init = (w1, AuthMore st)" and last: "auth_frame W mode fps rnd f st = (w2, AuthOk)"
    using auth_frames_Ok_split [OF ok] by blast
  obtain resp spki nc ns where resp: "text_msg W f = Some resp" "json_str resp ''t'' = ''response''"
    and st: "au_spki st = Some spki" "au_nonce_c st = Some nc" "au_nonce_s st = Some ns"
    and sig: "verify_client_sig W spki (we_spki W) nc ns (we_b64d W (json_str resp ''sig'')) (unwrap_or (as_u64 (json_index resp ''v'')) 1)"
    by (rule auth_frame_Ok [OF last])
  obtain pre g mid m where h: "before = pre @ g # mid" "\<not> list_ex (is_init W) mid" "is_init W g" "text_msg W g = Some m"
    "spki = claimed_key W m" "length (client_nonce W m) = 32" "listed W mode fps spki"
    "nc = client_nonce W m" "ns = rnd (length (filter (is_init W) pre))"
    using auth_frames_hist [OF more] st unfolding auth_hist_def by auto
  have v: "verify_p256 W spki (we_b64d W (json_str resp ''sig'')) (ws_auth_transcript W spki (we_spki W) nc ns) \<or>
      unwrap_or (as_u64 (json_index resp ''v'')) 1 < 2 \<and> verify_p256 W spki (we_b64d W (json_str resp ''sig'')) (legacy_auth_message nc ns)"
    using sig by (auto simp: verify_client_sig_def not_le split: if_splits)
  show ?thesis unfolding Let_def
    using reads d fs h(1-4) h(6) h(7) [unfolded h(5)] resp v [unfolded h(5,8,9)]
    by (intro exI [of _ bs] exI [of _ more] exI [of _ pre] exI [of _ g] exI [of _ mid] exI [of _ f] exI [of _ post]
        exI [of _ m] exI [of _ resp]) simp
qed

definition demo_ws :: ws_env where
  "demo_ws = \<lparr>we_sha256 = id, we_hex = (\<lambda>_. ''ab''), we_unhex = (\<lambda>_. replicate 32 1), we_b64d = (\<lambda>_. [5]), we_b64e = (\<lambda>_. []),
     we_ecdsa = (\<lambda>key data sig. key = [5] \<and> sig = [5] \<and> length data = 64), we_sign = id,
     we_parse = (\<lambda>b. if b = [1] then Ok (JObject [(''t'', JString ''init'')]) else Ok (JObject [(''t'', JString ''response'')])),
     we_print = (\<lambda>_. []), we_spki = [6]\<rparr>"

definition demo_text :: "byte \<Rightarrow> ws_frame" where
  "demo_text b = \<lparr>wf_opcode = 1, wf_fin = True, wf_payload = [b]\<rparr>"

lemma demo_text_wire: "ws_wire [] (demo_text b) = [0x81, 1, b]" "ws_sendable (demo_text b)"
  by (simp_all add: demo_text_def ws_wire_def ws_length_bytes_def ws_sendable_def MAX_WS_MESSAGE_def)

lemma demo_texts:
  "drain ws_one [0x81, 1, 1] = ([demo_text 1], [], None)"
  "drain ws_one [0x81, 1, 2, 9] = ([demo_text 2], [9], None)"
proof -
  show "drain ws_one [0x81, 1, 1] = ([demo_text 1], [], None)"
    using ws.drain_roundtrip [of "[demo_text 1]"] by (simp add: demo_text_wire)
  have "drain ws_one [9] = ([], [9], None)" by (rule drain_Need) (simp add: ws_one_def)
  then show "drain ws_one [0x81, 1, 2, 9] = ([demo_text 2], [9], None)"
    using ws.drain_encoded [of "[demo_text 2]" "[9]"] by (simp add: demo_text_wire)
qed

lemma demo_auth_frames:
  "auth_frame demo_ws ''whitelist'' [''sha256:ab''] (\<lambda>_. replicate 32 2) (demo_text 1) auth_init =
     ([[0x81, 0]], AuthMore \<lparr>au_spki = Some [5], au_nonce_c = Some (replicate 32 1), au_nonce_s = Some (replicate 32 2), au_count = Suc 0\<rparr>)"
  "auth_frame demo_ws ''whitelist'' [''sha256:ab''] (\<lambda>_. replicate 32 2) (demo_text 2)
     \<lparr>au_spki = Some [5], au_nonce_c = Some (replicate 32 1), au_nonce_s = Some (replicate 32 2), au_count = Suc 0\<rparr> = ([[0x81, 0]], AuthOk)"
  by (simp_all add: demo_text_def auth_frame_def MAX_AUTH_JSON_def demo_ws_def json_str_def json_index_def auth_init_msg_def auth_init_def
      fingerprint_of_spki_def ws_encode_def ws_length_bytes_def auth_response_msg_def verify_client_sig_def verify_p256_def
      P256_SPKI_PREFIX_def legacy_auth_message_def Let_def word_le_nat_alt)

lemma demo_ws_accepts:
  "auth_phase demo_ws ''whitelist'' [''sha256:ab''] (\<lambda>_. replicate 32 2) [] [AuthBytes [0x81, 1, 1], AuthBytes [0x81, 1, 2, 9]] auth_init =
     ([[0x81, 0], [0x81, 0]], Authenticated [9])"
  by (subst auth_phase.simps, simp add: ws_decode_drain drain_Need ws.dec_nil MAX_WS_MESSAGE_def,
      subst auth_phase.simps, simp add: ws_decode_drain demo_texts demo_auth_frames MAX_WS_MESSAGE_def,
      subst auth_phase.simps, simp add: ws_decode_drain demo_texts demo_auth_frames)

theorem ws_auth_sound_witness:
  "\<exists>m. listed demo_ws ''whitelist'' [''sha256:ab''] (claimed_key demo_ws m) \<and> length (client_nonce demo_ws m) = 32"
  using ws_auth_sound [OF demo_ws_accepts] by blast

text \<open>
  Frames that arrive in one read with the accepted response are decoded and then dropped: the bytes
  handed on begin after them.
\<close>

lemma frames_after_response_lost:
  "auth_frame W mode fps rnd f st = (w, AuthOk) \<Longrightarrow> drain ws_one buf = (f # lost, r, None) \<Longrightarrow>
   auth_phase W mode fps rnd buf reads st = (w, Authenticated r)"
  by (subst auth_phase.simps) (simp add: ws_decode_drain wsf.drain_rest Let_def)

section \<open>The transcript\<close>

lemma length_prefixed_inject:
  assumes "length p < 4294967296" and "length q < 4294967296"
    and "u32_to_be (word_of_nat (length p)) @ p @ xs = u32_to_be (word_of_nat (length q)) @ q @ ys"
  shows "p = q \<and> xs = ys"
proof -
  have "u32_to_be (word_of_nat (length p)) = u32_to_be (word_of_nat (length q))" and r: "p @ xs = q @ ys"
    using assms(3) by (simp_all add: append_eq_append_conv)
  then have "length p = length q" by (metis assms(1,2) u32_len_from_to)
  with r show ?thesis by simp
qed

lemma transcript_inject:
  "list_all (\<lambda>p. length p < 4294967296) ps \<Longrightarrow> list_all (\<lambda>p. length p < 4294967296) qs \<Longrightarrow> length ps = length qs \<Longrightarrow>
   transcript_bytes ps = transcript_bytes qs \<Longrightarrow> ps = qs"
proof (induction ps arbitrary: qs)
  case Nil
  then show ?case by simp
next
  case (Cons p ps)
  then obtain q qs' where qs: "qs = q # qs'" by (cases qs) auto
  have "u32_to_be (word_of_nat (length p)) @ p @ concat (map (\<lambda>p. u32_to_be (word_of_nat (length p)) @ p) ps) =
      u32_to_be (word_of_nat (length q)) @ q @ concat (map (\<lambda>p. u32_to_be (word_of_nat (length p)) @ p) qs')"
    using Cons.prems(4) by (simp only: transcript_bytes_def qs list.map concat.simps append_assoc same_append_eq)
  then have "p = q \<and> concat (map (\<lambda>p. u32_to_be (word_of_nat (length p)) @ p) ps) = concat (map (\<lambda>p. u32_to_be (word_of_nat (length p)) @ p) qs')"
    using Cons.prems(1,2) qs by (intro length_prefixed_inject) simp_all
  then have "p = q" and "transcript_bytes ps = transcript_bytes qs'" by (auto simp: transcript_bytes_def)
  moreover have "ps = qs'" using Cons.IH [of qs'] Cons.prems(1-3) calculation(2) by (simp add: qs)
  ultimately show ?case by (simp add: qs)
qed

text \<open>
  The transcript binds.  If SHA-256 does not collide on the two transcripts, a signature over
  one transcript is over another only when both keys and both nonces are the same; and, the
  digest having 32 bytes, it is never over the nonces alone.
\<close>

theorem transcript_binds:
  assumes "list_all (\<lambda>p. length p < 2 ^ 32) [a, b, c, d, a', b', c', d']"
    and "inj_on (we_sha256 W) {transcript_bytes [a, b, c, d], transcript_bytes [a', b', c', d']}"
    and "length (we_sha256 W (transcript_bytes [a, b, c, d])) = 32" and "length nc = 32" and "length ns = 32"
  shows "(ws_auth_transcript W a b c d = ws_auth_transcript W a' b' c' d' \<longleftrightarrow> a = a' \<and> b = b' \<and> c = c' \<and> d = d') \<and>
    ws_auth_transcript W a b c d \<noteq> legacy_auth_message nc ns"
proof
  show "ws_auth_transcript W a b c d = ws_auth_transcript W a' b' c' d' \<longleftrightarrow> a = a' \<and> b = b' \<and> c = c' \<and> d = d'"
  proof
    assume "ws_auth_transcript W a b c d = ws_auth_transcript W a' b' c' d'"
    then have "transcript_bytes [a, b, c, d] = transcript_bytes [a', b', c', d']"
      unfolding ws_auth_transcript_def by (rule inj_onD [OF assms(2)]) (simp_all only: insertI1 insertI2)
    then have "[a, b, c, d] = [a', b', c', d']"
      using assms(1) by (intro transcript_inject) simp_all
    then show "a = a' \<and> b = b' \<and> c = c' \<and> d = d'" by simp
  qed simp
  have "length (legacy_auth_message nc ns) = 64" using assms(4,5) by (simp add: legacy_auth_message_def)
  then show "ws_auth_transcript W a b c d \<noteq> legacy_auth_message nc ns"
    using assms(3) by (auto simp: ws_auth_transcript_def)
qed

theorem transcript_binds_witness:
  "ws_auth_transcript (demo_ws\<lparr>we_sha256 := \<lambda>b. take 32 (drop 4 b)\<rparr>) [1] [2] [3] [4] \<noteq> legacy_auth_message (replicate 32 1) (replicate 32 2)"
proof -
  have "length (transcript_bytes [[1], [2], [3], [4]]) = 36"
    by (simp add: transcript_bytes_def WS_AUTH_LABEL_def)
  then show ?thesis
    using transcript_binds [of "[1]" "[2]" "[3]" "[4]" "[1]" "[2]" "[3]" "[4]" "demo_ws\<lparr>we_sha256 := \<lambda>b. take 32 (drop 4 b)\<rparr>"
        "replicate 32 1" "replicate 32 2"]
    by simp
qed

section \<open>Unauthenticated connections\<close>

definition held :: "(nat \<Rightarrow> slot_pc) \<Rightarrow> nat set" where
  "held ts = {i. ts i = SlotHeld}"

lemma held_upd:
  "held (ts(i := SlotHeld)) = insert i (held ts)"
  "v \<noteq> SlotHeld \<Longrightarrow> held (ts(i := v)) = held ts - {i}"
  by (auto simp: held_def)

lemma held_iff: "i \<in> held ts \<longleftrightarrow> ts i = SlotHeld"
  by (simp add: held_def)

lemma slots_inv:
  "slots_reachable s \<Longrightarrow> finite (held (snd s)) \<and> fst s = card (held (snd s)) \<and> fst s \<le> MAX_UNAUTH_WS_CONNS"
proof (induction rule: slots_reachable.induct)
  case start
  then show ?case by (simp add: held_def)
next
  case (step s s')
  obtain c ts where s: "s = (c, ts)" by fastforce
  from step.hyps(2) [unfolded s] show ?case
    using step.IH unfolding s
    by (elim slot_stepE) (auto simp: held_upd held_iff card_insert_if card_Diff_singleton_if simp del: fun_upd_apply)
qed

text \<open>
  C27.  The cap on unauthenticated connections holds under every interleaving of any number of
  connections, spurious failures of the compare-and-swap included: the counter always equals the
  number of slots held, which is at most 256; and a connection is only refused after it has seen
  the counter at the cap.
\<close>

theorem unauth_slots_bounded:
  assumes "slots_reachable (c, ts)"
  shows "c = card {i. ts i = SlotHeld} \<and> c \<le> 256 \<and>
    (\<forall>c' ts' i. slot_step (c, ts) (c', ts') \<and> ts i \<noteq> SlotRefused \<and> ts' i = SlotRefused \<longrightarrow>
       (\<exists>cur. ts i = SlotLoaded cur \<and> 256 \<le> cur))"
proof (intro conjI allI impI)
  show "c = card {i. ts i = SlotHeld}" "c \<le> 256" using slots_inv [OF assms] by (simp_all add: MAX_UNAUTH_WS_CONNS_def held_def)
  fix c' ts' i
  assume "slot_step (c, ts) (c', ts') \<and> ts i \<noteq> SlotRefused \<and> ts' i = SlotRefused"
  then show "\<exists>cur. ts i = SlotLoaded cur \<and> 256 \<le> cur"
    by (auto elim!: slot_stepE simp: MAX_UNAUTH_WS_CONNS_def split: if_splits)
qed

theorem unauth_slots_bounded_witness: "card {i :: nat. ((\<lambda>_. SlotIdle)(0 := SlotHeld)) i = SlotHeld} = 1"
proof -
  have "slots_reachable (0, (\<lambda>_. SlotIdle)(0 := SlotLoaded 0))"
    using slots_reachable.step [OF slots_reachable.start slot_step.load, of 0] by simp
  then have "slots_reachable (0 + 1, ((\<lambda>_. SlotIdle)(0 := SlotLoaded 0))(0 := SlotHeld))"
    by (rule slots_reachable.step) (rule slot_step.swap, simp_all add: MAX_UNAUTH_WS_CONNS_def)
  then have "slots_reachable (1, (\<lambda>_. SlotIdle)(0 := SlotHeld))" by simp
  from unauth_slots_bounded [OF this] show ?thesis by simp
qed

end
