(* ===== verification/WsHttp.thy ===== *)
theory WsHttp
  imports Http Ws
begin

text \<open>
  The browser front around the authentication: \<open>handle_http_or_ws\<close>, \<open>serve_static\<close> and \<open>write_http\<close> of
  \<open>crates/krymux/src/ws.rs\<close>, and the task that writes a session to the browser.

  SHA-1 and the embedded browser module are parameters (\<open>front_env\<close>).  The reads of the connection are
  a list; \<open>tail\<close> says how the reads of the authentication end (a timeout, an error).

  Lemmas: a head is read the same whatever its cuts, and no byte after it is lost; what the browser decodes
  from the writer task is the session's output, in order.
\<close>

section \<open>Pages\<close>

record front_env =
  fe_sha1 :: "bytes \<Rightarrow> bytes"
  fe_sdk :: bytes
  fe_fingerprint :: string

definition WS_GUID :: string where "WS_GUID = ''258EAFA5-E914-47DA-95CA-C5AB0DC85B11''"

definition ws_accept_key :: "ws_env \<Rightarrow> front_env \<Rightarrow> string \<Rightarrow> string" where
  "ws_accept_key W F client_key = we_b64e W (fe_sha1 F (str_bytes client_key @ str_bytes WS_GUID))"

definition SDK_PLACEHOLDER_PREFIX :: bytes where
  "SDK_PLACEHOLDER_PREFIX = str_bytes ''// ectun-browser placeholder''"

definition sdk_is_placeholder :: "front_env \<Rightarrow> bool" where
  "sdk_is_placeholder F = starts_with SDK_PLACEHOLDER_PREFIX (fe_sdk F)"

definition launcher_page :: "front_env \<Rightarrow> string" where
  "launcher_page F =
     (let nl = [CHR 0x0A];
          sdk_note =
            (if sdk_is_placeholder F
             then ''The browser SDK was not found at build time (<code>browser/ectun-browser.mjs</code> is '' @
                  ''missing from this repository): <code>/sdk/ectun-browser.mjs</code> currently serves a '' @
                  ''placeholder. Restore that file and rebuild.''
             else ''The browser SDK is built into this binary: <code>/sdk/ectun-browser.mjs</code>'')
      in ''<!doctype html>'' @ nl @
         ''<html lang=\"en\"><head><meta charset=\"utf-8\"><title>krymux (Rust)</title>'' @ nl @
         ''<style>body{font:14px/1.6 system-ui,sans-serif;max-width:720px;margin:40px auto;padding:0 16px}'' @
         ''pre{background:#f4f4f4;padding:12px;border-radius:4px;font-size:12px}</style>'' @ nl @
         ''</head><body>'' @ nl @
         ''<h2>krymux browser access (Rust server)</h2>'' @ nl @
         ''<p>Browser WebSocket access is enabled on this server. Server WS fingerprint:</p>'' @ nl @
         ''<pre>'' @ fe_fingerprint F @ ''</pre>'' @ nl @
         ''<p>'' @ sdk_note @ ''</p>'' @ nl @
         ''</body></html>'')"

definition write_http :: "string \<Rightarrow> string \<Rightarrow> bytes \<Rightarrow> bytes" where
  "write_http status ct body =
     str_bytes (''HTTP/1.1 '' @ status @ CRLF @ ''Content-Type: '' @ ct @ CRLF @ ''Content-Length: '' @ show_nat (length body) @ CRLF @
       ''Cache-Control: no-store'' @ CRLF @ CRLF) @ body"

definition serve_static :: "front_env \<Rightarrow> string \<Rightarrow> bytes" where
  "serve_static F req_line =
     (let path = (case split_where (\<lambda>c. c = CHR '' '') req_line of _ # p # _ \<Rightarrow> p | _ \<Rightarrow> ''/'');
          path = hd (split_where (\<lambda>c. c = CHR ''?'') path)
      in if path = ''/'' then write_http ''200 OK'' ''text/html; charset=utf-8'' (str_bytes (launcher_page F))
         else if path = ''/sdk/ectun-browser.mjs'' then write_http ''200 OK'' ''text/javascript; charset=utf-8'' (fe_sdk F)
         else write_http ''404 Not Found'' ''text/plain'' (str_bytes (''not found'' @ [CHR 0x0A])))"

section \<open>The handler\<close>

datatype ws_outcome =
    WsWaiting
  | WsErr string
  | WsStatic
  | WsSession bytes

text \<open>
  The writes to the connection and the outcome; a session gets the bytes already read after the
  authentication.  \<open>slot\<close> says whether \<open>UnauthSlot::try_acquire\<close> granted a slot.
\<close>

definition handle_http_or_ws ::
    "ws_env \<Rightarrow> front_env \<Rightarrow> string \<Rightarrow> string list \<Rightarrow> (nat \<Rightarrow> bytes) \<Rightarrow> bool \<Rightarrow> bytes list \<Rightarrow> auth_read list \<Rightarrow> bytes list \<times> ws_outcome" where
  "handle_http_or_ws W F mode fps rnd slot reads tail =
     (case read_ws_head [] reads of
        (HeadWaiting, _) \<Rightarrow> ([], WsWaiting)
      | (HeadClosed, _) \<Rightarrow> ([], WsErr ''closed before headers'')
      | (HeadFlood, _) \<Rightarrow> ([], WsErr ''header flood'')
      | (HeadDone head, rs) \<Rightarrow>
          let upgrade = unwrap_or (map_option (\<lambda>v. to_lowercase v = ''websocket'') (header head ''upgrade'')) False in
          if \<not> upgrade then ([serve_static F (hh_req_line head)], WsStatic)
          else case header head ''sec-websocket-key'' of
            None \<Rightarrow> ([], WsErr ''no ws key'')
          | Some key \<Rightarrow>
              if \<not> slot then
                ([write_http ''503 Service Unavailable'' ''text/plain''
                    (str_bytes (''too many concurrent websocket auth attempts'' @ [CHR 0x0A]))],
                 WsErr ''unauthenticated ws connection cap reached'')
              else
                let response = str_bytes (''HTTP/1.1 101 Switching Protocols'' @ CRLF @ ''Upgrade: websocket'' @ CRLF @
                      ''Connection: Upgrade'' @ CRLF @ ''Sec-WebSocket-Accept: '' @ ws_accept_key W F key @ CRLF @ CRLF)
                in case auth_phase W mode fps rnd (hh_rest head) (map AuthBytes rs @ tail) auth_init of
                     (w, AuthWaiting) \<Rightarrow> (response # w, WsWaiting)
                   | (w, AuthFailed e) \<Rightarrow> (response # w, WsErr e)
                   | (w, Authenticated rest) \<Rightarrow> (response # w, WsSession rest))"

text \<open>The task from session to WebSocket: what its \<open>select\<close> yields, one after the other.\<close>

datatype bw_event = BwPong bytes | BwPongsClosed | BwRead bytes

fun ws_writer :: "(bytes list \<Rightarrow> bytes \<Rightarrow> bool) \<Rightarrow> bool \<Rightarrow> bytes list \<Rightarrow> bw_event list \<Rightarrow> bytes list \<times> bool" where
  "ws_writer accepts pongs_open w [] = (w, False)"
| "ws_writer accepts pongs_open w (BwPong f # es) =
     (if \<not> pongs_open then ws_writer accepts pongs_open w es
      else if accepts w f then ws_writer accepts pongs_open (w @ [f]) es else (w, True))"
| "ws_writer accepts pongs_open w (BwPongsClosed # es) = ws_writer accepts False w es"
| "ws_writer accepts pongs_open w (BwRead b # es) =
     (if b = [] then (w, True)
      else if accepts w (ws_encode 0x2 b) then ws_writer accepts pongs_open (w @ [ws_encode 0x2 b]) es else (w, True))"

section \<open>Reading the head\<close>

lemma parse_http_head_text:
  assumes "acc = str_bytes (http_text (line # ls)) @ rest" and "list_all head_line (line # ls)"
  shows "parse_http_head acc = Some \<lparr>hh_req_line = line, hh_headers = filter_map header_of ls, hh_rest = rest\<rparr>"
  using head_end_text [OF assms(2), of rest] http_request_text [OF assms] by (simp add: parse_http_head_def assms(1))

lemma parse_http_head_early:
  assumes "acc @ later = str_bytes (http_text ls) @ rest" and "list_all head_line ls" and "ls \<noteq> []"
    and "length acc < length (http_text ls)"
  shows "parse_http_head acc = None"
proof -
  have "find_head_end (acc @ later) = Some (length (join CRLF ls))" using head_end_text [OF assms(2,3)] assms(1) by simp
  then have "find_head_end acc = None" using assms(4) head_found_prefix [of acc later "length (join CRLF ls)"] by (auto simp: http_text_def split: if_splits)
  then show ?thesis by (simp add: parse_http_head_def)
qed

lemma read_ws_head_text:
  assumes "acc @ concat rs = str_bytes (http_text (line # ls)) @ body" and "list_all head_line (line # ls)"
    and "length acc < length (http_text (line # ls))" and "[] \<notin> set rs" and "length (acc @ concat rs) \<le> MAX_HEADER"
  shows "\<exists>rest rs'. rest @ concat rs' = body \<and>
    read_ws_head acc rs = (HeadDone \<lparr>hh_req_line = line, hh_headers = filter_map header_of ls, hh_rest = rest\<rparr>, rs')"
  using assms
proof (induction rs arbitrary: acc)
  case Nil
  then have "length acc = length (str_bytes (http_text (line # ls)) @ body)" by simp
  with Nil.prems(3) show ?case by simp
next
  case (Cons r rs)
  show ?case
  proof (cases "length (acc @ r) < length (http_text (line # ls))")
    case True
    then have "parse_http_head (acc @ r) = None" using Cons.prems by (intro parse_http_head_early [where later = "concat rs"]) auto
    then show ?thesis using Cons.IH [of "acc @ r"] Cons.prems True by auto
  next
    case False
    then obtain rest where "acc @ r = str_bytes (http_text (line # ls)) @ rest" "rest @ concat rs = body"
      using append_longer [of "acc @ r" "concat rs" "str_bytes (http_text (line # ls))" body] Cons.prems by auto
    then show ?thesis using parse_http_head_text [of "acc @ r" line ls rest] Cons.prems by auto
  qed
qed

text \<open>Header lines from names and values.\<close>

definition show_header :: "string \<times> string \<Rightarrow> string" where
  "show_header h = fst h @ '': '' @ snd h"

definition header_ok :: "string \<times> string \<Rightarrow> bool" where
  "header_ok h \<longleftrightarrow> word (fst h) \<and> CHR '':'' \<notin> set (fst h) \<and> list_all head_char (fst h @ snd h) \<and> trim (snd h) = snd h"

lemma trim_word: "word n \<Longrightarrow> trim n = n"
proof -
  assume n: "word n"
  then have "dropWhile is_whitespace n = n" "dropWhile is_whitespace (rev n) = rev n"
    by (auto simp: word_def list_all_iff dropWhile_eq_self_iff hd_rev)
  then show ?thesis by (simp add: trim_def)
qed

lemma header_of_show: "header_ok h \<Longrightarrow> header_of (show_header h) = Some (to_lowercase (fst h), snd h)"
proof -
  assume h: "header_ok h"
  have "find_char (CHR '':'') (show_header h) = Some (length (fst h))"
    using h find_char_append [of "CHR '':''" "fst h"] by (simp add: show_header_def header_ok_def)
  moreover have "trim (CHR '' '' # snd h) = snd h" using h by (simp add: header_ok_def trim_def is_whitespace_def)
  ultimately show ?thesis using h by (simp add: header_of_def show_header_def header_ok_def trim_word)
qed

lemma headers_of_show: "list_all header_ok hs \<Longrightarrow> filter_map header_of (map show_header hs) = map (apfst to_lowercase) hs"
  by (induction hs) (auto simp: header_of_show)

lemma show_header_line: "header_ok h \<Longrightarrow> head_line (show_header h)"
  by (auto simp: header_ok_def head_line_def show_header_def head_char_def)

text \<open>
  C31.  However the browser's request is cut into reads, it is answered by its headers: without
  \<open>Upgrade: websocket\<close> (names and value in any case) it gets the page of its path, and with it and a key, when a slot is
  free, the switching response with the accept key for that key; the authentication then works on exactly
  the bytes that follow the head.  Without a key or a slot no session follows.
\<close>

theorem upgrade_answered:
  assumes "head_line line" and "list_all header_ok hs" and "[] \<notin> set rs"
    and "concat rs = str_bytes (http_text (line # map show_header hs)) @ body" and "length (concat rs) \<le> MAX_HEADER"
  shows "\<exists>rest rs'. rest @ concat rs' = body \<and> handle_http_or_ws W F mode fps rnd slot rs tail =
    (let field = map_of (map (apfst to_lowercase) hs) in
     if map_option to_lowercase (field ''upgrade'') \<noteq> Some ''websocket'' then ([serve_static F line], WsStatic)
     else case field ''sec-websocket-key'' of
       None \<Rightarrow> ([], WsErr ''no ws key'')
     | Some key \<Rightarrow>
         if slot then
           (case auth_phase W mode fps rnd rest (map AuthBytes rs' @ tail) auth_init of (w, e) \<Rightarrow>
              (str_bytes (http_text [''HTTP/1.1 101 Switching Protocols'', ''Upgrade: websocket'', ''Connection: Upgrade'',
                 ''Sec-WebSocket-Accept: '' @ ws_accept_key W F key]) # w,
               case e of AuthWaiting \<Rightarrow> WsWaiting | AuthFailed m \<Rightarrow> WsErr m | Authenticated r \<Rightarrow> WsSession r))
         else ([write_http ''503 Service Unavailable'' ''text/plain''
                 (str_bytes (''too many concurrent websocket auth attempts'' @ [CHR 0x0A]))],
               WsErr ''unauthenticated ws connection cap reached''))"
proof -
  have lines: "list_all head_line (line # map show_header hs)"
    using assms(1,2) show_header_line by (auto simp: list_all_iff)
  obtain rest rs' where rest: "rest @ concat rs' = body"
    and read: "read_ws_head [] rs = (HeadDone \<lparr>hh_req_line = line, hh_headers = map (apfst to_lowercase) hs, hh_rest = rest\<rparr>, rs')"
    using read_ws_head_text [of "[]" rs line "map show_header hs" body] assms(3-5) lines headers_of_show [OF assms(2)]
    by (auto simp: http_text_def)
  show ?thesis
    by (intro exI [of _ rest] exI [of _ rs'] conjI rest, cases "map_of (map (apfst to_lowercase) hs) ''upgrade''";
        cases "map_of (map (apfst to_lowercase) hs) ''sec-websocket-key''")
      (simp_all add: handle_http_or_ws_def read header_def http_text_def split: prod.split auth_end.split)
qed

theorem upgrade_answered_witness:
  "handle_http_or_ws demo_ws \<lparr>fe_sha1 = id, fe_sdk = [], fe_fingerprint = []\<rparr> ''whitelist'' [] (\<lambda>_. []) False
      [str_bytes ''GET / HTTP/1.1'', str_bytes (CRLF @ ''UPGRADE: WebSocket'' @ CRLF @ ''Sec-WebSocket-Key: k'' @ CRLF @ CRLF) @ [0x81]] [] =
    ([write_http ''503 Service Unavailable'' ''text/plain'' (str_bytes (''too many concurrent websocket auth attempts'' @ [CHR 0x0A]))],
     WsErr ''unauthenticated ws connection cap reached'')"
proof -
  let ?hs = "[(''UPGRADE'', ''WebSocket''), (''Sec-WebSocket-Key'', ''k'')]"
  have hs: "list_all header_ok ?hs" by code_simp
  have line: "head_line ''GET / HTTP/1.1''" by code_simp
  have field: "map (apfst to_lowercase) ?hs = [(''upgrade'', ''WebSocket''), (''sec-websocket-key'', ''k'')]" by code_simp
  have low: "to_lowercase ''WebSocket'' = ''websocket''" by code_simp
  show ?thesis
    using upgrade_answered [OF line hs, of "[str_bytes ''GET / HTTP/1.1'',
        str_bytes (CRLF @ ''UPGRADE: WebSocket'' @ CRLF @ ''Sec-WebSocket-Key: k'' @ CRLF @ CRLF) @ [0x81]]" "[0x81]"
      demo_ws "\<lparr>fe_sha1 = id, fe_sdk = [], fe_fingerprint = []\<rparr>" "''whitelist''" "[]" "\<lambda>_. []" False "[]"]
    unfolding field by (simp add: low http_text_def show_header_def str_bytes_def MAX_HEADER_def)
qed

section \<open>What the browser reads\<close>

text \<open>The frames the task is to send: pongs that came through the channel and output of the session.\<close>

definition bw_of_frame :: "ws_frame \<Rightarrow> bw_event" where
  "bw_of_frame f = (if wf_opcode f = 0x2 then BwRead (wf_payload f) else BwPong (ws_encode 0xA (wf_payload f)))"

definition bw_data :: "ws_frame \<Rightarrow> bool" where
  "bw_data f \<longleftrightarrow> wf_opcode f = 0x2 \<and> wf_fin f \<and> wf_payload f \<noteq> [] \<and> length (wf_payload f) \<le> 64 * 1024"

definition bw_pong :: "ws_frame \<Rightarrow> bool" where
  "bw_pong f \<longleftrightarrow> wf_opcode f = 0xA \<and> wf_fin f \<and> length (wf_payload f) \<le> MAX_WS_MESSAGE"

lemma bw_wire: "bw_data f \<Longrightarrow> ws_encode 0x2 (wf_payload f) = ws_wire [] f" "bw_pong f \<Longrightarrow> ws_encode 0xA (wf_payload f) = ws_wire [] f"
  by (simp_all add: ws_encode_def ws_wire_def bw_data_def bw_pong_def)

lemma bw_sendable: "bw_data f \<or> bw_pong f \<Longrightarrow> ws_sendable f"
  by (auto simp: bw_data_def bw_pong_def ws_sendable_def MAX_WS_MESSAGE_def)

lemma ws_writer_frames:
  assumes "list_all (\<lambda>f. bw_data f \<or> pongs_open \<and> bw_pong f) fs"
  shows "ws_writer (\<lambda>_ _. True) pongs_open w (map bw_of_frame fs @ es) = ws_writer (\<lambda>_ _. True) pongs_open (w @ map (ws_wire []) fs) es"
  using assms
proof (induction fs arbitrary: w)
  case (Cons f fs)
  then consider "bw_data f" | "bw_pong f" "pongs_open" by auto
  then show ?case
  proof cases
    case 1
    then have "bw_of_frame f = BwRead (wf_payload f)" "wf_payload f \<noteq> []" by (simp_all add: bw_of_frame_def bw_data_def)
    then show ?thesis using Cons bw_wire(1) [OF 1] by simp
  next
    case 2
    then have "bw_of_frame f = BwPong (ws_encode 0xA (wf_payload f))" by (simp add: bw_of_frame_def bw_pong_def)
    then show ?thesis using Cons 2 bw_wire(2) [OF 2(1)] by simp
  qed
qed simp

text \<open>
  While the writes succeed, what the browser decodes from the writer task, however the bytes
  are cut on the way, are exactly the session's output, each piece as one binary message, and the pongs, in
  the order in which the task took them; the channel of pongs closing does not disturb the output, and the
  task ends at the end of the session's output.
\<close>

theorem browser_reads_session:
  assumes "list_all (\<lambda>f. bw_data f \<or> bw_pong f) fs" and "list_all bw_data gs"
    and "ws_writer (\<lambda>_ _. True) True [] (map bw_of_frame fs @ BwPongsClosed # map bw_of_frame gs @ [BwRead []]) = (w, ended)"
    and "concat reads = concat w"
  shows "ended \<and> drain_reads ws_one [] reads = (fs @ gs, [], None)"
proof -
  have "w = map (ws_wire []) (fs @ gs) \<and> ended"
    using assms(1-3) ws_writer_frames [of True fs "[]"] ws_writer_frames [of False gs "map (ws_wire []) fs" "[BwRead []]"]
    by (auto simp: list_all_iff)
  moreover have "list_all ws_sendable (fs @ gs)" using assms(1,2) bw_sendable by (auto simp: list_all_iff)
  ultimately show ?thesis using ws.reads_roundtrip assms(4) by auto
qed

theorem browser_reads_session_witness:
  "drain_reads ws_one [] [[0x8a], [0, 0x82, 2, 7, 8, 0x82], [1, 9]] =
     ([\<lparr>wf_opcode = 0xA, wf_fin = True, wf_payload = []\<rparr>, \<lparr>wf_opcode = 2, wf_fin = True, wf_payload = [7, 8]\<rparr>,
       \<lparr>wf_opcode = 2, wf_fin = True, wf_payload = [9]\<rparr>], [], None)"
  using browser_reads_session [of "[\<lparr>wf_opcode = 0xA, wf_fin = True, wf_payload = []\<rparr>, \<lparr>wf_opcode = 2, wf_fin = True, wf_payload = [7, 8]\<rparr>]"
      "[\<lparr>wf_opcode = 2, wf_fin = True, wf_payload = [9]\<rparr>]" "[[0x8a, 0], [0x82, 2, 7, 8], [0x82, 1, 9]]" True
      "[[0x8a], [0, 0x82, 2, 7, 8, 0x82], [1, 9]]"]
  by (simp add: bw_data_def bw_pong_def bw_of_frame_def ws_encode_def ws_length_bytes_def)

end
