(* ===== verification/Drive.thy ===== *)
theory Drive
  imports Compress
begin

text \<open>
  The decoding loop over the Brotli library: \<open>BrotliPushDecoder::drive\<close> of \<open>crates/krymux/src/compress.rs\<close>.

  The library call is the parameter \<open>call\<close>: from the state of the decoder and the input left, how much input it
  took, what it put into the output buffer, its verdict and the new state.  Whether the loop ends depends on the
  library, so it is a partial function; \<open>makes_progress\<close> is what the library documents.

  Lemmas: the loop returns, with all that the library put out, and leaves input behind only at
  the end of the compressed stream; the size of the result is not bounded.
\<close>

datatype brotli_result = NeedsMoreOutput | NeedsMoreInput | ResultSuccess | ResultFailure

type_synonym 's brotli_call = "'s \<Rightarrow> bytes \<Rightarrow> brotli_result \<times> nat \<times> bytes \<times> 's"

partial_function (option) drive :: "'s brotli_call \<Rightarrow> 's \<Rightarrow> bytes \<Rightarrow> bytes \<Rightarrow> (io_error, bytes \<times> 's) result option" where
  "drive call s wire out =
     (case call s wire of (res, used, produced, s') \<Rightarrow>
        let wire' = drop used wire; out' = out @ produced in
        case res of
          NeedsMoreOutput \<Rightarrow> drive call s' wire' out'
        | NeedsMoreInput \<Rightarrow> if wire' \<noteq> [] \<or> produced \<noteq> [] then drive call s' wire' out' else Some (Ok (out', s'))
        | ResultSuccess \<Rightarrow> Some (Ok (out', s'))
        | ResultFailure \<Rightarrow> Some (Err (InvalidData ''brotli decode failure'')))"

definition brotli_push :: "'s brotli_call \<Rightarrow> 's \<Rightarrow> bytes \<Rightarrow> (io_error, bytes \<times> 's) result option" where
  "brotli_push call s wire = drive call s wire []"

definition brotli_finish :: "'s brotli_call \<Rightarrow> 's \<Rightarrow> (io_error, bytes \<times> 's) result option" where
  "brotli_finish call s = drive call s [] []"

text \<open>
  The library's contract: a call takes at most the input there is; one that asks for more room or that takes or
  puts out something leaves less to be put out or taken (\<open>left\<close>); one that asks for input has taken all of it.
\<close>

definition makes_progress :: "('s \<Rightarrow> bytes \<Rightarrow> nat) \<Rightarrow> 's brotli_call \<Rightarrow> bool" where
  "makes_progress left call \<longleftrightarrow>
     (\<forall>s wire res used produced s'. call s wire = (res, used, produced, s') \<longrightarrow>
        used \<le> length wire \<and>
        (res = NeedsMoreOutput \<longrightarrow> left s' (drop used wire) < left s wire) \<and>
        (res = NeedsMoreInput \<longrightarrow> drop used wire = [] \<and> (produced \<noteq> [] \<longrightarrow> left s' [] < left s wire)))"

text \<open>The calls the loop makes: what they put out, the input left, the last verdict and the state after it.\<close>

inductive calls :: "'s brotli_call \<Rightarrow> 's \<Rightarrow> bytes \<Rightarrow> bytes list \<Rightarrow> bytes \<Rightarrow> brotli_result \<Rightarrow> 's \<Rightarrow> bool" for call where
  last: "call s wire = (res, used, produced, s') \<Longrightarrow> calls call s wire [produced] (drop used wire) res s'"
| more: "call s wire = (res, used, produced, s') \<Longrightarrow> res = NeedsMoreOutput \<or> res = NeedsMoreInput \<Longrightarrow>
    calls call s' (drop used wire) outs rest res' s'' \<Longrightarrow> calls call s wire (produced # outs) rest res' s''"

lemma drive_returns:
  assumes "makes_progress left call"
  shows "\<exists>outs rest res s'. calls call s wire outs rest res s' \<and>
    (drive call s wire out = Some (Err (InvalidData ''brotli decode failure'')) \<and> res = ResultFailure \<or>
     drive call s wire out = Some (Ok (out @ concat outs, s')) \<and> (res = ResultSuccess \<or> res = NeedsMoreInput \<and> rest = [] \<and> last outs = []))"
proof (induction "left s wire" arbitrary: s wire out rule: less_induct)
  case less
  obtain res used produced s' where c: "call s wire = (res, used, produced, s')" by (metis prod_cases4)
  note contract = assms [unfolded makes_progress_def, rule_format, OF c]
  have again: ?case
    if a: "res = NeedsMoreOutput \<or> res = NeedsMoreInput" "left s' (drop used wire) < left s wire"
      "drive call s wire out = drive call s' (drop used wire) (out @ produced)"
  proof -
    obtain outs rest res' s'' where n: "calls call s' (drop used wire) outs rest res' s''"
      "drive call s' (drop used wire) (out @ produced) = Some (Err (InvalidData ''brotli decode failure'')) \<and> res' = ResultFailure \<or>
       drive call s' (drop used wire) (out @ produced) = Some (Ok ((out @ produced) @ concat outs, s'')) \<and>
         (res' = ResultSuccess \<or> res' = NeedsMoreInput \<and> rest = [] \<and> last outs = [])"
      using less [OF a(2), of "out @ produced"] by blast
    have "outs \<noteq> []" using n(1) by (cases rule: calls.cases) auto
    then show ?thesis
      using calls.more [where call = call, OF c a(1) n(1)] n(2) a(3)
      by (intro exI [of _ "produced # outs"] exI [of _ rest] exI [of _ res'] exI [of _ s'']) auto
  qed
  have one: "calls call s wire [produced] (drop used wire) res s'" using c by (intro calls.last)
  show ?case
  proof (cases res)
    case NeedsMoreOutput
    then show ?thesis using contract by (intro again) (auto simp: drive.simps [of call s wire] c)
  next
    case NeedsMoreInput
    show ?thesis
    proof (cases "produced = []")
      case True
      then show ?thesis using one NeedsMoreInput contract
        by (intro exI [of _ "[produced]"] exI [of _ "[]"] exI [of _ res] exI [of _ s']) (auto simp: drive.simps [of call s wire] c)
    next
      case False
      then show ?thesis using NeedsMoreInput contract by (intro again) (auto simp: drive.simps [of call s wire] c)
    qed
  next
    case ResultSuccess
    then show ?thesis using one
      by (intro exI [of _ "[produced]"] exI [of _ "drop used wire"] exI [of _ res] exI [of _ s']) (auto simp: drive.simps [of call s wire] c)
  next
    case ResultFailure
    then show ?thesis using one
      by (intro exI [of _ "[produced]"] exI [of _ "drop used wire"] exI [of _ res] exI [of _ s']) (auto simp: drive.simps [of call s wire] c)
  qed
qed

text \<open>
  The decoding loop ends.  With a library that makes progress, decoding a chunk always returns: an error
  exactly when the library reported one, and otherwise everything the calls put out, in order; unless
  the compressed stream has ended, all input was taken and the last call had nothing more to put out.
\<close>

theorem brotli_push_returns:
  assumes "makes_progress left call"
  shows "\<exists>outs rest res s'. calls call s wire outs rest res s' \<and>
    brotli_push call s wire = Some (if res = ResultFailure then Err (InvalidData ''brotli decode failure'') else Ok (concat outs, s')) \<and>
    (res = ResultFailure \<or> res = ResultSuccess \<or> res = NeedsMoreInput \<and> rest = [] \<and> last outs = [])"
  using drive_returns [OF assms, of s wire "[]"] unfolding brotli_push_def by (elim exE conjE disjE) auto

text \<open>A decoder of one-byte chunks: it first puts out as many zeros as its state says, one with each call.\<close>

definition demo_call :: "nat brotli_call" where
  "demo_call s wire = (if s > 0 then (NeedsMoreOutput, 0, [0], s - 1) else (NeedsMoreInput, length wire, [], 0))"

lemma demo_call_progress: "makes_progress (\<lambda>s _. s) demo_call"
  unfolding makes_progress_def demo_call_def by (auto split: if_splits)

theorem brotli_push_returns_witness:
  "\<exists>outs rest res s'. calls demo_call 3 [1] outs rest res s' \<and>
     brotli_push demo_call 3 [1] = Some (if res = ResultFailure then Err (InvalidData ''brotli decode failure'') else Ok (concat outs, s'))"
  using brotli_push_returns [OF demo_call_progress, of 3 "[1]"] by blast

text \<open>Nothing bounds the result: a chunk of one byte becomes as long as the library makes it, before its length is looked at.\<close>

lemma demo_call_simps [simp]:
  "demo_call 0 wire = (NeedsMoreInput, length wire, [], 0)"
  "demo_call (Suc n) wire = (NeedsMoreOutput, 0, [0], n)"
  by (simp_all add: demo_call_def)

lemma chunk_size_unbounded: "brotli_push demo_call n [x] = Some (Ok (replicate n 0, 0))"
proof -
  have "drive demo_call n wire out = Some (Ok (out @ replicate n 0, 0))" for wire out
  proof (induction n arbitrary: out)
    case 0
    show ?case by (subst drive.simps) simp
  next
    case (Suc n)
    show ?case by (subst drive.simps) (simp add: Suc.IH)
  qed
  then show ?thesis by (simp add: brotli_push_def)
qed

end
