(* ===== verification/Socks5.thy ===== *)
theory Socks5
  imports Codec Config
begin

text \<open>
  The SOCKS5 front: \<open>crates/krymux/src/socks5.rs\<close>.  The negotiation with a local client, the
  framing of tunnelled UDP datagrams and the relay of a UDP association.

  A \<open>read_exact\<close> on the control connection takes the next bytes of everything the client sends; the
  value \<open>SkWait\<close> stands for a client that sends no more (the read then fails at the end of the
  connection).  The datagram framing is an instance of \<open>stream_codec\<close>.

  Lemmas: what a request is answered with, on every branch; datagrams survive the framing;
  headers built for the client parse back; an association only ever talks to the client it was
  opened by.
\<close>

section \<open>Negotiation\<close>

definition HINT_UDP :: string where "HINT_UDP = ''udp''"

definition read_exact :: "nat \<Rightarrow> bytes \<Rightarrow> (bytes \<times> bytes) option" where
  "read_exact n inp = (if n \<le> length inp then Some (take n inp, drop n inp) else None)"

definition ipv4_text :: "bytes \<Rightarrow> string" where
  "ipv4_text b = join ''.'' (map (\<lambda>x. show_nat (unat x)) b)"

definition ipv6_text :: "bytes \<Rightarrow> string" where
  "ipv6_text b = join '':'' (hex_groups b)"

datatype socks_end =
    SkWait
  | SkError
  | SkDone
  | SkConnect string u16 bytes \<comment> \<open>host, port, bytes not yet read\<close>
  | SkAssociate string u16 bytes

datatype host_read = HostWait | HostBad | HostOk string bytes

text \<open>The address of a request: the match on \<open>req[3]\<close>.\<close>

definition read_host :: "u8 \<Rightarrow> bytes \<Rightarrow> host_read" where
  "read_host atyp inp =
     (if atyp = 0x01 then
        (case read_exact 4 inp of None \<Rightarrow> HostWait | Some (b, r) \<Rightarrow> HostOk (ipv4_text b) r)
      else if atyp = 0x04 then
        (case read_exact 16 inp of None \<Rightarrow> HostWait | Some (b, r) \<Rightarrow> HostOk (ipv6_text b) r)
      else if atyp = 0x03 then
        (case read_exact 1 inp of
           None \<Rightarrow> HostWait
         | Some (l, r) \<Rightarrow>
             (case read_exact (unat (l ! 0)) r of
                None \<Rightarrow> HostWait
              | Some (name, r') \<Rightarrow> HostOk (from_utf8_lossy name) r'))
      else HostBad)"

definition socks_failure :: "u8 \<Rightarrow> bytes" where
  "socks_failure code = [0x05, code, 0, 1, 0, 0, 0, 0, 0, 0]"

text \<open>The request after the greeting; the replies are what is written on the connection.\<close>

definition serve_request :: "bytes \<Rightarrow> bytes \<times> socks_end" where
  "serve_request inp =
     (case read_exact 4 inp of
        None \<Rightarrow> ([], SkWait)
      | Some (req, r) \<Rightarrow>
          if req ! 0 \<noteq> 0x05 then ([], SkError)
          else case read_host (req ! 3) r of
            HostWait \<Rightarrow> ([], SkWait)
          | HostBad \<Rightarrow> (socks_failure 0x08, SkDone)
          | HostOk host r' \<Rightarrow>
              (case read_exact 2 r' of
                 None \<Rightarrow> ([], SkWait)
               | Some (pb, r'') \<Rightarrow>
                   if req ! 1 = 0x01 then ([], SkConnect host (u16_from_be pb) r'')
                   else if req ! 1 = 0x03 then ([], SkAssociate host (u16_from_be pb) r'')
                   else (socks_failure 0x07, SkDone)))"

definition serve_socks :: "bytes \<Rightarrow> bytes \<times> socks_end" where
  "serve_socks inp =
     (case read_exact 2 inp of
        None \<Rightarrow> ([], SkWait)
      | Some (hdr, r) \<Rightarrow>
          if hdr ! 0 \<noteq> 0x05 then ([], SkError)
          else case read_exact (unat (hdr ! 1)) r of
            None \<Rightarrow> ([], SkWait)
          | Some (methods, r') \<Rightarrow>
              if 0x00 \<notin> set methods then ([0x05, 0xff], SkDone)
              else case serve_request r' of (w, e) \<Rightarrow> ([0x05, 0x00] @ w, e))"

definition socks_error_code :: "string \<Rightarrow> u8" where
  "socks_error_code e =
     (if str_contains ''unreachable'' e then 0x04 else if str_contains ''denied'' e then 0x02 else 0x01)"

text \<open>Replies of \<open>serve_connect\<close> and \<open>serve_udp_associate\<close> to the outcome of \<open>open_stream\<close> and \<open>bind\<close>.\<close>

definition serve_connect :: "(string, 's) result \<Rightarrow> bytes \<times> 's option" where
  "serve_connect opened =
     (case opened of
        Inl e \<Rightarrow> (socks_failure (socks_error_code e), None)
      | Inr s \<Rightarrow> (socks_failure 0x00, Some s))"

definition udp_target :: "string \<Rightarrow> u16 \<Rightarrow> target" where
  "udp_target host port = \<lparr>t_host = (if host = [] then None else Some host), t_port = port, t_unix = None, t_hint = HINT_UDP\<rparr>"

definition serve_udp_associate :: "(string, 's) result \<Rightarrow> u16 option \<Rightarrow> bytes \<times> 's option" where
  "serve_udp_associate opened bound =
     (case opened of
        Inl e \<Rightarrow> (socks_failure (socks_error_code e), None)
      | Inr s \<Rightarrow>
          (case bound of
             None \<Rightarrow> (socks_failure 0x01, None)
           | Some port \<Rightarrow> ([0x05, 0, 0, 0x01, 127, 0, 0, 1] @ u16_to_be port, Some s)))"

section \<open>Datagram framing\<close>

definition MAX_UDP_PAYLOAD :: nat where "MAX_UDP_PAYLOAD = 65535"

record udp_frame =
  uf_atyp :: u8
  uf_addr :: bytes
  uf_port :: u16
  uf_payload :: bytes

definition addr_wire :: "u8 \<Rightarrow> bytes \<Rightarrow> bytes" where
  "addr_wire atyp addr = (if atyp = 0x03 then [word_of_nat (length addr)] else []) @ addr"

definition encode_udp_frame :: "u8 \<Rightarrow> bytes \<Rightarrow> u16 \<Rightarrow> bytes \<Rightarrow> bytes" where
  "encode_udp_frame atyp addr port payload =
     [atyp] @ addr_wire atyp addr @ u16_to_be port @ u32_to_be (word_of_nat (length payload)) @ payload"

datatype udp_error = BadAtyp | PayloadTooLarge

text \<open>
  \<open>read_udp_frame\<close> on the bytes that have arrived: the part after an address of \<open>n\<close> bytes that
  starts at \<open>off\<close>, then the whole.
\<close>

definition udp_tail :: "u8 \<Rightarrow> nat \<Rightarrow> nat \<Rightarrow> bytes \<Rightarrow> (udp_frame, udp_error) dec_step" where
  "udp_tail atyp off n bs =
     (if length bs < off + n + 6 then Need
      else let len = be_dec (take 4 (drop (off + n + 2) bs)) in
        if len > MAX_UDP_PAYLOAD then Bad PayloadTooLarge
        else if length bs < off + n + 6 + len then Need
        else Got \<lparr>uf_atyp = atyp, uf_addr = take n (drop off bs), uf_port = u16_from_be (take 2 (drop (off + n) bs)),
                  uf_payload = take len (drop (off + n + 6) bs)\<rparr> (off + n + 6 + len))"

definition read_udp_frame :: "bytes \<Rightarrow> (udp_frame, udp_error) dec_step" where
  "read_udp_frame bs =
     (case bs of
        [] \<Rightarrow> Need
      | atyp # r \<Rightarrow>
          if atyp = 0x01 then udp_tail atyp 1 4 bs
          else if atyp = 0x04 then udp_tail atyp 1 16 bs
          else if atyp = 0x03 then (case r of [] \<Rightarrow> Need | l # _ \<Rightarrow> udp_tail atyp 2 (unat l) bs)
          else Bad BadAtyp)"

definition addr_bytes_to_host :: "u8 \<Rightarrow> bytes \<Rightarrow> string option" where
  "addr_bytes_to_host atyp addr =
     (if atyp = 0x01 \<and> length addr = 4 then Some (ipv4_text addr)
      else if atyp = 0x04 \<and> length addr = 16 then Some (ipv6_text addr)
      else if atyp = 0x03 then Some (from_utf8_lossy addr)
      else None)"

datatype ip_addr = V4 bytes | V6 bytes

fun ip_to_addr_bytes :: "ip_addr \<Rightarrow> u8 \<times> bytes" where
  "ip_to_addr_bytes (V4 b) = (0x01, b)"
| "ip_to_addr_bytes (V6 b) = (0x04, b)"

section \<open>Datagram headers of the local client\<close>

definition header_rest :: "u8 \<Rightarrow> bytes \<Rightarrow> bytes \<Rightarrow> (u8 \<times> bytes \<times> u16 \<times> bytes) option" where
  "header_rest atyp addr rest =
     (if length rest < 2 then None else Some (atyp, addr, u16_from_be (take 2 rest), drop 2 rest))"

definition parse_udp_header :: "bytes \<Rightarrow> (u8 \<times> bytes \<times> u16 \<times> bytes) option outcome" where
  "parse_udp_header pkt =
     (if length pkt < 4 then Ret None
      else if pkt ! 2 \<noteq> 0 then Ret None
      else let atyp = pkt ! 3 in
        if atyp = 0x01 then
          (if length pkt < 8 then Ret None else Ret (header_rest atyp (take 4 (drop 4 pkt)) (drop 8 pkt)))
        else if atyp = 0x04 then
          (if length pkt < 20 then Ret None else Ret (header_rest atyp (take 16 (drop 4 pkt)) (drop 20 pkt)))
        else if atyp = 0x03 then
          (if length pkt \<le> 4 then Panic
           else let n = unat (pkt ! 4) in
             if length pkt < 5 + n + 2 then Ret None
             else Ret (header_rest atyp (take n (drop 5 pkt)) (drop (5 + n) pkt)))
        else Ret None)"

definition build_udp_reply :: "u8 \<Rightarrow> bytes \<Rightarrow> u16 \<Rightarrow> bytes \<Rightarrow> bytes" where
  "build_udp_reply atyp addr port payload = [0, 0, 0, atyp] @ addr_wire atyp addr @ u16_to_be port @ payload"

section \<open>The relay of an association\<close>

text \<open>
  \<open>relay_udp_association\<close> as a machine: the address of the client is shared by the two tasks, \<open>ra_up\<close>
  and \<open>ra_down\<close> say whether the main loop and the spawned task still run.  Written frames and sent
  datagrams are recorded.  An event carries what the awaited call returned; \<open>ok\<close> is the outcome of
  the write it leads to.
\<close>

datatype 'a relay_event =
    CtrlRead "bytes option" \<comment> \<open>\<open>None\<close>: closed or failed\<close>
  | RecvFrom "('a \<times> bytes) option" bool
  | TunnelFrame "udp_frame option" bool \<comment> \<open>\<open>None\<close>: end of the stream or malformed frame\<close>

record 'a relay =
  ra_client :: "'a option"
  ra_up :: bool
  ra_down :: bool
  ra_tunnel :: "bytes list"
  ra_sent :: "('a \<times> bytes) list"
  ra_panicked :: bool

definition relay_init :: "'a relay" where
  "relay_init = \<lparr>ra_client = None, ra_up = True, ra_down = True, ra_tunnel = [], ra_sent = [], ra_panicked = False\<rparr>"

text \<open>The end of the main loop: the write half is shut down and the other task aborted.\<close>

definition relay_end :: "'a relay \<Rightarrow> 'a relay" where
  "relay_end s = s\<lparr>ra_up := False, ra_down := False\<rparr>"

definition relay_datagram :: "'a \<Rightarrow> bytes \<Rightarrow> bool \<Rightarrow> 'a relay \<Rightarrow> 'a relay" where
  "relay_datagram src pkt ok s =
     (let s = (if ra_client s = None then s\<lparr>ra_client := Some src\<rparr> else s) in
      if ra_client s \<noteq> Some src then s
      else case parse_udp_header pkt of
        Panic \<Rightarrow> s\<lparr>ra_up := False, ra_panicked := True\<rparr>
      | Ret (Some (atyp, addr, port, payload)) \<Rightarrow>
          if ok then s\<lparr>ra_tunnel := ra_tunnel s @ [encode_udp_frame atyp addr port payload]\<rparr> else relay_end s
      | _ \<Rightarrow> s)"

definition relay_frame :: "udp_frame \<Rightarrow> bool \<Rightarrow> 'a relay \<Rightarrow> 'a relay" where
  "relay_frame f ok s =
     (case ra_client s of
        None \<Rightarrow> s
      | Some dest \<Rightarrow>
          if ok then s\<lparr>ra_sent := ra_sent s @ [(dest, build_udp_reply (uf_atyp f) (uf_addr f) (uf_port f) (uf_payload f))]\<rparr>
          else s\<lparr>ra_down := False\<rparr>)"

definition relay_step :: "'a relay_event \<Rightarrow> 'a relay \<Rightarrow> 'a relay" where
  "relay_step ev s =
     (case ev of
        CtrlRead r \<Rightarrow>
          if \<not> ra_up s then s
          else (case r of None \<Rightarrow> relay_end s | Some b \<Rightarrow> if b = [] then relay_end s else s)
      | RecvFrom r ok \<Rightarrow>
          if \<not> ra_up s then s
          else (case r of None \<Rightarrow> relay_end s | Some (src, pkt) \<Rightarrow> relay_datagram src pkt ok s)
      | TunnelFrame r ok \<Rightarrow>
          if \<not> ra_down s then s
          else (case r of None \<Rightarrow> s\<lparr>ra_down := False\<rparr> | Some f \<Rightarrow> relay_frame f ok s))"

definition relay_run :: "'a relay_event list \<Rightarrow> 'a relay" where
  "relay_run evs = fold relay_step evs relay_init"

section \<open>The framing is a codec\<close>

definition addr_ok :: "u8 \<Rightarrow> bytes \<Rightarrow> bool" where
  "addr_ok atyp addr \<longleftrightarrow>
     atyp = 0x01 \<and> length addr = 4 \<or> atyp = 0x04 \<and> length addr = 16 \<or> atyp = 0x03 \<and> length addr < 256"

definition udp_sendable :: "udp_frame \<Rightarrow> bool" where
  "udp_sendable f \<longleftrightarrow> addr_ok (uf_atyp f) (uf_addr f) \<and> length (uf_payload f) \<le> MAX_UDP_PAYLOAD"

definition encode_udp :: "udp_frame \<Rightarrow> bytes" where
  "encode_udp f = encode_udp_frame (uf_atyp f) (uf_addr f) (uf_port f) (uf_payload f)"

lemma udp_tail_Got: "udp_tail atyp k n bs = Got m l \<Longrightarrow> 0 < l \<and> l \<le> length bs"
  by (auto simp: udp_tail_def Let_def split: if_splits)

lemma udp_tail_append:
  "udp_tail atyp k n bs = r \<Longrightarrow> r \<noteq> Need \<Longrightarrow> udp_tail atyp k n (bs @ xs) = r"
  by (auto simp: udp_tail_def Let_def split: if_splits)

lemma read_udp_frame_append:
  assumes "read_udp_frame bs = r" and "r \<noteq> Need"
  shows "read_udp_frame (bs @ xs) = r"
proof (cases bs)
  case Nil
  then show ?thesis using assms by (simp add: read_udp_frame_def)
next
  case (Cons b r')
  have tail: "udp_tail b k n (bs @ xs) = r" if "udp_tail b k n bs = r" for k n
    using udp_tail_append [OF that assms(2)] .
  show ?thesis
    using assms tail [of 1 4] tail [of 1 16] tail [of 2]
    by (cases r') (auto simp: Cons read_udp_frame_def split: if_splits)
qed

interpretation udp: stream_decoder read_udp_frame
proof
  fix bs m n
  assume "read_udp_frame bs = Got m n"
  then show "0 < n \<and> n \<le> length bs"
    by (auto simp: read_udp_frame_def dest: udp_tail_Got split: list.splits if_splits)
qed (simp_all add: read_udp_frame_append)

lemma length_addr_wire: "length (addr_wire atyp addr) = (if atyp = 0x03 then 1 else 0) + length addr"
  by (simp add: addr_wire_def)

lemma udp_tail_enc:
  assumes "length payload \<le> MAX_UDP_PAYLOAD" and "length pre = k" and "length addr = n"
  shows "udp_tail atyp k n (pre @ addr @ u16_to_be port @ u32_to_be (word_of_nat (length payload)) @ payload @ xs) =
    Got \<lparr>uf_atyp = atyp, uf_addr = addr, uf_port = port, uf_payload = payload\<rparr> (k + n + 6 + length payload)"
proof -
  let ?bs = "pre @ addr @ u16_to_be port @ u32_to_be (word_of_nat (length payload)) @ payload @ xs"
  have d: "drop k ?bs = addr @ u16_to_be port @ u32_to_be (word_of_nat (length payload)) @ payload @ xs"
      "drop (k + n) ?bs = u16_to_be port @ u32_to_be (word_of_nat (length payload)) @ payload @ xs"
      "drop (k + n + 2) ?bs = u32_to_be (word_of_nat (length payload)) @ payload @ xs"
      "drop (k + n + 6) ?bs = payload @ xs"
    unfolding assms(2,3) [symmetric] by simp_all
  have "length payload < 4294967296" using assms(1) by (simp add: MAX_UDP_PAYLOAD_def)
  then show ?thesis
    unfolding udp_tail_def d Let_def using assms by simp
qed

lemma read_udp_frame_enc:
  assumes "udp_sendable f"
  shows "read_udp_frame (encode_udp f @ xs) = Got f (length (encode_udp f))"
proof -
  let ?t = "uf_atyp f" and ?a = "uf_addr f"
  have ok: "addr_ok ?t ?a" and p: "length (uf_payload f) \<le> MAX_UDP_PAYLOAD"
    using assms by (auto simp: udp_sendable_def)
  have len: "length (encode_udp f) = (if ?t = 0x03 then 2 else 1) + length ?a + 6 + length (uf_payload f)"
    by (simp add: encode_udp_def encode_udp_frame_def length_addr_wire)
  have f: "\<lparr>uf_atyp = ?t, uf_addr = ?a, uf_port = uf_port f, uf_payload = uf_payload f\<rparr> = f" by simp
  note plain = udp_tail_enc [OF p, of "[?t]" 1 ?a _ ?t "uf_port f" xs]
  note dom = udp_tail_enc [OF p, of "[?t, word_of_nat (length ?a)]" 2 ?a _ ?t "uf_port f" xs]
  consider "?t = 0x01" "length ?a = 4" | "?t = 0x04" "length ?a = 16" | "?t = 0x03" "length ?a < 256"
    using ok unfolding addr_ok_def by blast
  then show ?thesis
  proof cases
    case 1
    then show ?thesis using plain [of 4] len f
      by (simp add: read_udp_frame_def encode_udp_def encode_udp_frame_def addr_wire_def)
  next
    case 2
    then show ?thesis using plain [of 16] len f
      by (simp add: read_udp_frame_def encode_udp_def encode_udp_frame_def addr_wire_def)
  next
    case 3
    then have "unat (word_of_nat (length ?a) :: byte) = length ?a" by (simp add: unat_of_nat take_bit_nat_def)
    with 3 show ?thesis using dom [of "length ?a"] len f
      by (simp add: read_udp_frame_def encode_udp_def encode_udp_frame_def addr_wire_def)
  qed
qed

interpretation udp: stream_codec read_udp_frame encode_udp udp_sendable
proof
  show "read_udp_frame [] = Need" by (simp add: read_udp_frame_def)
qed (rule read_udp_frame_enc)

text \<open>
  Tunnelled datagrams: any sequence of datagrams with a well-formed address (four or sixteen
  bytes, or a name of at most 255) and at most 65535 bytes of payload is read back exactly, in order and
  with nothing left over, however the stream cuts the bytes; a stream that ends within a frame
  yields the complete frames and then the end of input, never an error.
\<close>

theorem udp_frames_survive_transport:
  assumes "list_all udp_sendable ms" and "udp_sendable m" and "strict_prefix p (encode_udp m)"
    and "concat reads = concat (map encode_udp ms) @ p"
  shows "drain_reads read_udp_frame [] reads = (ms, p, None)"
proof -
  have "read_udp_frame p = Need" using assms(2,3) by (rule udp.truncated_needs_more)
  then have "drain read_udp_frame p = ([], p, None)" by (rule drain_Need)
  then show ?thesis
    by (simp add: udp.drain_reads_concat [OF udp.dec_nil] assms(4) udp.drain_encoded [OF assms(1)])
qed

theorem udp_frames_survive_transport_witness:
  "drain_reads read_udp_frame [] [[3, 2, 97], [98, 0, 53, 0, 0, 0, 1, 7, 1], [127, 0]] =
     ([\<lparr>uf_atyp = 3, uf_addr = [97, 98], uf_port = 53, uf_payload = [7]\<rparr>], [1, 127, 0], None)"
  by (rule udp_frames_survive_transport [where m = "\<lparr>uf_atyp = 1, uf_addr = [127, 0, 0, 1], uf_port = 80, uf_payload = []\<rparr>"])
    (simp_all add: udp_sendable_def addr_ok_def MAX_UDP_PAYLOAD_def encode_udp_def encode_udp_frame_def addr_wire_def
      u16_to_be_def u32_to_be_def be_simps strict_prefix_def)

section \<open>Requests\<close>

lemma read_exact_Some: "read_exact n inp = Some (a, r) \<longleftrightarrow> inp = a @ r \<and> length a = n"
  by (auto simp: read_exact_def)

lemma read_exact_append [simp]: "length a = n \<Longrightarrow> read_exact n (a @ r) = Some (a, r)"
  by (simp add: read_exact_Some)

lemma unat_length_byte: "n < 256 \<Longrightarrow> unat (word_of_nat n :: byte) = n"
  by (simp add: unat_of_nat take_bit_nat_def)

lemma read_host_1: "read_host 0x01 inp = HostOk h r \<longleftrightarrow> (\<exists>a. length a = 4 \<and> h = ipv4_text a \<and> inp = a @ r)"
  by (auto simp: read_host_def read_exact_Some split: option.splits)

lemma read_host_4: "read_host 0x04 inp = HostOk h r \<longleftrightarrow> (\<exists>a. length a = 16 \<and> h = ipv6_text a \<and> inp = a @ r)"
  by (auto simp: read_host_def read_exact_Some split: option.splits)

lemma read_host_3:
  "read_host 0x03 inp = HostOk h r \<longleftrightarrow>
     (\<exists>a. length a < 256 \<and> h = from_utf8_lossy a \<and> inp = word_of_nat (length a) # a @ r)"
proof
  assume "read_host 0x03 inp = HostOk h r"
  then obtain l r1 a where l: "read_exact 1 inp = Some (l, r1)" and a: "read_exact (unat (l ! 0)) r1 = Some (a, r)"
    and h: "h = from_utf8_lossy a"
    by (auto simp: read_host_def split: option.splits prod.splits)
  from l obtain b where "l = [b]" by (auto simp: read_exact_Some length_Suc_conv)
  with l a have "inp = b # a @ r" "length a = unat b" by (auto simp: read_exact_Some)
  then show "\<exists>a. length a < 256 \<and> h = from_utf8_lossy a \<and> inp = word_of_nat (length a) # a @ r"
    using h by (intro exI [of _ a]) simp
next
  assume "\<exists>a. length a < 256 \<and> h = from_utf8_lossy a \<and> inp = word_of_nat (length a) # a @ r"
  then obtain a where a: "length a < 256" "h = from_utf8_lossy a" "inp = [word_of_nat (length a)] @ a @ r" by auto
  then have "read_exact 1 inp = Some ([word_of_nat (length a)], a @ r)" by (simp add: read_exact_Some)
  then show "read_host 0x03 inp = HostOk h r" using a by (simp add: read_host_def unat_length_byte)
qed

lemma read_host_Ok:
  "read_host t inp = HostOk h r \<longleftrightarrow>
     (\<exists>a. addr_ok t a \<and> addr_bytes_to_host t a = Some h \<and> inp = addr_wire t a @ r)"
proof -
  consider "t = 0x01" | "t = 0x04" | "t = 0x03" | "t \<noteq> 0x01" "t \<noteq> 0x04" "t \<noteq> 0x03" by blast
  then show ?thesis
  proof cases
    case 1
    then show ?thesis by (auto simp: read_host_1 addr_ok_def addr_bytes_to_host_def addr_wire_def)
  next
    case 2
    then show ?thesis by (auto simp: read_host_4 addr_ok_def addr_bytes_to_host_def addr_wire_def)
  next
    case 3
    then show ?thesis by (auto simp: read_host_3 addr_ok_def addr_bytes_to_host_def addr_wire_def)
  next
    case 4
    then show ?thesis by (simp add: read_host_def addr_ok_def)
  qed
qed

text \<open>A request for the command \<open>cmd\<close> with everything the client sent after it.\<close>

definition is_request :: "u8 \<Rightarrow> string \<Rightarrow> u16 \<Rightarrow> bytes \<Rightarrow> bytes \<Rightarrow> bool" where
  "is_request cmd host port rest inp \<longleftrightarrow>
     (\<exists>rsv t a. addr_ok t a \<and> addr_bytes_to_host t a = Some host \<and>
        inp = [0x05, cmd, rsv, t] @ addr_wire t a @ u16_to_be port @ rest)"

lemma serve_request_cmd:
  assumes "is_request cmd host port rest inp"
  shows "serve_request inp =
    (if cmd = 0x01 then ([], SkConnect host port rest)
     else if cmd = 0x03 then ([], SkAssociate host port rest)
     else (socks_failure 0x07, SkDone))"
proof -
  obtain rsv t a where a: "addr_ok t a" "addr_bytes_to_host t a = Some host"
    and inp: "inp = [0x05, cmd, rsv, t] @ (addr_wire t a @ (u16_to_be port @ rest))"
    using assms by (auto simp: is_request_def)
  have 1: "read_exact 4 inp = Some ([0x05, cmd, rsv, t], addr_wire t a @ (u16_to_be port @ rest))"
    unfolding inp by (rule read_exact_append) simp
  have 2: "read_host t (addr_wire t a @ (u16_to_be port @ rest)) = HostOk host (u16_to_be port @ rest)"
    unfolding read_host_Ok using a by blast
  show ?thesis unfolding serve_request_def by (simp add: 1 2)
qed

lemma is_requestI:
  assumes "serve_request inp = (w, e)" and "e = SkConnect host port rest \<or> e = SkAssociate host port rest"
  shows "is_request (if e = SkConnect host port rest then 0x01 else 0x03) host port rest inp \<and> w = []"
proof -
  from assms obtain req r r' pb where 1: "read_exact 4 inp = Some (req, r)" "req ! 0 = 0x05"
    and 2: "read_host (req ! 3) r = HostOk host r'" and 3: "read_exact 2 r' = Some (pb, rest)"
    and pb: "port = u16_from_be pb" "w = []" "req ! 1 = (if e = SkConnect host port rest then 0x01 else 0x03)"
    unfolding serve_request_def by (auto split: option.splits if_splits host_read.splits)
  have "length req = 4" using 1 by (simp add: read_exact_Some)
  then have req: "req = [req ! 0, req ! 1, req ! 2, req ! 3]"
    by (auto simp: numeral_eq_Suc length_Suc_conv)
  obtain a where a: "addr_ok (req ! 3) a" "addr_bytes_to_host (req ! 3) a = Some host" "r = addr_wire (req ! 3) a @ r'"
    using 2 unfolding read_host_Ok by blast
  have "r' = u16_to_be port @ rest" using 3 pb by (auto simp: read_exact_Some u16_to_from)
  moreover have "inp = [0x05, req ! 1, req ! 2, req ! 3] @ r" using 1 req by (metis read_exact_Some)
  ultimately show ?thesis using a pb unfolding is_request_def by (auto simp del: append_Cons)
qed

lemma serve_socks_greeting:
  "length methods < 256 \<Longrightarrow> 0 \<in> set methods \<Longrightarrow>
   serve_socks ([0x05, word_of_nat (length methods)] @ methods @ r) =
     (case serve_request r of (w, e) \<Rightarrow> ([0x05, 0x00] @ w, e))"
  using read_exact_append [of "[0x05, word_of_nat (length methods)]" 2 "methods @ r"]
  by (simp add: serve_socks_def unat_length_byte)

lemma serve_socks_served:
  assumes "serve_socks inp = (w, e)" and "e = SkConnect host port rest \<or> e = SkAssociate host port rest"
  shows "\<exists>methods r. length methods < 256 \<and> 0 \<in> set methods \<and>
    inp = [0x05, word_of_nat (length methods)] @ methods @ r \<and> serve_request r = (drop 2 w, e) \<and> take 2 w = [0x05, 0x00]"
proof -
  from assms obtain hdr r1 methods r where 1: "read_exact 2 inp = Some (hdr, r1)" "hdr ! 0 = 0x05"
    and 2: "read_exact (unat (hdr ! 1)) r1 = Some (methods, r)" "0 \<in> set methods"
    and w: "serve_request r = (drop 2 w, e)" "take 2 w = [0x05, 0x00]"
    unfolding serve_socks_def by (auto split: option.splits if_splits prod.splits)
  have l: "length methods = unat (hdr ! 1)" using 2 by (simp add: read_exact_Some)
  have "length hdr = 2" using 1 by (simp add: read_exact_Some)
  then have "hdr = [hdr ! 0, hdr ! 1]" by (auto simp: numeral_eq_Suc length_Suc_conv)
  then have "hdr = [0x05, word_of_nat (length methods)]" using 1 l by simp
  then have "inp = [0x05, word_of_nat (length methods)] @ methods @ r"
    using 1 2 by (simp add: read_exact_Some)
  then show ?thesis using 2 l w by (intro exI [of _ methods] exI [of _ r]) simp
qed

text \<open>
  The SOCKS5 negotiation serves exactly the well-formed requests: a connection (an association)
  is served for a host and port if and only if the client sent a greeting that offers the method
  without authentication, followed by a request with command 1 (command 3), an address whose text is
  this host, and this port; the reply so far is the acceptance of the greeting, and every byte after
  the request is left for the stream.
\<close>

theorem socks_serves_exactly_requests:
  "(serve_socks inp = (w, SkConnect host port rest) \<longleftrightarrow> w = [0x05, 0x00] \<and>
     (\<exists>methods r. length methods < 256 \<and> 0 \<in> set methods \<and> is_request 0x01 host port rest r \<and>
        inp = [0x05, word_of_nat (length methods)] @ methods @ r)) \<and>
   (serve_socks inp = (w, SkAssociate host port rest) \<longleftrightarrow> w = [0x05, 0x00] \<and>
     (\<exists>methods r. length methods < 256 \<and> 0 \<in> set methods \<and> is_request 0x03 host port rest r \<and>
        inp = [0x05, word_of_nat (length methods)] @ methods @ r))"
proof -
  have fwd: "w = [0x05, 0x00] \<and> (\<exists>methods r. length methods < 256 \<and> 0 \<in> set methods \<and>
      is_request (if e = SkConnect host port rest then 0x01 else 0x03) host port rest r \<and>
      inp = [0x05, word_of_nat (length methods)] @ methods @ r)"
    if s: "serve_socks inp = (w, e)" and e: "e = SkConnect host port rest \<or> e = SkAssociate host port rest" for e
  proof -
    obtain methods r where m: "length methods < 256" "0 \<in> set methods"
      "inp = [0x05, word_of_nat (length methods)] @ methods @ r" "serve_request r = (drop 2 w, e)" "take 2 w = [0x05, 0x00]"
      using serve_socks_served [OF s e] by blast
    from is_requestI [OF m(4) e] have "drop 2 w = []"
      "is_request (if e = SkConnect host port rest then 0x01 else 0x03) host port rest r" by auto
    with m show ?thesis using append_take_drop_id [of 2 w] by auto
  qed
  show ?thesis
    using fwd [of "SkConnect host port rest"] fwd [of "SkAssociate host port rest"]
    by (auto simp: serve_socks_greeting serve_request_cmd simp del: append_Cons)
qed

section \<open>Datagram headers\<close>

lemma header_rest_Some:
  "header_rest t a rest = Some (t', a', port, pl) \<longleftrightarrow> t' = t \<and> a' = a \<and> rest = u16_to_be port @ pl"
proof
  assume "header_rest t a rest = Some (t', a', port, pl)"
  then have h: "2 \<le> length rest" "t' = t" "a' = a" "port = u16_from_be (take 2 rest)" "pl = drop 2 rest"
    by (auto simp: header_rest_def split: if_splits)
  then have "u16_to_be port = take 2 rest" by (simp add: u16_to_from)
  with h show "t' = t \<and> a' = a \<and> rest = u16_to_be port @ pl" by simp
qed (simp add: header_rest_def)

lemma parse_header_cons:
  "parse_udp_header (x # y # z # t # r) =
     (if z \<noteq> 0 then Ret None
      else if t = 0x01 then Ret (if length r < 4 then None else header_rest t (take 4 r) (drop 4 r))
      else if t = 0x04 then Ret (if length r < 16 then None else header_rest t (take 16 r) (drop 16 r))
      else if t = 0x03 then
        (case r of [] \<Rightarrow> Panic
         | l # r' \<Rightarrow> Ret (if length r' < unat l + 2 then None else header_rest t (take (unat l) r') (drop (unat l) r')))
      else Ret None)"
proof -
  have d: "drop 8 (x # y # z # t # r) = drop 4 r" "drop 20 (x # y # z # t # r) = drop 16 r"
      "drop 4 (x # y # z # t # r) = r" "drop (5 + n) (x # y # z # t # r) = drop (Suc n) r" for n
    by (simp_all add: numeral_eq_Suc)
  show ?thesis
    unfolding parse_udp_header_def Let_def d by (cases r) (simp_all add: numeral_eq_Suc)
qed

lemma take_drop_iff: "n \<le> length r \<and> a = take n r \<and> drop n r = q \<longleftrightarrow> length a = n \<and> r = a @ q"
  by auto

lemma four_bytes: "\<not> length pkt < 4 \<Longrightarrow> \<exists>x y z t r. pkt = x # y # z # t # r"
  by (auto simp: numeral_eq_Suc not_less Suc_le_length_iff)

lemma header_fixed:
  "(if length r < n then None else header_rest t' (take n r) (drop n r)) = Some (t, a, port, pl) \<longleftrightarrow>
     t = t' \<and> length a = n \<and> r = a @ u16_to_be port @ pl"
  using take_drop_iff [of n r a "u16_to_be port @ pl"] by (auto simp: header_rest_Some)

lemma header_named:
  "(if length r < Suc (Suc n) then None else header_rest t' (take n r) (drop n r)) = Some (t, a, port, pl) \<longleftrightarrow>
     t = t' \<and> length a = n \<and> r = a @ u16_to_be port @ pl"
  using take_drop_iff [of n r a "u16_to_be port @ pl"] by (auto simp: header_rest_Some)

lemma parse_udp_header_Some:
  "parse_udp_header pkt = Ret (Some (t, a, port, pl)) \<longleftrightarrow>
     (\<exists>x y. addr_ok t a \<and> pkt = [x, y, 0, t] @ addr_wire t a @ u16_to_be port @ pl)"
proof (cases "length pkt < 4")
  case True
  then show ?thesis by (auto simp: parse_udp_header_def)
next
  case False
  then obtain x y z t' r where pkt: "pkt = x # y # z # t' # r" using four_bytes by blast
  consider "t' = 0x01" | "t' = 0x04" | "t' = 0x03" | "t' \<noteq> 0x01" "t' \<noteq> 0x04" "t' \<noteq> 0x03" by blast
  then show ?thesis
  proof cases
    case 1
    then show ?thesis by (auto simp: pkt parse_header_cons header_fixed addr_ok_def addr_wire_def)
  next
    case 2
    then show ?thesis by (auto simp: pkt parse_header_cons header_fixed addr_ok_def addr_wire_def)
  next
    case 3
    have "length a = unat l \<longleftrightarrow> length a < 256 \<and> l = word_of_nat (length a)" for l :: byte
      by (auto simp: unat_length_byte)
    then show ?thesis using 3
      by (cases r) (auto simp: pkt parse_header_cons header_named addr_ok_def addr_wire_def)
  next
    case 4
    then show ?thesis by (auto simp: pkt parse_header_cons addr_ok_def)
  qed
qed

text \<open>
  Datagram headers.  A datagram of the local client is forwarded with exactly the address, port
  and payload it carries: parsing succeeds with these values if and only if the datagram is their
  encoding with fragment number 0; in particular a reply built for the client parses back.  The
  only input the parser does not survive is a four-byte datagram that announces a name.
\<close>

theorem udp_header_exact:
  "(parse_udp_header pkt = Ret (Some (t, a, port, pl)) \<longleftrightarrow>
     addr_ok t a \<and> (\<exists>x y. pkt = [x, y] @ drop 2 (build_udp_reply t a port pl))) \<and>
   (parse_udp_header pkt = Panic \<longleftrightarrow> length pkt = 4 \<and> pkt ! 2 = 0 \<and> pkt ! 3 = 0x03)"
proof
  show "parse_udp_header pkt = Ret (Some (t, a, port, pl)) \<longleftrightarrow>
     addr_ok t a \<and> (\<exists>x y. pkt = [x, y] @ drop 2 (build_udp_reply t a port pl))"
    unfolding parse_udp_header_Some by (auto simp: build_udp_reply_def)
next
  show "parse_udp_header pkt = Panic \<longleftrightarrow> length pkt = 4 \<and> pkt ! 2 = 0 \<and> pkt ! 3 = 0x03"
    by (auto simp: parse_udp_header_def Let_def)
qed

section \<open>Associations\<close>

text \<open>The source of the first datagram, and the frames that the datagrams of one source stand for.\<close>

fun first_source :: "'a relay_event list \<Rightarrow> 'a option" where
  "first_source [] = None"
| "first_source (RecvFrom (Some (src, pkt)) ok # evs) = Some src"
| "first_source (ev # evs) = first_source evs"

fun event_frame :: "'a \<Rightarrow> 'a relay_event \<Rightarrow> udp_frame option" where
  "event_frame c (RecvFrom (Some (src, pkt)) ok) =
     (if src = c then
        (case parse_udp_header pkt of
           Ret (Some (t, a, port, pl)) \<Rightarrow> Some \<lparr>uf_atyp = t, uf_addr = a, uf_port = port, uf_payload = pl\<rparr>
         | _ \<Rightarrow> None)
      else None)"
| "event_frame c ev = None"

text \<open>The receive buffer holds 65536 bytes.\<close>

fun event_fits :: "'a relay_event \<Rightarrow> bool" where
  "event_fits (RecvFrom (Some (src, pkt)) ok) \<longleftrightarrow> length pkt \<le> 65536"
| "event_fits ev \<longleftrightarrow> True"

lemma event_frame_sendable: "event_frame c ev = Some f \<Longrightarrow> event_fits ev \<Longrightarrow> udp_sendable f"
  by (cases "(c, ev)" rule: event_frame.cases)
    (auto simp: parse_udp_header_Some udp_sendable_def MAX_UDP_PAYLOAD_def length_addr_wire split: if_splits outcome.splits option.splits)

lemma filter_map_append: "filter_map f (xs @ ys) = filter_map f xs @ filter_map f ys"
  by (induction xs) (auto split: option.splits)

lemma first_source_append: "first_source (xs @ ys) = (case first_source xs of None \<Rightarrow> first_source ys | s \<Rightarrow> s)"
  by (induction xs rule: first_source.induct) auto

lemma no_source_no_frames: "first_source evs = None \<Longrightarrow> filter_map (event_frame c) evs = []"
  by (induction evs rule: first_source.induct) auto

definition relay_inv :: "'a relay_event list \<Rightarrow> 'a relay \<Rightarrow> bool" where
  "relay_inv evs s \<longleftrightarrow>
     (case ra_client s of
        None \<Rightarrow> ra_tunnel s = [] \<and> ra_sent s = [] \<and> (ra_up s \<longrightarrow> first_source evs = None)
      | Some c \<Rightarrow> first_source evs = Some c \<and> list_all (\<lambda>(d, _). d = c) (ra_sent s) \<and>
          (\<exists>fs. ra_tunnel s = map encode_udp fs \<and> prefix fs (filter_map (event_frame c) evs) \<and>
             (ra_up s \<longrightarrow> fs = filter_map (event_frame c) evs)))"

lemma relay_inv_weaken:
  assumes "relay_inv evs s" and "ra_client s' = ra_client s" and "ra_tunnel s' = ra_tunnel s" and "ra_sent s' = ra_sent s"
    and "ra_up s' \<Longrightarrow> ra_up s \<and> first_source [ev] = None"
  shows "relay_inv (evs @ [ev]) s'"
  using assms no_source_no_frames [of "[ev]"]
  by (fastforce simp: relay_inv_def first_source_append filter_map_append split: option.splits)

lemma relay_datagram_tunnel:
  "ra_tunnel (relay_datagram src pkt ok s) = ra_tunnel s @
     map encode_udp (filter_map (event_frame (case ra_client s of None \<Rightarrow> src | Some c \<Rightarrow> c)) [RecvFrom (Some (src, pkt)) ok]) \<or>
   ra_tunnel (relay_datagram src pkt ok s) = ra_tunnel s \<and> \<not> ra_up (relay_datagram src pkt ok s)"
proof (cases "parse_udp_header pkt")
  case (Ret h)
  then show ?thesis
    by (cases h; cases ok) (auto simp: relay_datagram_def Let_def relay_end_def encode_udp_def split: option.split)
qed (auto simp: relay_datagram_def Let_def relay_end_def split: option.split)

lemma relay_datagram_inv:
  assumes "relay_inv evs s" and "ra_up s"
  shows "relay_inv (evs @ [RecvFrom (Some (src, pkt)) ok]) (relay_datagram src pkt ok s)"
proof -
  let ?ev = "RecvFrom (Some (src, pkt)) ok"
  let ?c = "case ra_client s of None \<Rightarrow> src | Some c \<Rightarrow> c"
  have I: "first_source (evs @ [?ev]) = Some ?c" "list_all (\<lambda>(d, _). d = ?c) (ra_sent s)"
    "ra_tunnel s = map encode_udp (filter_map (event_frame ?c) evs)"
    using assms no_source_no_frames [of evs src]
    by (auto simp: relay_inv_def first_source_append split: option.splits)
  have c: "ra_client (relay_datagram src pkt ok s) = Some ?c" "ra_sent (relay_datagram src pkt ok s) = ra_sent s"
    by (auto simp: relay_datagram_def Let_def relay_end_def split: option.splits outcome.splits)
  consider "ra_tunnel (relay_datagram src pkt ok s) = ra_tunnel s @ map encode_udp (filter_map (event_frame ?c) [?ev])"
    | "ra_tunnel (relay_datagram src pkt ok s) = ra_tunnel s" "\<not> ra_up (relay_datagram src pkt ok s)"
    using relay_datagram_tunnel [of src pkt ok s] by blast
  then show ?thesis
  proof cases
    case 1
    then have "ra_tunnel (relay_datagram src pkt ok s) = map encode_udp (filter_map (event_frame ?c) (evs @ [?ev]))"
      by (simp add: I filter_map_append)
    then show ?thesis unfolding relay_inv_def c option.case using I(1,2) by blast
  next
    case 2
    then show ?thesis unfolding relay_inv_def c option.case using I
      by (intro conjI exI [of _ "filter_map (event_frame ?c) evs"]) (simp_all add: filter_map_append)
  qed
qed

lemma relay_frame_inv:
  assumes "relay_inv evs s"
  shows "relay_inv (evs @ [TunnelFrame (Some f) ok]) (relay_frame f ok s)"
  using assms
  by (cases "ra_client s") (auto simp: relay_inv_def relay_frame_def first_source_append filter_map_append)

lemma relay_step_inv: "relay_inv evs s \<Longrightarrow> relay_inv (evs @ [ev]) (relay_step ev s)"
proof -
  assume I: "relay_inv evs s"
  show ?thesis
  proof (cases ev)
    case (CtrlRead r)
    show ?thesis unfolding CtrlRead relay_step_def
      by (simp split: option.splits, intro conjI impI allI; rule relay_inv_weaken [OF I]) (auto simp: relay_end_def)
  next
    case (RecvFrom r ok)
    show ?thesis
    proof (cases "ra_up s \<and> r \<noteq> None")
      case True
      then show ?thesis using relay_datagram_inv [OF I] by (auto simp: RecvFrom relay_step_def)
    next
      case False
      then show ?thesis unfolding RecvFrom relay_step_def
        by (cases r) (auto intro!: relay_inv_weaken [OF I] simp: relay_end_def)
    qed
  next
    case (TunnelFrame r ok)
    show ?thesis
    proof (cases "ra_down s \<and> r \<noteq> None")
      case True
      then show ?thesis using relay_frame_inv [OF I] by (auto simp: TunnelFrame relay_step_def)
    next
      case False
      then show ?thesis unfolding TunnelFrame relay_step_def
        by (cases r) (auto intro!: relay_inv_weaken [OF I])
    qed
  qed
qed

lemma relay_run_inv: "relay_inv evs (relay_run evs)"
proof (induction evs rule: rev_induct)
  case Nil
  then show ?case by (simp add: relay_run_def relay_inv_def relay_init_def)
next
  case (snoc ev evs)
  then show ?case using relay_step_inv by (simp add: relay_run_def)
qed

lemma relay_tunnel_decodes:
  assumes "ra_client (relay_run evs) = Some c" and "list_all event_fits evs"
  obtains fs where "concat (ra_tunnel (relay_run evs)) = concat (map encode_udp fs)" and "list_all udp_sendable fs"
    and "prefix fs (filter_map (event_frame c) evs)" and "ra_up (relay_run evs) \<Longrightarrow> fs = filter_map (event_frame c) evs"
proof -
  obtain fs where fs: "ra_tunnel (relay_run evs) = map encode_udp fs" "prefix fs (filter_map (event_frame c) evs)"
      "ra_up (relay_run evs) \<longrightarrow> fs = filter_map (event_frame c) evs"
    using relay_run_inv [of evs] assms(1) by (auto simp: relay_inv_def)
  have "udp_sendable f" if "f \<in> set fs" for f
    using that set_mono_prefix [OF fs(2)] assms(2)
    by (auto simp: set_filter_map list_all_iff intro: event_frame_sendable)
  with fs show ?thesis by (intro that [of fs]) (simp_all add: list_all_iff)
qed

text \<open>
  C24.  A UDP association serves exactly one client, for every sequence of events and write failures:
  that client is the source of the first datagram; every datagram sent by the relay goes to it;
  and the bytes written to the tunnel decode, without an error or a rest, to the datagrams of this
  client in the order they came (all of them while the association lives, a prefix after it has ended).
  Datagrams of any other source, fragments and malformed datagrams leave no trace.
\<close>

theorem udp_association_pinned:
  assumes "ra_client (relay_run evs) = Some c" and "list_all event_fits evs"
  shows "first_source evs = Some c \<and> list_all (\<lambda>(dest, _). dest = c) (ra_sent (relay_run evs)) \<and>
    (\<exists>fs. drain read_udp_frame (concat (ra_tunnel (relay_run evs))) = (fs, [], None) \<and>
       prefix fs (filter_map (event_frame c) evs) \<and>
       (ra_up (relay_run evs) \<longrightarrow> fs = filter_map (event_frame c) evs))"
proof -
  have I: "first_source evs = Some c" "list_all (\<lambda>(dest, _). dest = c) (ra_sent (relay_run evs))"
    using relay_run_inv [of evs] assms(1) by (auto simp: relay_inv_def)
  obtain fs where fs: "concat (ra_tunnel (relay_run evs)) = concat (map encode_udp fs)" "list_all udp_sendable fs"
      "prefix fs (filter_map (event_frame c) evs)" "ra_up (relay_run evs) \<Longrightarrow> fs = filter_map (event_frame c) evs"
    using relay_tunnel_decodes [OF assms] by blast
  have "drain read_udp_frame (concat (ra_tunnel (relay_run evs))) = (fs, [], None)"
    unfolding fs(1) using fs(2) by (rule udp.drain_roundtrip)
  with fs(3,4) I show ?thesis by blast
qed

definition demo_relay :: "nat relay_event list" where
  "demo_relay =
     [TunnelFrame (Some \<lparr>uf_atyp = 1, uf_addr = [9, 9, 9, 9], uf_port = 53, uf_payload = [1]\<rparr>) True,
      RecvFrom (Some (7, [0, 0, 0, 1, 8, 8, 8, 8, 0, 53, 42])) True,
      RecvFrom (Some (6, [0, 0, 0, 1, 8, 8, 8, 8, 0, 53, 43])) True,
      TunnelFrame (Some \<lparr>uf_atyp = 1, uf_addr = [8, 8, 8, 8], uf_port = 53, uf_payload = [2]\<rparr>) True]"

lemma demo_relay_run:
  "ra_client (relay_run demo_relay) = Some 7" "ra_up (relay_run demo_relay)"
  "ra_sent (relay_run demo_relay) = [(7, [0, 0, 0, 1, 8, 8, 8, 8, 0, 53, 2])]"
  "filter_map (event_frame 7) demo_relay = [\<lparr>uf_atyp = 1, uf_addr = [8, 8, 8, 8], uf_port = 53, uf_payload = [42]\<rparr>]"
  by (simp_all add: demo_relay_def relay_run_def relay_init_def relay_step_def relay_frame_def relay_datagram_def
      parse_header_cons header_rest_def build_udp_reply_def addr_wire_def u16_to_be_def u16_from_be_def be_simps)

theorem udp_association_pinned_witness:
  "first_source demo_relay = Some 7 \<and>
   drain read_udp_frame (concat (ra_tunnel (relay_run demo_relay))) =
     ([\<lparr>uf_atyp = 1, uf_addr = [8, 8, 8, 8], uf_port = 53, uf_payload = [42]\<rparr>], [], None)"
  using udp_association_pinned [OF demo_relay_run(1)] demo_relay_run
  by (simp add: demo_relay_def [THEN arg_cong [where f = "list_all event_fits"]])

end
