(* ===== verification/Server.thy ===== *)
theory Server
  imports MuxReader Socks5
begin

text \<open>
  Admission and dispatch: \<open>crates/krymux/src/tls.rs\<close> (\<open>peer_fingerprint\<close>), \<open>server.rs\<close> and \<open>client.rs\<close>.
  Which connections a server turns into sessions, what it does with a stream, which server a
  client accepts, and the server side of a UDP association.

  The TLS handshake, the sockets and the address lookup are parameters; each function gets what they
  returned.  The WebSocket handler is one too: its outcome is an argument of \<open>handle_conn\<close>.

  Lemmas: a certificate is necessary and its fingerprint decisive on both sides; a stream is dialled
  only where the router sends it and is answered exactly once; datagrams of an association
  leave the server as the client sent them.
\<close>

section \<open>Certificates (tls.rs)\<close>

definition ALPN :: string where "ALPN = ''krymux''"

definition peer_fingerprint ::
    "(bytes \<Rightarrow> bytes) \<Rightarrow> (bytes \<Rightarrow> string) \<Rightarrow> bytes list option \<Rightarrow> string option outcome" where
  "peer_fingerprint sha256 hex certs =
     (case certs of
        None \<Rightarrow> Ret None
      | Some [] \<Rightarrow> Ret None
      | Some (first # _) \<Rightarrow>
          (case fingerprint_of_cert sha256 hex first of
             Ret fp \<Rightarrow> Ret (Some fp)
           | Fail e \<Rightarrow> Fail e
           | Panic \<Rightarrow> Panic))"

section \<open>Connections (server.rs)\<close>

record auth_state =
  as_mode :: string
  as_fingerprints :: "string list"

text \<open>\<open>&f[7..19.min(f.len())]\<close>, which panics on a text of less than seven bytes.\<close>

definition short_fp :: "string \<Rightarrow> string outcome" where
  "short_fp f = (if length f < 7 then Panic else Ret (take (min 19 (length f) - 7) (drop 7 f)))"

datatype ws_end = WsStatic | WsSession | WsErr

datatype conn_end =
    ConnPanic
  | Rejected
  | WebPage
  | WebFailed
  | Session bool session_opts router \<comment> \<open>over WebSocket, or directly\<close>

definition server_opts :: "compiled_server \<Rightarrow> string \<Rightarrow> session_opts" where
  "server_opts c name =
     \<lparr>o_is_client = False, o_name = name, o_rx_window = sc_rx_window (cs_cfg c),
      o_rx_window_max = sc_rx_window_max (cs_cfg c), o_max_streams = sc_max_streams (cs_cfg c),
      keepalive_sec = sc_keepalive_sec (cs_cfg c)\<rparr>"

definition server_router :: "compiled_server \<Rightarrow> router" where
  "server_router c = \<lparr>routes = cs_routes c, fallback = cs_fallback c, rt_client_targets = cs_client_targets c\<rparr>"

definition start_server_session :: "bool \<Rightarrow> compiled_server \<Rightarrow> string \<Rightarrow> conn_end" where
  "start_server_session ws c identity_fp =
     (case short_fp identity_fp of
        Ret name \<Rightarrow> Session ws (server_opts c name) (server_router c)
      | _ \<Rightarrow> ConnPanic)"

definition authorized :: "auth_state \<Rightarrow> bool \<Rightarrow> string option \<Rightarrow> bool" where
  "authorized auth alpn_ok fp \<longleftrightarrow>
     alpn_ok \<and> (case fp of None \<Rightarrow> False | Some f \<Rightarrow> as_mode auth = ''open'' \<or> f \<in> set (as_fingerprints auth))"

definition log_rejected :: "string option \<Rightarrow> conn_end" where
  "log_rejected fp =
     (case fp of
        None \<Rightarrow> Rejected
      | Some f \<Rightarrow> (case short_fp f of Ret _ \<Rightarrow> Rejected | _ \<Rightarrow> ConnPanic))"

definition handle_conn ::
    "(bytes \<Rightarrow> bytes) \<Rightarrow> (bytes \<Rightarrow> string) \<Rightarrow> compiled_server \<Rightarrow> string \<Rightarrow> auth_state \<Rightarrow>
     (auth_state \<Rightarrow> ws_end) option \<Rightarrow> string option \<Rightarrow> bytes list option \<Rightarrow> conn_end" where
  "handle_conn sha256 hex compiled identity_fp auth ws alpn certs =
     (case peer_fingerprint sha256 hex certs of
        Panic \<Rightarrow> ConnPanic
      | r \<Rightarrow>
          let alpn_ok = (alpn = Some ALPN);
              fp = (case r of Ret f \<Rightarrow> f | _ \<Rightarrow> None)
          in if \<not> authorized auth alpn_ok fp then
               (case ws of
                  Some handler \<Rightarrow>
                    if fp = None then
                      (case handler auth of
                         WsStatic \<Rightarrow> WebPage
                       | WsSession \<Rightarrow> start_server_session True compiled identity_fp
                       | WsErr \<Rightarrow> WebFailed)
                    else log_rejected fp
                | None \<Rightarrow> log_rejected fp)
             else (case fp of
                Some f \<Rightarrow> (case short_fp f of
                             Ret _ \<Rightarrow> start_server_session False compiled identity_fp
                           | _ \<Rightarrow> ConnPanic)
              | None \<Rightarrow> start_server_session False compiled identity_fp))"

section \<open>Streams (server.rs)\<close>

datatype dial_addr = DialUnix string | DialTcp string u16

definition dial_of :: "upstream \<Rightarrow> dial_addr" where
  "dial_of u =
     (case up_unix u of
        Some path \<Rightarrow> DialUnix path
      | None \<Rightarrow> DialTcp (unwrap_or (up_host u) ''127.0.0.1'') (up_port u))"

datatype served = Unserved | ServedUdp | ServedTo dial_addr

text \<open>
  \<open>handle_stream\<close> up to the copy loop: the stream at \<open>r\<close> of the session is accepted or rejected;
  \<open>bind\<close> and \<open>dial\<close> are the outcomes of the socket calls (a timeout is the error \<open>dial timeout\<close>).
\<close>

definition open_upstream ::
    "mux_env \<Rightarrow> nat \<Rightarrow> (dial_addr \<Rightarrow> (string, unit) result) \<Rightarrow> upstream \<Rightarrow> shared \<Rightarrow> shared \<times> served" where
  "open_upstream E r dial u s =
     (case dial (dial_of u) of
        Inl e \<Rightarrow> (reject_stream E r ''unreachable'' (''dial '' @ upstream_label u @ '': '' @ e) s, Unserved)
      | Inr _ \<Rightarrow> (accept_stream E r (Some (upstream_label u)) s, ServedTo (dial_of u)))"

definition handle_stream ::
    "mux_env \<Rightarrow> nat \<Rightarrow> target \<Rightarrow> router \<Rightarrow> (string, unit) result \<Rightarrow> (dial_addr \<Rightarrow> (string, unit) result) \<Rightarrow>
     shared \<Rightarrow> shared \<times> served" where
  "handle_stream E r t rt bind dial s =
     (if t_hint t = HINT_UDP then
        (case bind of
           Inl e \<Rightarrow> (reject_stream E r ''unreachable'' (''udp bind: '' @ e) s, Unserved)
         | Inr _ \<Rightarrow> (accept_stream E r (Some ''udp'') s, ServedUdp))
      else
        (case resolve rt t of
           Route _ u \<Rightarrow> open_upstream E r dial u s
         | Dial \<Rightarrow> open_upstream E r dial \<lparr>up_host = t_host t, up_port = t_port t, up_unix = t_unix t\<rparr> s
         | Deny reason \<Rightarrow> (reject_stream E r ''denied'' reason s, Unserved)))"

text \<open>\<open>handle_udp_relay\<close>: frames to datagrams until the first malformed frame, and back.\<close>

definition frame_datagram :: "udp_frame \<Rightarrow> (string \<times> u16 \<times> bytes) option" where
  "frame_datagram f =
     map_option (\<lambda>host. (host, uf_port f, uf_payload f)) (addr_bytes_to_host (uf_atyp f) (uf_addr f))"

definition udp_relay_out :: "bytes list \<Rightarrow> (string \<times> u16 \<times> bytes) list" where
  "udp_relay_out reads = (case drain_reads read_udp_frame [] reads of (fs, _, _) \<Rightarrow> filter_map frame_datagram fs)"

definition udp_respond :: "ip_addr \<times> u16 \<times> bytes \<Rightarrow> bytes" where
  "udp_respond d =
     (case d of (ip, port, payload) \<Rightarrow>
        (case ip_to_addr_bytes ip of (atyp, addr) \<Rightarrow> encode_udp_frame atyp addr port payload))"

section \<open>Connecting (client.rs)\<close>

record connect_params =
  cp_compression :: string
  cp_keepalive_sec :: u64
  cp_name :: string
  cp_rx_window :: u32
  cp_rx_window_max :: u32

definition default_connect_params :: connect_params where
  "default_connect_params =
     \<lparr>cp_compression = ''auto'', cp_keepalive_sec = 30, cp_name = ''client'', cp_rx_window = 262144, cp_rx_window_max = 4194304\<rparr>"

record 'a net =
  n_lookup :: "string \<Rightarrow> u16 \<Rightarrow> (string, 'a list) result"
  n_connect :: "'a \<Rightarrow> (string, unit) result"
  n_show :: "'a \<Rightarrow> string"
  n_tls :: "string \<Rightarrow> 'a \<Rightarrow> (string, bytes list option) result"

text \<open>The loop over the addresses: the first that answers, else the last error.\<close>

fun try_addrs :: "('a \<Rightarrow> (string, unit) result) \<Rightarrow> ('a \<Rightarrow> string) \<Rightarrow> string \<Rightarrow> 'a list \<Rightarrow> (string, 'a) result" where
  "try_addrs conn sh last_err [] = Err last_err"
| "try_addrs conn sh last_err (a # as) =
     (case conn a of Inr _ \<Rightarrow> Ok a | Inl e \<Rightarrow> try_addrs conn sh (sh a @ '': '' @ e) as)"

definition pin_check ::
    "(bytes \<Rightarrow> bytes) \<Rightarrow> (bytes \<Rightarrow> string) \<Rightarrow> string \<Rightarrow> bytes list option \<Rightarrow> unit outcome" where
  "pin_check sha256 hex pin certs =
     (case peer_fingerprint sha256 hex certs of
        Panic \<Rightarrow> Panic
      | Fail e \<Rightarrow> Fail (''parse server cert: '' @ e)
      | Ret None \<Rightarrow> Fail ''server did not present a certificate''
      | Ret (Some fp) \<Rightarrow>
          if fp = pin then Ret ()
          else (case short_fp fp of
             Ret x \<Rightarrow> Fail (''server verification failed: fingerprint mismatch (got '' @ x @ map byte_char [0xe2, 0x80, 0xa6] @ '')'')
           | _ \<Rightarrow> Panic))"

definition client_opts :: "connect_params \<Rightarrow> session_opts" where
  "client_opts p =
     \<lparr>o_is_client = True, o_name = cp_name p, o_rx_window = cp_rx_window p, o_rx_window_max = cp_rx_window_max p,
      o_max_streams = 1024, keepalive_sec = cp_keepalive_sec p\<rparr>"

definition connect ::
    "(bytes \<Rightarrow> bytes) \<Rightarrow> (bytes \<Rightarrow> string) \<Rightarrow> 'a net \<Rightarrow> string \<Rightarrow> string \<Rightarrow> connect_params \<Rightarrow> ('a \<times> session_opts) outcome" where
  "connect sha256 hex net endpoint pin params =
     (case parse_listen endpoint of
        Panic \<Rightarrow> Panic
      | Fail e \<Rightarrow> Fail (''bad endpoint '' @ endpoint @ '': '' @ e)
      | Ret (host, port) \<Rightarrow>
          (case n_lookup net host port of
             Inl e \<Rightarrow> Fail (''resolve '' @ host @ '': '' @ e)
           | Inr addrs \<Rightarrow>
               if addrs = [] then Fail (''no addresses for '' @ host)
               else case try_addrs (n_connect net) (n_show net) [] addrs of
                 Inl e \<Rightarrow> Fail (''connect '' @ host @ '':'' @ show_u16 port @ '' failed on all '' @ show_nat (length addrs) @
                              '' addresses; last: '' @ e)
               | Inr a \<Rightarrow>
                   (case n_tls net host a of
                      Inl e \<Rightarrow> Fail (''tls handshake: '' @ e)
                    | Inr certs \<Rightarrow>
                        (case pin_check sha256 hex pin certs of
                           Ret _ \<Rightarrow> Ret (a, client_opts params)
                         | Fail e \<Rightarrow> Fail e
                         | Panic \<Rightarrow> Panic))))"

definition stream_target :: "string \<Rightarrow> u16 \<Rightarrow> target" where
  "stream_target host port =
     \<lparr>t_host = (if host = [] then None else Some host), t_port = port, t_unix = None, t_hint = ''raw''\<rparr>"

definition stream_compression :: "string \<Rightarrow> string option \<Rightarrow> string" where
  "stream_compression dflt c = unwrap_or c dflt"

section \<open>Who is admitted\<close>

lemma peer_fingerprint_Some:
  "peer_fingerprint sha hex certs = Ret (Some fp) \<longleftrightarrow>
     (\<exists>cert rest spki. certs = Some (cert # rest) \<and> extract_ed25519_spki cert = Ret spki \<and>
        fp = fingerprint_of_spki sha hex spki)"
  by (auto simp: peer_fingerprint_def fingerprint_of_cert_def split: option.splits list.splits outcome.splits)

lemma fingerprint_long: "\<exists>name. short_fp (fingerprint_of_spki sha hex spki) = Ret name"
  by (simp add: short_fp_def fingerprint_of_spki_def)

lemma presented_fingerprint_long: "peer_fingerprint sha hex certs = Ret (Some fp) \<Longrightarrow> \<exists>name. short_fp fp = Ret name"
  using fingerprint_long by (auto simp: peer_fingerprint_Some)

lemma start_server_session_ends:
  "start_server_session ws c i = Session ws' opts rt \<longleftrightarrow>
     ws' = ws \<and> rt = server_router c \<and> (\<exists>name. short_fp i = Ret name \<and> opts = server_opts c name)"
  by (auto simp: start_server_session_def split: outcome.splits)

lemma not_authorized_direct:
  "\<not> authorized auth (alpn = Some ALPN) (case peer_fingerprint sha hex certs of Ret f \<Rightarrow> f | _ \<Rightarrow> None) \<Longrightarrow>
   handle_conn sha hex c i auth ws alpn certs \<noteq> Session False opts rt"
  by (auto simp: handle_conn_def Let_def log_rejected_def start_server_session_def
      split: outcome.splits option.splits ws_end.splits if_splits)

text \<open>
  C11.  Admission by the server, fail closed.  A connection becomes a session directly if and only
  if the peer spoke the protocol in ALPN and presented a certificate with an Ed25519 key whose
  fingerprint is in the list, or any such certificate in mode \<open>open\<close>; it becomes a session over
  WebSocket only if it presented no certificate with a readable key, a WebSocket identity is
  configured, and its handler, which is given the same list, admitted it.  In both cases the
  session is a server session with the configured limits and routes.
\<close>

theorem server_admission:
  assumes "short_fp identity_fp = Ret name"
  shows "(handle_conn sha hex c identity_fp auth ws alpn certs = Session False opts rt \<longleftrightarrow>
       alpn = Some ALPN \<and> opts = server_opts c name \<and> rt = server_router c \<and>
       (\<exists>cert rest spki. certs = Some (cert # rest) \<and> extract_ed25519_spki cert = Ret spki \<and>
          (as_mode auth = ''open'' \<or> fingerprint_of_spki sha hex spki \<in> set (as_fingerprints auth)))) \<and>
     (handle_conn sha hex c identity_fp auth ws alpn certs = Session True opts rt \<longrightarrow>
       opts = server_opts c name \<and> rt = server_router c \<and>
       (\<forall>cert rest spki. certs = Some (cert # rest) \<longrightarrow> extract_ed25519_spki cert \<noteq> Ret spki) \<and>
       (\<exists>handler. ws = Some handler \<and> handler auth = WsSession))"
proof -
  let ?pf = "peer_fingerprint sha hex certs"
  have start: "start_server_session b c identity_fp = Session b (server_opts c name) (server_router c)" for b
    by (simp add: start_server_session_def assms)
  show ?thesis
  proof (cases "\<exists>fp. ?pf = Ret (Some fp)")
    case True
    then obtain fp where pf: "?pf = Ret (Some fp)" by blast
    then obtain n cert rest spki where n: "short_fp fp = Ret n" and k: "certs = Some (cert # rest)"
      "extract_ed25519_spki cert = Ret spki" "fp = fingerprint_of_spki sha hex spki"
      using presented_fingerprint_long [OF pf] by (auto simp: peer_fingerprint_Some)
    have "handle_conn sha hex c identity_fp auth ws alpn certs =
        (if authorized auth (alpn = Some ALPN) (Some fp) then Session False (server_opts c name) (server_router c) else Rejected)"
      using n by (simp add: handle_conn_def pf Let_def start log_rejected_def split: option.split)
    then show ?thesis using k by (auto simp: authorized_def)
  next
    case False
    then have no: "extract_ed25519_spki cert \<noteq> Ret spki" if "certs = Some (cert # rest)" for cert rest spki
      using that peer_fingerprint_Some [of sha hex certs] by blast
    have "\<not> authorized auth (alpn = Some ALPN) (case ?pf of Ret f \<Rightarrow> f | _ \<Rightarrow> None)"
      using False by (auto simp: authorized_def split: outcome.splits option.splits)
    note not_authorized_direct [OF this]
    moreover have "opts = server_opts c name \<and> rt = server_router c \<and> (\<exists>handler. ws = Some handler \<and> handler auth = WsSession)"
      if "handle_conn sha hex c identity_fp auth ws alpn certs = Session True opts rt"
      using that False
      by (auto simp: handle_conn_def Let_def start log_rejected_def authorized_def split: outcome.splits option.splits ws_end.splits if_splits)
    ultimately show ?thesis using no by blast
  qed
qed

definition demo_spki :: bytes where
  "demo_spki = [0x30, 0x81, 11, 0x30, 5, 6, 3, 0x2b, 0x65, 0x70, 3, 2, 0, 9]"

definition demo_cert :: bytes where
  "demo_cert = [0x30, 29, 0x30, 27, 0xa0, 0, 2, 1, 1, 0x30, 0, 0x30, 0, 0x30, 0, 0x30, 0] @ demo_spki"

lemma demo_cert_key: "extract_ed25519_spki demo_cert = Ret demo_spki"
  by code_simp

definition demo_compiled :: compiled_server where
  "demo_compiled = \<lparr>cs_cfg = \<lparr>sc_listen = ''443'', sc_identity = \<lparr>ic_key = ''k'', ic_cert = ''c''\<rparr>,
       sc_auth = \<lparr>auth_mode = ''whitelist'', auth_fingerprints = [], auth_clients = []\<rparr>, sc_routes = [], sc_fallback = None,
       sc_fallback2 = None, sc_client_targets = None, sc_keepalive_sec = 30, sc_max_streams = 8, sc_rx_window = 65536,
       sc_rx_window_max = 65536, sc_zstd_dictionary = None, sc_log_level = ''info''\<rparr>,
     cs_fingerprints = [''sha256:ab''], cs_routes = [], cs_fallback = None,
     cs_client_targets = \<lparr>ct_enabled = False, allow_hosts = [], allow_ports = []\<rparr>\<rparr>"

theorem server_admission_witness:
  "handle_conn id (\<lambda>_. ''ab'') demo_compiled ''sha256:cd'' \<lparr>as_mode = ''whitelist'', as_fingerprints = [''sha256:ab'']\<rparr>
     None (Some ALPN) (Some [demo_cert]) = Session False (server_opts demo_compiled ''cd'') (server_router demo_compiled) \<and>
   handle_conn id (\<lambda>_. ''ab'') demo_compiled ''sha256:cd'' \<lparr>as_mode = ''whitelist'', as_fingerprints = [''sha256:ab'']\<rparr>
     None None (Some [demo_cert]) \<noteq> Session False (server_opts demo_compiled ''cd'') (server_router demo_compiled)"
proof -
  have n: "short_fp ''sha256:cd'' = Ret ''cd''" by (simp add: short_fp_def)
  show ?thesis
    using server_admission [OF n, where certs = "Some [demo_cert]" and hex = "\<lambda>_. ''ab''" and sha = id
        and auth = "\<lparr>as_mode = ''whitelist'', as_fingerprints = [''sha256:ab'']\<rparr>"]
    by (simp add: demo_cert_key fingerprint_of_spki_def)
qed

lemma try_addrs_Ok:
  "try_addrs conn sh e as = Ok b \<longleftrightarrow>
     (\<exists>pre post. as = pre @ b # post \<and> list_all (\<lambda>b. isl (conn b)) pre \<and> conn b = Ok ())"
proof (induction as arbitrary: e)
  case (Cons x as)
  let ?P = "\<lambda>as pre post. as = pre @ b # post \<and> list_all (\<lambda>b. isl (conn b)) pre \<and> conn b = Ok ()"
  show ?case
  proof (cases "conn x")
    case (Inl err)
    have "\<exists>pre post. ?P as pre post" if "?P (x # as) pre post" for pre post
      using that Inl by (cases pre) auto
    moreover have "?P (x # as) (x # pre) post" if "?P as pre post" for pre post
      using that Inl by simp
    ultimately show ?thesis using Inl Cons.IH by (metis (no_types, lifting) try_addrs.simps(2) sum.simps(5))
  next
    case (Inr u)
    then show ?thesis by (auto simp: Cons_eq_append_conv)
  qed
qed simp

lemma pin_check_Ret: "pin_check sha hex pin certs = Ret u \<longleftrightarrow> peer_fingerprint sha hex certs = Ret (Some pin)"
  by (auto simp: pin_check_def split: outcome.splits option.splits)

lemma connect_Ret:
  "connect sha hex net endpoint pin params = Ret (a, opts) \<longleftrightarrow>
     opts = client_opts params \<and>
     (\<exists>host port addrs certs. parse_listen endpoint = Ret (host, port) \<and> n_lookup net host port = Ok addrs \<and>
        try_addrs (n_connect net) (n_show net) [] addrs = Ok a \<and> n_tls net host a = Ok certs \<and>
        pin_check sha hex pin certs = Ret ())"
  unfolding connect_def by (auto split: outcome.splits sum.splits)

text \<open>
  Pinning by the client, fail closed.  Connecting succeeds if and only if the endpoint parses,
  its name resolves, the address used is the first one that answers, the handshake with it
  succeeds, and the first certificate the server presents has an Ed25519 key whose fingerprint is
  the pinned one; the session then is a client session with the given parameters.
\<close>

theorem client_pins_server:
  "connect sha hex net endpoint pin params = Ret (a, opts) \<longleftrightarrow>
     opts = client_opts params \<and>
     (\<exists>host port pre post cert rest spki.
        parse_listen endpoint = Ret (host, port) \<and> n_lookup net host port = Ok (pre @ a # post) \<and>
        list_all (\<lambda>b. isl (n_connect net b)) pre \<and> n_connect net a = Ok () \<and>
        n_tls net host a = Ok (Some (cert # rest)) \<and> extract_ed25519_spki cert = Ret spki \<and>
        fingerprint_of_spki sha hex spki = pin)"
  unfolding connect_Ret pin_check_Ret peer_fingerprint_Some try_addrs_Ok by blast

section \<open>What becomes of a stream\<close>

lemma resolve_Dial:
  assumes "resolve rt t = Dial"
  shows "ct_enabled (rt_client_targets rt)" and "t_unix t = None" and "t_port t > 0"
    and "port_matches (allow_ports (rt_client_targets rt)) (t_port t)"
    and "\<And>h. Option.bind (t_host t) normalize_host = Some h \<Longrightarrow>
      list_ex (\<lambda>p. host_matches p h) (allow_hosts (rt_client_targets rt))"
proof -
  have n: "no_route rt t"
    using resolve_routed [of rt t] assms by (fastforce split: option.splits)
  note r = resolve_no_route [OF n]
  show "ct_enabled (rt_client_targets rt)" and "t_unix t = None" and "t_port t > 0"
    and "port_matches (allow_ports (rt_client_targets rt)) (t_port t)"
    and "\<And>h. Option.bind (t_host t) normalize_host = Some h \<Longrightarrow>
      list_ex (\<lambda>p. host_matches p h) (allow_hosts (rt_client_targets rt))"
    using assms unfolding r by (auto split: option.splits if_splits)
qed

text \<open>The answer to an OPEN: one acknowledgement in the queue, and never another.\<close>

definition answered :: "mux_env \<Rightarrow> nat \<Rightarrow> json \<Rightarrow> shared \<Rightarrow> shared \<Rightarrow> bool" where
  "answered E r body s s' \<longleftrightarrow>
     writer_q s' = writer_q s @ [encode_frame FT_OPEN_ACK 0 (si_id (heap s ! r)) (json_print E body)] \<and>
     ack_done (heap s' ! r)"

definition can_answer :: "nat \<Rightarrow> shared \<Rightarrow> bool" where
  "can_answer r s \<longleftrightarrow> r < length (heap s) \<and> \<not> ack_done (heap s ! r) \<and> \<not> closed s \<and> writer_open s \<and>
     length (writer_q s) < WRITER_QUEUE"

lemma accept_answers:
  assumes "can_answer r s"
  shows "\<exists>body. answered E r body s (accept_stream E r up s) \<and> json_get body ''ok'' = Some (JBool True)"
proof -
  let ?body = "JObject [(''ok'', JBool True), (''compression'', JString (compression (heap s ! r))), (''upstream'', json_opt_str up)]"
  have "answered E r ?body s (accept_stream E r up s)"
    using assms by (simp add: can_answer_def answered_def accept_stream_def send_control_def try_send_def upd_stream_def Let_def)
  then show ?thesis by (intro exI [of _ ?body]) simp
qed

lemma reject_answers:
  assumes "can_answer r s"
  shows "\<exists>body. answered E r body s (reject_stream E r code reason s) \<and> json_get body ''ok'' = Some (JBool False)"
proof -
  let ?body = "JObject [(''ok'', JBool False), (''code'', JString code), (''reason'', JString reason)]"
  have "answered E r ?body s (reject_stream E r code reason s)"
    using assms
    by (simp add: can_answer_def answered_def reject_stream_def send_control_def try_send_def upd_stream_def try_inbound_def Let_def)
  then show ?thesis by (intro exI [of _ ?body]) simp
qed

lemma answered_final:
  "answered E r body s s' \<Longrightarrow> accept_stream E r up s' = s' \<and> reject_stream E r code reason s' = s'"
  by (simp add: answered_def accept_stream_def reject_stream_def)

text \<open>The three ways a stream ends up served.\<close>

definition legitimate :: "target \<Rightarrow> router \<Rightarrow> (dial_addr \<Rightarrow> (string, unit) result) \<Rightarrow> served \<Rightarrow> bool" where
  "legitimate t rt dial sv \<longleftrightarrow>
     (case sv of
        Unserved \<Rightarrow> True
      | ServedUdp \<Rightarrow> t_hint t = HINT_UDP
      | ServedTo a \<Rightarrow> t_hint t \<noteq> HINT_UDP \<and> dial a = Ok () \<and>
          ((\<exists>i u. resolve rt t = Route i u \<and> a = dial_of u) \<or>
           resolve rt t = Dial \<and> a = DialTcp (unwrap_or (t_host t) ''127.0.0.1'') (t_port t) \<and>
           ct_enabled (rt_client_targets rt) \<and> t_port t > 0 \<and>
           port_matches (allow_ports (rt_client_targets rt)) (t_port t)))"

lemma open_upstream_ends:
  assumes "can_answer r s"
  shows "\<exists>body. answered E r body s (fst (open_upstream E r dial u s)) \<and>
     json_get body ''ok'' = Some (JBool (snd (open_upstream E r dial u s) \<noteq> Unserved))"
    and "snd (open_upstream E r dial u s) = Unserved \<or> snd (open_upstream E r dial u s) = ServedTo (dial_of u) \<and> dial (dial_of u) = Ok ()"
proof -
  show "\<exists>body. answered E r body s (fst (open_upstream E r dial u s)) \<and>
     json_get body ''ok'' = Some (JBool (snd (open_upstream E r dial u s) \<noteq> Unserved))"
    using accept_answers [OF assms] reject_answers [OF assms] by (cases "dial (dial_of u)") (simp_all add: open_upstream_def)
  show "snd (open_upstream E r dial u s) = Unserved \<or> snd (open_upstream E r dial u s) = ServedTo (dial_of u) \<and> dial (dial_of u) = Ok ()"
    by (simp add: open_upstream_def split: sum.split)
qed

text \<open>
  Dispatch of a stream by the server.  An upstream is dialled only where the router sent the
  target: to the upstream of the matching route, or to the TCP address the client named when the policy
  for client targets is enabled and allows its port; never to a Unix socket the client named.  A
  stream is relayed as datagrams only when it asks for it.  Whatever happens, exactly one
  acknowledgement is queued, positive exactly when the stream is served, and no later answer
  can follow it.
\<close>

theorem stream_dispatch:
  assumes "can_answer r s" and "handle_stream E r t rt bind dial s = (s', sv)"
  shows "legitimate t rt dial sv \<and>
    (\<exists>body. answered E r body s s' \<and> json_get body ''ok'' = Some (JBool (sv \<noteq> Unserved))) \<and>
    accept_stream E r up s' = s' \<and> reject_stream E r code reason s' = s'"
proof -
  have "legitimate t rt dial sv \<and> (\<exists>body. answered E r body s s' \<and> json_get body ''ok'' = Some (JBool (sv \<noteq> Unserved)))"
  proof (cases "t_hint t = HINT_UDP")
    case True
    then show ?thesis
      using assms(2) accept_answers [OF assms(1)] reject_answers [OF assms(1)]
      by (cases bind) (auto simp: handle_stream_def legitimate_def)
  next
    case False
    show ?thesis
    proof (cases "resolve rt t")
      case (Route i u)
      then show ?thesis using False assms(2) open_upstream_ends [OF assms(1), of E dial u]
        by (auto simp: handle_stream_def legitimate_def)
    next
      case Dial
      let ?u = "\<lparr>up_host = t_host t, up_port = t_port t, up_unix = t_unix t\<rparr>"
      have "dial_of ?u = DialTcp (unwrap_or (t_host t) ''127.0.0.1'') (t_port t)"
        by (simp add: dial_of_def resolve_Dial(2) [OF Dial])
      then show ?thesis using False assms(2) open_upstream_ends [OF assms(1), of E dial ?u] resolve_Dial [OF Dial]
        by (auto simp: handle_stream_def legitimate_def Dial)
    next
      case (Deny why)
      then show ?thesis using False assms(2) reject_answers [OF assms(1)]
        by (auto simp: handle_stream_def legitimate_def)
    qed
  qed
  then show ?thesis using answered_final by blast
qed

theorem stream_dispatch_witness:
  "case handle_stream demo_mux_env 0 \<lparr>t_host = Some ''nas.example'', t_port = 80, t_unix = None, t_hint = ''raw''\<rparr>
      demo_router (Ok ()) (\<lambda>_. Ok ()) demo_out of
     (s', sv) \<Rightarrow> sv = ServedTo (DialTcp ''127.0.0.1'' 5000) \<and> ack_done (heap s' ! 0) \<and> length (writer_q s') = 1"
proof -
  let ?t = "\<lparr>t_host = Some ''nas.example'', t_port = 80, t_unix = None, t_hint = ''raw''\<rparr>"
  have res: "resolve demo_router ?t = Route 0 \<lparr>up_host = Some ''127.0.0.1'', up_port = 5000, up_unix = None\<rparr>"
    by code_simp
  have sv: "snd (handle_stream demo_mux_env 0 ?t demo_router (Ok ()) (\<lambda>_. Ok ()) demo_out) = ServedTo (DialTcp ''127.0.0.1'' 5000)"
    by (simp add: handle_stream_def res HINT_UDP_def open_upstream_def dial_of_def)
  have ok: "can_answer 0 demo_out"
    by (simp add: can_answer_def demo_out_facts demo_stream_def new_inner_def WRITER_QUEUE_def)
  obtain s' v where h: "handle_stream demo_mux_env 0 ?t demo_router (Ok ()) (\<lambda>_. Ok ()) demo_out = (s', v)" by fastforce
  show ?thesis
    using stream_dispatch [OF ok h, of None "[]" "[]"] sv h by (auto simp: answered_def demo_out_facts)
qed

text \<open>A stream for datagrams is accepted whatever the router says of its target, and they go where their frames say.\<close>

lemma datagrams_ignore_policy:
  assumes "t_hint t = HINT_UDP"
  shows "snd (handle_stream E r t \<lparr>routes = [], fallback = None, rt_client_targets = \<lparr>ct_enabled = False, allow_hosts = [], allow_ports = []\<rparr>\<rparr>
    (Ok ()) dial s) = ServedUdp"
  using assms by (simp add: handle_stream_def)

section \<open>Datagrams across the tunnel\<close>

lemma sendable_datagram:
  "udp_sendable f \<Longrightarrow> frame_datagram f = Some (the (addr_bytes_to_host (uf_atyp f) (uf_addr f)), uf_port f, uf_payload f)"
  by (auto simp: udp_sendable_def addr_ok_def frame_datagram_def addr_bytes_to_host_def)

lemma filter_map_total: "list_all (\<lambda>x. f x = Some (g x)) xs \<Longrightarrow> filter_map f xs = map g xs"
  by (induction xs) auto

text \<open>An answer from an address of the right length, within the datagram limit.\<close>

definition response_frame :: "ip_addr \<times> u16 \<times> bytes \<Rightarrow> udp_frame" where
  "response_frame d =
     (case d of (ip, port, payload) \<Rightarrow>
        \<lparr>uf_atyp = fst (ip_to_addr_bytes ip), uf_addr = snd (ip_to_addr_bytes ip), uf_port = port, uf_payload = payload\<rparr>)"

lemma udp_respond_frame: "udp_respond d = encode_udp (response_frame d)"
  by (simp add: udp_respond_def response_frame_def encode_udp_def split: prod.split)

text \<open>
  C25.  A UDP association from end to end.  The server sends, in order, exactly the datagrams the
  client's own datagrams ask for (host, port and payload), all of them while the association lives at
  the client and a prefix of them otherwise, however the stream cuts the bytes; and the frames it
  writes for the answers are read back by the client side exactly.
\<close>

theorem udp_relay_end_to_end:
  assumes "ra_client (relay_run evs) = Some c" and "list_all event_fits evs"
    and "concat reads = concat (ra_tunnel (relay_run evs))"
    and "list_all (\<lambda>d. udp_sendable (response_frame d)) answers" and "concat back_reads = concat (map udp_respond answers)"
  shows "(\<exists>fs. prefix fs (filter_map (event_frame c) evs) \<and> (ra_up (relay_run evs) \<longrightarrow> fs = filter_map (event_frame c) evs) \<and>
       udp_relay_out reads = map (\<lambda>f. (the (addr_bytes_to_host (uf_atyp f) (uf_addr f)), uf_port f, uf_payload f)) fs) \<and>
     drain_reads read_udp_frame [] back_reads = (map response_frame answers, [], None)"
proof -
  obtain fs where fs: "concat (ra_tunnel (relay_run evs)) = concat (map encode_udp fs)" "list_all udp_sendable fs"
      "prefix fs (filter_map (event_frame c) evs)" "ra_up (relay_run evs) \<Longrightarrow> fs = filter_map (event_frame c) evs"
    using relay_tunnel_decodes [OF assms(1,2)] by blast
  have "drain_reads read_udp_frame [] reads = (fs, [], None)"
    using fs assms(3) by (intro udp.reads_roundtrip) simp_all
  then have "udp_relay_out reads = map (\<lambda>f. (the (addr_bytes_to_host (uf_atyp f) (uf_addr f)), uf_port f, uf_payload f)) fs"
    using fs(2) by (simp add: udp_relay_out_def filter_map_total sendable_datagram list_all_iff)
  moreover have "drain_reads read_udp_frame [] back_reads = (map response_frame answers, [], None)"
    using assms(4,5) by (intro udp.reads_roundtrip) (simp_all add: udp_respond_frame [abs_def] list_all_iff comp_def)
  ultimately show ?thesis using fs(3,4) by blast
qed

theorem udp_relay_end_to_end_witness:
  "udp_relay_out [concat (ra_tunnel (relay_run demo_relay))] = [(''8.8.8.8'', 53, [42])] \<and>
   drain_reads read_udp_frame [] [[1, 8, 8, 8], [8, 0, 53, 0, 0, 0, 1, 77]] =
     ([\<lparr>uf_atyp = 1, uf_addr = [8, 8, 8, 8], uf_port = 53, uf_payload = [77]\<rparr>], [], None)"
proof -
  have host: "addr_bytes_to_host 1 [8, 8, 8, 8] = Some ''8.8.8.8''" by code_simp
  have fits: "list_all event_fits demo_relay" by (simp add: demo_relay_def)
  have frame: "response_frame (V4 [8, 8, 8, 8], 53, [77]) = \<lparr>uf_atyp = 1, uf_addr = [8, 8, 8, 8], uf_port = 53, uf_payload = [77]\<rparr>"
    by (simp add: response_frame_def)
  show ?thesis
    using udp_relay_end_to_end [OF demo_relay_run(1) fits, where reads = "[concat (ra_tunnel (relay_run demo_relay))]"
        and answers = "[(V4 [8, 8, 8, 8], 53, [77])]" and back_reads = "[[1, 8, 8, 8], [8, 0, 53, 0, 0, 0, 1, 77]]"]
    by (simp add: demo_relay_run frame host udp_sendable_def addr_ok_def MAX_UDP_PAYLOAD_def udp_respond_frame encode_udp_def
        encode_udp_frame_def addr_wire_def u16_to_be_def u32_to_be_def be_simps)
qed

end
