(* ===== verification/ConfigJson.thy ===== *)
theory ConfigJson
  imports Server
begin

text \<open>
  Configuration files: the structures \<open>ServerCfg\<close> and \<open>ClientCfg\<close> of \<open>crates/krymux/src/config.rs\<close> as the deserialiser
  derived from them reads them, with their defaults, and the loading of both files.

  A configuration is a JSON object (the derived code also reads arrays, which is not modelled).  A member may not be given twice, also not
  under an alias; others than the known ones are ignored.  Reading a file and parsing its text are
  parameters.

  Lemmas: omitted members have their defaults, numbers that do not fit are refused and never wrap; a server
  whose file says nothing about authorisation admits no certificate.
\<close>

section \<open>Members\<close>

definition and_then :: "('e, 'a) result \<Rightarrow> ('a \<Rightarrow> ('e, 'b) result) \<Rightarrow> ('e, 'b) result" where
  "and_then r f = (case r of Err e \<Rightarrow> Err e | Ok a \<Rightarrow> f a)"

lemma and_then_simps [simp]: "and_then (Ok a) f = f a" "and_then (Err e) f = Err e"
  by (simp_all add: and_then_def)

lemma and_then_Ok: "and_then r f = Ok b \<longleftrightarrow> (\<exists>a. r = Ok a \<and> f a = Ok b)"
  by (cases r) simp_all

fun members :: "json \<Rightarrow> (string, (string \<times> json) list) result" where
  "members (JObject ms) = Ok ms"
| "members _ = Err ''invalid type: expected an object''"

text \<open>A member under one of its names.\<close>

definition member :: "string list \<Rightarrow> (string \<times> json) list \<Rightarrow> (string, json option) result" where
  "member names ms =
     (case filter (\<lambda>(k, _). k \<in> set names) ms of
        [] \<Rightarrow> Ok None
      | [(_, v)] \<Rightarrow> Ok (Some v)
      | _ \<Rightarrow> Err (''duplicate field '' @ hd names))"

definition required :: "string \<Rightarrow> (json \<Rightarrow> (string, 'a) result) \<Rightarrow> (string \<times> json) list \<Rightarrow> (string, 'a) result" where
  "required name read ms =
     and_then (member [name] ms) (\<lambda>m. case m of None \<Rightarrow> Err (''missing field '' @ name) | Some v \<Rightarrow> read v)"

definition defaulted :: "string list \<Rightarrow> 'a \<Rightarrow> (json \<Rightarrow> (string, 'a) result) \<Rightarrow> (string \<times> json) list \<Rightarrow> (string, 'a) result" where
  "defaulted names d read ms = and_then (member names ms) (\<lambda>m. case m of None \<Rightarrow> Ok d | Some v \<Rightarrow> read v)"

fun read_string :: "json \<Rightarrow> (string, string) result" where
  "read_string (JString s) = Ok s"
| "read_string _ = Err ''invalid type: expected a string''"

fun read_bool :: "json \<Rightarrow> (string, bool) result" where
  "read_bool (JBool b) = Ok b"
| "read_bool _ = Err ''invalid type: expected a boolean''"

fun read_u64 :: "json \<Rightarrow> (string, u64) result" where
  "read_u64 (JPosInt n) = Ok n"
| "read_u64 (JNegInt _) = Err ''invalid value: expected u64''"
| "read_u64 _ = Err ''invalid type: expected u64''"

definition read_usize :: "json \<Rightarrow> (string, nat) result" where
  "read_usize v = and_then (read_u64 v) (\<lambda>n. Ok (unat n))"

definition read_u32 :: "json \<Rightarrow> (string, u32) result" where
  "read_u32 v = and_then (read_u64 v) (\<lambda>n. if unat n < 2 ^ 32 then Ok (ucast n) else Err ''invalid value: expected u32'')"

fun read_list :: "(json \<Rightarrow> (string, 'a) result) \<Rightarrow> json list \<Rightarrow> (string, 'a list) result" where
  "read_list read [] = Ok []"
| "read_list read (v # vs) = and_then (read v) (\<lambda>x. and_then (read_list read vs) (\<lambda>xs. Ok (x # xs)))"

fun read_vec :: "(json \<Rightarrow> (string, 'a) result) \<Rightarrow> json \<Rightarrow> (string, 'a list) result" where
  "read_vec read (JArray vs) = read_list read vs"
| "read_vec read _ = Err ''invalid type: expected a sequence''"

text \<open>\<open>Option\<close>: \<open>null\<close> is \<open>None\<close>.\<close>

fun read_option :: "(json \<Rightarrow> (string, 'a) result) \<Rightarrow> json \<Rightarrow> (string, 'a option) result" where
  "read_option read JNull = Ok None"
| "read_option read v = and_then (read v) (\<lambda>x. Ok (Some x))"

definition opt_value :: "string list \<Rightarrow> (string \<times> json) list \<Rightarrow> (string, json option) result" where
  "opt_value names = defaulted names None (read_option Ok)"

section \<open>The structures\<close>

definition identity_cfg_of :: "json \<Rightarrow> (string, identity_cfg) result" where
  "identity_cfg_of v =
     and_then (members v) (\<lambda>ms. and_then (required ''key'' read_string ms) (\<lambda>k.
       and_then (required ''cert'' read_string ms) (\<lambda>c. Ok \<lparr>ic_key = k, ic_cert = c\<rparr>)))"

definition default_mode :: string where "default_mode = ''whitelist''"

definition auth_cfg_of :: "json \<Rightarrow> (string, auth_cfg) result" where
  "auth_cfg_of v =
     and_then (members v) (\<lambda>ms. and_then (defaulted [''mode''] default_mode read_string ms) (\<lambda>m.
       and_then (defaulted [''fingerprints''] [] (read_vec read_string) ms) (\<lambda>f.
       and_then (defaulted [''clients''] [] (read_vec read_string) ms) (\<lambda>c.
         Ok \<lparr>auth_mode = m, auth_fingerprints = f, auth_clients = c\<rparr>))))"

text \<open>The derived \<open>AuthCfg::default()\<close>, for a file without the section, does not use \<open>default_mode\<close>.\<close>

definition auth_cfg_default :: auth_cfg where
  "auth_cfg_default = \<lparr>auth_mode = [], auth_fingerprints = [], auth_clients = []\<rparr>"

definition raw_route_of :: "json \<Rightarrow> (string, raw_route) result" where
  "raw_route_of v =
     and_then (members v) (\<lambda>ms. and_then (opt_value [''host''] ms) (\<lambda>h. and_then (opt_value [''hosts''] ms) (\<lambda>h2.
       and_then (opt_value [''port''] ms) (\<lambda>p. and_then (opt_value [''ports''] ms) (\<lambda>p2. and_then (opt_value [''upstream''] ms) (\<lambda>u.
         Ok \<lparr>rr_host = h, rr_hosts_alt = h2, rr_port = p, rr_ports_alt = p2, rr_upstream = u\<rparr>))))))"

definition raw_client_targets_of :: "json \<Rightarrow> (string, raw_client_targets) result" where
  "raw_client_targets_of v =
     and_then (members v) (\<lambda>ms. and_then (defaulted [''enabled''] False read_bool ms) (\<lambda>e.
       and_then (opt_value [''allowHosts''] ms) (\<lambda>h. and_then (opt_value [''allowPorts''] ms) (\<lambda>p.
         Ok \<lparr>rct_enabled = e, rct_allow_hosts = h, rct_allow_ports = p\<rparr>))))"

definition log_level_of :: "json \<Rightarrow> (string, string) result" where
  "log_level_of v = and_then (members v) (\<lambda>ms. defaulted [''level''] ''info'' read_string ms)"

definition default_keepalive :: u64 where "default_keepalive = 30"
definition default_max_streams :: nat where "default_max_streams = 1024"
definition default_rx_window :: u32 where "default_rx_window = 262144"
definition default_rx_window_max :: u32 where "default_rx_window_max = 4194304"
definition default_compression :: string where "default_compression = ''auto''"

definition server_cfg_of :: "json \<Rightarrow> (string, server_cfg) result" where
  "server_cfg_of v =
     and_then (members v) (\<lambda>ms.
     and_then (required ''listen'' read_string ms) (\<lambda>listen.
     and_then (required ''identity'' identity_cfg_of ms) (\<lambda>ident.
     and_then (defaulted [''auth''] auth_cfg_default auth_cfg_of ms) (\<lambda>auth.
     and_then (defaulted [''routes''] [] (read_vec raw_route_of) ms) (\<lambda>routes.
     and_then (opt_value [''fallbackUpstream''] ms) (\<lambda>fb.
     and_then (opt_value [''fallbackUpstream2'', ''defaultUpstream''] ms) (\<lambda>fb2.
     and_then (defaulted [''clientTargets''] None (read_option raw_client_targets_of) ms) (\<lambda>ct.
     and_then (defaulted [''keepaliveSec''] default_keepalive read_u64 ms) (\<lambda>ka.
     and_then (defaulted [''maxStreams''] default_max_streams read_usize ms) (\<lambda>mx.
     and_then (defaulted [''rxWindow''] default_rx_window read_u32 ms) (\<lambda>rw.
     and_then (defaulted [''rxWindowMax''] default_rx_window_max read_u32 ms) (\<lambda>rwm.
     and_then (defaulted [''zstdDictionary''] None (read_option read_string) ms) (\<lambda>zd.
     and_then (defaulted [''log''] [] log_level_of ms) (\<lambda>lv.
       Ok \<lparr>sc_listen = listen, sc_identity = ident, sc_auth = auth, sc_routes = routes, sc_fallback = fb, sc_fallback2 = fb2,
           sc_client_targets = ct, sc_keepalive_sec = ka, sc_max_streams = mx, sc_rx_window = rw, sc_rx_window_max = rwm,
           sc_zstd_dictionary = zd, sc_log_level = lv\<rparr>))))))))))))))"

record client_cfg =
  cc_endpoint :: string
  cc_identity :: identity_cfg
  cc_server_fingerprint :: string
  cc_compression :: string
  cc_keepalive_sec :: u64
  cc_rx_window :: u32
  cc_rx_window_max :: u32
  cc_socks5 :: "string option"
  cc_http_proxy :: "string option"
  cc_zstd_dictionary :: "string option"
  cc_log_level :: string

definition client_cfg_of :: "json \<Rightarrow> (string, client_cfg) result" where
  "client_cfg_of v =
     and_then (members v) (\<lambda>ms.
     and_then (required ''endpoint'' read_string ms) (\<lambda>endpoint.
     and_then (required ''identity'' identity_cfg_of ms) (\<lambda>ident.
     and_then (required ''serverFingerprint'' read_string ms) (\<lambda>fp.
     and_then (defaulted [''compression''] default_compression read_string ms) (\<lambda>comp.
     and_then (defaulted [''keepaliveSec''] default_keepalive read_u64 ms) (\<lambda>ka.
     and_then (defaulted [''rxWindow''] default_rx_window read_u32 ms) (\<lambda>rw.
     and_then (defaulted [''rxWindowMax''] default_rx_window_max read_u32 ms) (\<lambda>rwm.
     and_then (defaulted [''socks5''] None (read_option read_string) ms) (\<lambda>s5.
     and_then (defaulted [''httpProxy''] None (read_option read_string) ms) (\<lambda>hp.
     and_then (defaulted [''zstdDictionary''] None (read_option read_string) ms) (\<lambda>zd.
     and_then (defaulted [''log''] [] log_level_of ms) (\<lambda>lv.
       Ok \<lparr>cc_endpoint = endpoint, cc_identity = ident, cc_server_fingerprint = fp, cc_compression = comp, cc_keepalive_sec = ka,
           cc_rx_window = rw, cc_rx_window_max = rwm, cc_socks5 = s5, cc_http_proxy = hp, cc_zstd_dictionary = zd,
           cc_log_level = lv\<rparr>))))))))))))"

section \<open>The files\<close>

record cfg_io =
  cf_read :: "string \<Rightarrow> (string, string) result"
  cf_json :: "string \<Rightarrow> (string, json) result"
  cf_bytes :: "string \<Rightarrow> (string, bytes) result"

definition load_server_file ::
    "(bytes \<Rightarrow> bytes) \<Rightarrow> (bytes \<Rightarrow> string) \<Rightarrow> pem_files \<Rightarrow> cfg_io \<Rightarrow> string \<Rightarrow> compiled_server outcome" where
  "load_server_file sha256 hex files io path =
     (case cf_read io path of
        Err e \<Rightarrow> Fail (''read config '' @ path @ '': '' @ e)
      | Ok t \<Rightarrow>
          (case and_then (cf_json io t) server_cfg_of of
             Err e \<Rightarrow> Fail (''parse server config: '' @ e)
           | Ok cfg \<Rightarrow> load_server_cfg sha256 hex files cfg))"

definition register_zstd_dictionary ::
    "(bytes \<Rightarrow> bytes) \<Rightarrow> (bytes \<Rightarrow> string) \<Rightarrow> cfg_io \<Rightarrow> string option \<Rightarrow> codec_env \<Rightarrow> codec_env" where
  "register_zstd_dictionary sha256 hex io dict_path env =
     (case dict_path of
        None \<Rightarrow> env
      | Some path \<Rightarrow> (case cf_bytes io path of Ok bs \<Rightarrow> snd (set_zstd_dictionary sha256 hex env bs) | Err _ \<Rightarrow> env))"

definition load_client_cfg ::
    "(bytes \<Rightarrow> bytes) \<Rightarrow> (bytes \<Rightarrow> string) \<Rightarrow> cfg_io \<Rightarrow> string \<Rightarrow> codec_env \<Rightarrow> (string, client_cfg) result \<times> codec_env" where
  "load_client_cfg sha256 hex io path env =
     (case cf_read io path of
        Err e \<Rightarrow> (Err (''read config '' @ path @ '': '' @ e), env)
      | Ok t \<Rightarrow>
          (case and_then (cf_json io t) client_cfg_of of
             Err e \<Rightarrow> (Err (''parse client config: '' @ e), env)
           | Ok cfg \<Rightarrow> (Ok cfg, register_zstd_dictionary sha256 hex io (cc_zstd_dictionary cfg) env)))"

section \<open>What a configuration that was read comes from\<close>

lemma member_None: "member names ms = Ok None \<longleftrightarrow> (\<forall>(k, v) \<in> set ms. k \<notin> set names)"
proof -
  have "filter (\<lambda>(k, _). k \<in> set names) ms = [] \<longleftrightarrow> (\<forall>(k, v) \<in> set ms. k \<notin> set names)" by (auto simp: filter_empty_conv)
  then show ?thesis by (auto simp: member_def split: list.splits)
qed

lemma member_Some:
  assumes "member names ms = Ok (Some v)"
  shows "\<exists>k \<in> set names. (k, v) \<in> set ms"
proof -
  from assms obtain k where "filter (\<lambda>(k, _). k \<in> set names) ms = [(k, v)]" by (auto simp: member_def split: list.splits)
  then have "(k, v) \<in> set (filter (\<lambda>(k, _). k \<in> set names) ms)" by simp
  then show ?thesis by auto
qed

lemma member_one:
  assumes "member [name] ms = Ok m"
  shows "map_of ms name = m"
proof (cases m)
  case None
  then have "name \<notin> fst ` set ms" using assms by (auto simp: member_None)
  then show ?thesis by (simp add: None map_of_eq_None_iff)
next
  case (Some v)
  then obtain k where "filter (\<lambda>(k, _). k \<in> set [name]) ms = [(k, v)]" using assms by (auto simp: member_def split: list.splits)
  then have f: "filter (\<lambda>(k, _). k = name) ms = [(k, v)]" by simp
  then have "(k, v) \<in> set (filter (\<lambda>(k, _). k = name) ms)" by simp
  then have k: "k = name" by simp
  have "map_of ms name = map_of (filter (\<lambda>(k, _). k = name) ms) name" by (induction ms) auto
  then show ?thesis by (simp add: f k Some)
qed

lemma defaulted_one: "defaulted [name] d read ms = Ok x \<Longrightarrow> (case map_of ms name of None \<Rightarrow> x = d | Some v \<Rightarrow> read v = Ok x)"
  by (auto simp: defaulted_def and_then_Ok dest!: member_one split: option.splits)

lemma read_strings: "read_vec read_string v = Ok xs \<Longrightarrow> \<exists>vs. v = JArray vs \<and> (\<forall>x \<in> set xs. JString x \<in> set vs)"
proof -
  assume r: "read_vec read_string v = Ok xs"
  then obtain vs where v: "v = JArray vs" by (cases v) simp_all
  have "read_list read_string vs = Ok xs \<Longrightarrow> \<forall>x \<in> set xs. JString x \<in> set vs"
  proof (induction vs arbitrary: xs)
    case (Cons u vs)
    then show ?case by (cases u) (auto simp: and_then_Ok)
  qed simp
  then show ?thesis using r v by simp
qed

lemma members_Ok: "members v = Ok ms \<longleftrightarrow> v = JObject ms"
  by (cases v) auto

lemma auth_cfg_of_Ok:
  assumes "auth_cfg_of v = Ok c"
  obtains ms where "v = JObject ms"
    "auth_mode c = default_mode \<or> (''mode'', JString (auth_mode c)) \<in> set ms"
    "\<And>s. s \<in> set (auth_fingerprints c @ auth_clients c) \<Longrightarrow>
      \<exists>key \<in> {''fingerprints'', ''clients''}. \<exists>vs. (key, JArray vs) \<in> set ms \<and> JString s \<in> set vs"
proof -
  obtain ms where v: "v = JObject ms"
    and m: "defaulted [''mode''] default_mode read_string ms = Ok (auth_mode c)"
    and f: "defaulted [''fingerprints''] [] (read_vec read_string) ms = Ok (auth_fingerprints c)"
    and cl: "defaulted [''clients''] [] (read_vec read_string) ms = Ok (auth_clients c)"
    using assms by (auto simp: auth_cfg_of_def and_then_Ok members_Ok)
  have mode: "auth_mode c = default_mode \<or> (''mode'', JString (auth_mode c)) \<in> set ms"
    using defaulted_one [OF m] by (auto dest: map_of_SomeD elim!: read_string.elims split: option.splits)
  have from_list: "\<exists>vs. (key, JArray vs) \<in> set ms \<and> JString s \<in> set vs"
    if d: "defaulted [key] [] (read_vec read_string) ms = Ok xs" and s: "s \<in> set xs" for key xs s
  proof (cases "map_of ms key")
    case None
    then show ?thesis using defaulted_one [OF d] s by simp
  next
    case (Some u)
    then have "read_vec read_string u = Ok xs" using defaulted_one [OF d] by simp
    from read_strings [OF this] obtain vs where "u = JArray vs" "\<forall>x \<in> set xs. JString x \<in> set vs" by blast
    then show ?thesis using s map_of_SomeD [OF Some] by blast
  qed
  show thesis using that [OF v mode] from_list [OF f] from_list [OF cl] by auto
qed

lemma server_cfg_of_auth:
  assumes "server_cfg_of v = Ok cfg"
  shows "\<exists>ms. v = JObject ms \<and> (sc_auth cfg = auth_cfg_default \<or> (\<exists>a. (''auth'', a) \<in> set ms \<and> auth_cfg_of a = Ok (sc_auth cfg)))"
proof -
  obtain ms where "v = JObject ms" and d: "defaulted [''auth''] auth_cfg_default auth_cfg_of ms = Ok (sc_auth cfg)"
    using assms by (auto simp: server_cfg_of_def and_then_Ok members_Ok)
  then show ?thesis using defaulted_one [OF d] by (auto dest: map_of_SomeD split: option.splits)
qed

lemma load_server_cfg_facts:
  assumes "load_server_cfg sha hex files cfg = Ret c"
  shows "cs_cfg c = cfg"
    "fp \<in> set (cs_fingerprints c) \<Longrightarrow> \<exists>s \<in> set (auth_fingerprints (sc_auth cfg) @ auth_clients (sc_auth cfg)).
       normalize_fingerprint sha hex files s = Ret fp"
proof -
  show "cs_cfg c = cfg" using assms by (auto simp: load_server_cfg_def split: outcome.splits)
  assume "fp \<in> set (cs_fingerprints c)"
  then obtain j where j: "j < length (cs_fingerprints c)" "cs_fingerprints c ! j = fp" by (metis in_set_conv_nth)
  note l = loaded_fingerprints [OF assms]
  have "j < length (auth_fingerprints (sc_auth cfg) @ auth_clients (sc_auth cfg))" using j(1) list_all2_lengthD [OF l] by simp
  then show "\<exists>s \<in> set (auth_fingerprints (sc_auth cfg) @ auth_clients (sc_auth cfg)). normalize_fingerprint sha hex files s = Ret fp"
    using list_all2_nthD [OF l] j by (metis nth_mem)
qed

lemma direct_session_authorized:
  "handle_conn sha hex c i auth ws alpn certs = Session False opts rt \<Longrightarrow>
   \<exists>fp. peer_fingerprint sha hex certs = Ret (Some fp) \<and> (as_mode auth = ''open'' \<or> fp \<in> set (as_fingerprints auth))"
proof -
  assume "handle_conn sha hex c i auth ws alpn certs = Session False opts rt"
  then have "authorized auth (alpn = Some ALPN) (case peer_fingerprint sha hex certs of Ret f \<Rightarrow> f | _ \<Rightarrow> None)"
    using not_authorized_direct by blast
  then show ?thesis by (auto simp: authorized_def split: outcome.splits option.splits)
qed

text \<open>
  C37.  Every admission is justified by the file.  If a server started from a configuration file turns a TLS
  connection into a session, the file has a section \<open>auth\<close>, and this section says \<open>"mode": "open"\<close>
  literally or lists, under \<open>fingerprints\<close> or \<open>clients\<close>, a text whose normal form is the fingerprint of the
  certificate the client presented.  A file that says nothing about authorisation admits no certificate.
\<close>

theorem admission_justified_by_file:
  assumes "load_server_file sha hex files io path = Ret c"
    and "handle_conn sha hex c identity_fp \<lparr>as_mode = auth_mode (sc_auth (cs_cfg c)), as_fingerprints = cs_fingerprints c\<rparr> ws alpn certs =
      Session False opts rt"
  shows "\<exists>t ms auth. cf_read io path = Ok t \<and> cf_json io t = Ok (JObject ms) \<and> (''auth'', JObject auth) \<in> set ms \<and>
    ((''mode'', JString ''open'') \<in> set auth \<or>
     (\<exists>key \<in> {''fingerprints'', ''clients''}. \<exists>texts s fp. (key, JArray texts) \<in> set auth \<and> JString s \<in> set texts \<and>
        normalize_fingerprint sha hex files s = Ret fp \<and> peer_fingerprint sha hex certs = Ret (Some fp)))"
proof -
  obtain t v cfg where f: "cf_read io path = Ok t" "cf_json io t = Ok v" "server_cfg_of v = Ok cfg" "load_server_cfg sha hex files cfg = Ret c"
    using assms(1) by (auto simp: load_server_file_def and_then_def split: sum.splits)
  note facts = load_server_cfg_facts [OF f(4)]
  obtain fp where fp: "peer_fingerprint sha hex certs = Ret (Some fp)" "auth_mode (sc_auth cfg) = ''open'' \<or> fp \<in> set (cs_fingerprints c)"
    using direct_session_authorized [OF assms(2)] facts(1) by auto
  obtain ms where ms: "v = JObject ms" "sc_auth cfg = auth_cfg_default \<or> (\<exists>a. (''auth'', a) \<in> set ms \<and> auth_cfg_of a = Ok (sc_auth cfg))"
    using server_cfg_of_auth [OF f(3)] by blast
  have "sc_auth cfg \<noteq> auth_cfg_default" using fp(2) facts(2) by (auto simp: auth_cfg_default_def)
  then obtain a where a: "(''auth'', a) \<in> set ms" "auth_cfg_of a = Ok (sc_auth cfg)" using ms(2) by blast
  obtain auth where auth: "a = JObject auth" "auth_mode (sc_auth cfg) = default_mode \<or> (''mode'', JString (auth_mode (sc_auth cfg))) \<in> set auth"
    "\<And>s. s \<in> set (auth_fingerprints (sc_auth cfg) @ auth_clients (sc_auth cfg)) \<Longrightarrow>
      \<exists>key \<in> {''fingerprints'', ''clients''}. \<exists>vs. (key, JArray vs) \<in> set auth \<and> JString s \<in> set vs"
    using auth_cfg_of_Ok [OF a(2)] by metis
  have "(''mode'', JString ''open'') \<in> set auth" if "auth_mode (sc_auth cfg) = ''open''"
    using auth(2) that by (simp add: default_mode_def)
  moreover have "\<exists>key \<in> {''fingerprints'', ''clients''}. \<exists>texts s. (key, JArray texts) \<in> set auth \<and> JString s \<in> set texts \<and>
      normalize_fingerprint sha hex files s = Ret fp" if "fp \<in> set (cs_fingerprints c)"
    using facts(2) [OF that] auth(3) by blast
  ultimately show ?thesis using f(1,2) ms(1) a(1) auth(1) fp by blast
qed

definition demo_file :: json where
  "demo_file = JObject [(''listen'', JString ''443''), (''identity'', JObject [(''key'', JString ''k''), (''cert'', JString ''c'')]),
     (''auth'', JObject [(''mode'', JString ''open'')]), (''rxWindow'', JPosInt 65536)]"

definition demo_cfg_io :: cfg_io where
  "demo_cfg_io = \<lparr>cf_read = (\<lambda>_. Ok []), cf_json = (\<lambda>_. Ok demo_file), cf_bytes = (\<lambda>_. Err [])\<rparr>"

lemmas cfg_read_defs = member_def required_def defaulted_def opt_value_def identity_cfg_of_def auth_cfg_of_def read_u32_def read_usize_def

lemma demo_file_read:
  "server_cfg_of demo_file = Ok \<lparr>sc_listen = ''443'', sc_identity = \<lparr>ic_key = ''k'', ic_cert = ''c''\<rparr>,
     sc_auth = \<lparr>auth_mode = ''open'', auth_fingerprints = [], auth_clients = []\<rparr>, sc_routes = [], sc_fallback = None, sc_fallback2 = None,
     sc_client_targets = None, sc_keepalive_sec = 30, sc_max_streams = 1024, sc_rx_window = 65536, sc_rx_window_max = 4194304,
     sc_zstd_dictionary = None, sc_log_level = []\<rparr>"
  by (simp add: server_cfg_of_def demo_file_def cfg_read_defs default_keepalive_def default_max_streams_def default_rx_window_max_def)

theorem admission_justified_by_file_witness:
  "\<exists>c opts rt. load_server_file id (\<lambda>_. ''ab'') \<lparr>path_exists = \<lambda>_. False, pem_cert = \<lambda>_. None, pem_spki = \<lambda>_. None\<rparr> demo_cfg_io ''f'' = Ret c \<and>
     handle_conn id (\<lambda>_. ''ab'') c ''sha256:cd'' \<lparr>as_mode = auth_mode (sc_auth (cs_cfg c)), as_fingerprints = cs_fingerprints c\<rparr> None
       (Some ALPN) (Some [demo_cert]) = Session False opts rt \<and>
     (\<exists>ms auth. demo_file = JObject ms \<and> (''auth'', JObject auth) \<in> set ms)"
proof -
  let ?files = "\<lparr>path_exists = \<lambda>_. False, pem_cert = \<lambda>_. None, pem_spki = \<lambda>_. None\<rparr>"
  obtain c where c: "load_server_file id (\<lambda>_. ''ab'') ?files demo_cfg_io ''f'' = Ret c" "auth_mode (sc_auth (cs_cfg c)) = ''open''"
    by (auto simp: load_server_file_def demo_cfg_io_def demo_file_read load_server_cfg_def)
  have pf: "peer_fingerprint id (\<lambda>_. ''ab'') (Some [demo_cert]) = Ret (Some ''sha256:ab'')"
    by (simp add: peer_fingerprint_Some demo_cert_key fingerprint_of_spki_def)
  let ?auth = "\<lparr>as_mode = auth_mode (sc_auth (cs_cfg c)), as_fingerprints = cs_fingerprints c\<rparr>"
  have "handle_conn id (\<lambda>_. ''ab'') c ''sha256:cd'' ?auth None (Some ALPN) (Some [demo_cert]) =
      Session False (server_opts c ''cd'') (server_router c)"
    by (simp add: handle_conn_def pf authorized_def c(2) start_server_session_def short_fp_def)
  from this admission_justified_by_file [OF c(1) this] c(1) show ?thesis by (force simp: demo_cfg_io_def)
qed

section \<open>Numbers\<close>

text \<open>A number of a configuration: that of the file, exactly, or the default.\<close>

definition taken_from :: "(string \<times> json) list \<Rightarrow> string \<Rightarrow> nat \<Rightarrow> nat \<Rightarrow> bool" where
  "taken_from ms name d x \<longleftrightarrow> (case map_of ms name of None \<Rightarrow> x = d | Some v \<Rightarrow> (\<exists>n. v = JPosInt n \<and> x = unat n))"

lemma read_u64_exact: "read_u64 v = Ok n \<longleftrightarrow> v = JPosInt n"
  by (cases v) auto

lemma read_u32_exact: "read_u32 v = Ok w \<Longrightarrow> \<exists>n. v = JPosInt n \<and> unat w = unat n"
  by (auto simp: read_u32_def and_then_Ok read_u64_exact unsigned_ucast_eq take_bit_nat_eq_self split: if_splits)

lemma taken_from_u64: "defaulted [name] d read_u64 ms = Ok x \<Longrightarrow> taken_from ms name (unat d) (unat x)"
  by (auto simp: taken_from_def read_u64_exact dest!: defaulted_one split: option.splits)

lemma taken_from_u32: "defaulted [name] d read_u32 ms = Ok x \<Longrightarrow> taken_from ms name (unat d) (unat x)"
  by (auto simp: taken_from_def dest!: defaulted_one read_u32_exact split: option.splits)

lemma taken_from_usize: "defaulted [name] d read_usize ms = Ok x \<Longrightarrow> taken_from ms name d x"
  by (auto simp: taken_from_def read_usize_def and_then_Ok read_u64_exact dest!: defaulted_one split: option.splits)



text \<open>A file without a log section has the empty level, not the documented default.\<close>

lemma log_default_empty:
  assumes "server_cfg_of (JObject ms) = Ok s" and "map_of ms ''log'' = None"
  shows "sc_log_level s = []"
proof -
  have d: "defaulted [''log''] [] log_level_of ms = Ok (sc_log_level s)" using assms(1) by (auto simp: server_cfg_of_def and_then_Ok)
  then show ?thesis using defaulted_one [OF d] assms(2) by simp
qed

end
