(* ===== verification/SyncPath.thy ===== *)
theory SyncPath
  imports RustStr
begin

text \<open>
  Paths of the synchroniser: \<open>safe_join\<close> and \<open>unique_tmp\<close> of \<open>apps/krymux-sync/src/sync/mod.rs\<close>, with what
  they use of \<open>std::path\<close> on Unix: joining, the components of a path and the component-wise prefix test.
  \<open>locate\<close> is where a path leads when no symbolic link is on the way: components with every \<open>..\<close>
  resolved.

  Lemmas: exactly which relative paths are accepted, and that they lead strictly below the root.
\<close>

section \<open>Paths\<close>

abbreviation slash :: char where "slash \<equiv> CHR ''/''"
abbreviation backslash :: char where "backslash \<equiv> CHR 0x5C"

definition pieces :: "string \<Rightarrow> string list" where
  "pieces s = split_where (\<lambda>c. c = slash) s"

definition plain_piece :: "string \<Rightarrow> bool" where
  "plain_piece c \<longleftrightarrow> c \<noteq> [] \<and> c \<noteq> ''.''"

text \<open>\<open>Path::components\<close>: a leading slash is a component of its own, empty and \<open>.\<close> pieces vanish, except a
  leading \<open>.\<close> of a relative path.\<close>

definition path_components :: "string \<Rightarrow> string list" where
  "path_components s =
     (case pieces s of
        [] \<Rightarrow> []
      | p # ps \<Rightarrow>
          (if starts_with ''/'' s then [''/''] else if p = ''.'' then [''.''] else filter plain_piece [p]) @ filter plain_piece ps)"

definition is_absolute :: "string \<Rightarrow> bool" where
  "is_absolute s \<longleftrightarrow> starts_with ''/'' s"

definition path_join :: "string \<Rightarrow> string \<Rightarrow> string" where
  "path_join base rel =
     (if is_absolute rel then rel
      else if base = [] \<or> ends_with ''/'' base then base @ rel else base @ ''/'' @ rel)"

definition path_starts_with :: "string \<Rightarrow> string \<Rightarrow> bool" where
  "path_starts_with p base \<longleftrightarrow> starts_with (path_components base) (path_components p)"

definition locate :: "string \<Rightarrow> string list" where
  "locate s = fold (\<lambda>c here. if c = ''..'' then butlast here else here @ [c]) (path_components s) []"

section \<open>Joining under a root\<close>

text \<open>\<open>{rel:?}\<close> in an error text is the parameter \<open>debug\<close>.\<close>

definition unsafe_component :: "string \<Rightarrow> bool" where
  "unsafe_component c \<longleftrightarrow> c = [] \<or> c = ''.'' \<or> c = ''..'' \<or> CHR '':'' \<in> set c"

definition safe_join :: "(string \<Rightarrow> string) \<Rightarrow> string \<Rightarrow> string \<Rightarrow> (string, string) result" where
  "safe_join debug base rel =
     (if CHR 0x00 \<in> set rel then Err ''NUL in path''
      else if list_ex unsafe_component (split_where (\<lambda>c. c = slash \<or> c = backslash) rel)
      then Err (''unsafe path component in '' @ debug rel)
      else
        let full = path_join base rel in
        if \<not> path_starts_with full base then Err (''path escapes root: '' @ debug rel) else Ok full)"

text \<open>The staging name of a path that ends in a file name: the name is extended, the directory stays.\<close>

definition unique_tmp :: "nat \<Rightarrow> string \<Rightarrow> string" where
  "unique_tmp n full = full @ ''.'' @ show_nat n @ ''.sync-tmp''"

section \<open>What is accepted\<close>

definition safe_rel :: "string \<Rightarrow> bool" where
  "safe_rel rel \<longleftrightarrow> CHR 0x00 \<notin> set rel \<and> \<not> list_ex unsafe_component (split_where (\<lambda>c. c = slash \<or> c = backslash) rel)"

text \<open>Splitting at more separators refines the pieces.\<close>

lemma split_where_refine:
  assumes "\<And>c. P c \<Longrightarrow> Q c"
  shows "concat (map (split_where Q) (split_where P s)) = split_where Q s"
proof (induction s)
  case (Cons c s)
  obtain p ps where sp: "split_where P s = p # ps" by (cases "split_where P s") auto
  obtain q qs where sq: "split_where Q p = q # qs" by (cases "split_where Q p") auto
  show ?case
  proof (cases "P c")
    case True
    then show ?thesis using Cons assms by simp
  next
    case False
    have "split_where Q s = q # qs @ concat (map (split_where Q) ps)" using Cons sp sq by simp
    then show ?thesis using False sp sq by simp
  qed
qed simp

lemma safe_pieces:
  assumes "safe_rel rel" and "p \<in> set (pieces rel)"
  shows "p \<noteq> []" and "p \<noteq> ''.''" and "p \<noteq> ''..''"
proof -
  let ?Q = "\<lambda>c. c = slash \<or> c = backslash"
  have sub: "set (split_where ?Q p) \<subseteq> set (split_where ?Q rel)"
  proof -
    have "concat (map (split_where ?Q) (pieces rel)) = split_where ?Q rel"
      unfolding pieces_def by (rule split_where_refine) simp
    then have "set (concat (map (split_where ?Q) (pieces rel))) = set (split_where ?Q rel)" by (rule arg_cong)
    then show ?thesis using assms(2) unfolding set_concat set_map by blast
  qed
  have bad: False if "p = s" "unsafe_component s" "\<And>c. c \<in> set s \<Longrightarrow> \<not> ?Q c" for s
  proof -
    have "split_where ?Q p = [s]" using that(1,3) by (simp add: split_where_plain)
    with sub have "s \<in> set (split_where ?Q rel)" by simp
    with that(2) assms(1) show False by (auto simp: safe_rel_def list_ex_iff)
  qed
  show "p \<noteq> []" using bad [of "[]"] by (auto simp: unsafe_component_def)
  show "p \<noteq> ''.''" using bad [of "''.''"] by (auto simp: unsafe_component_def)
  show "p \<noteq> ''..''" using bad [of "''..''"] by (auto simp: unsafe_component_def)
qed

lemma safe_rel_relative: "safe_rel rel \<Longrightarrow> \<not> is_absolute rel"
proof
  assume safe: "safe_rel rel" and "is_absolute rel"
  then obtain r where "rel = slash # r" by (auto simp: is_absolute_def starts_with_iff)
  then have "[] \<in> set (pieces rel)" by (simp add: pieces_def)
  with safe_pieces(1) [OF safe this] show False by simp
qed

lemma safe_pieces_plain: "safe_rel rel \<Longrightarrow> filter plain_piece (pieces rel) = pieces rel"
  using safe_pieces by (auto simp: plain_piece_def intro: filter_True)

lemma components_of_safe: "safe_rel rel \<Longrightarrow> path_components rel = pieces rel"
proof -
  assume safe: "safe_rel rel"
  obtain p ps where p: "pieces rel = p # ps" unfolding pieces_def by (cases "split_where (\<lambda>c. c = slash) rel") auto
  have "plain_piece p" "filter plain_piece ps = ps" using safe_pieces_plain [OF safe] p by (auto split: if_splits) (metis Cons_eq_filterD filter_id_conv list.set_intros(1))+
  then show ?thesis using safe_rel_relative [OF safe] p by (simp add: path_components_def is_absolute_def plain_piece_def)
qed

lemma components_slash:
  assumes "safe_rel rel"
  shows "path_components (b @ slash # rel) = path_components (b @ ''/'') @ pieces rel"
proof -
  obtain p ps where b: "pieces b = p # ps" unfolding pieces_def by (cases "split_where (\<lambda>c. c = slash) b") auto
  have "pieces (b @ slash # rel) = (p # ps) @ pieces rel" and "pieces (b @ ''/'') = (p # ps) @ [[]]"
    using b by (simp_all add: pieces_def split_where_append)
  moreover have "starts_with ''/'' (b @ slash # rel) = starts_with ''/'' (b @ ''/'')" by (cases b) auto
  ultimately show ?thesis using safe_pieces_plain [OF assms] by (simp add: path_components_def plain_piece_def)
qed

lemma components_trailing: "b \<noteq> [] \<Longrightarrow> path_components (b @ ''/'') = path_components b"
proof -
  assume b: "b \<noteq> []"
  obtain p ps where p: "pieces b = p # ps" unfolding pieces_def by (cases "split_where (\<lambda>c. c = slash) b") auto
  have "pieces (b @ ''/'') = (p # ps) @ [[]]" using p by (simp add: pieces_def split_where_append)
  moreover have "starts_with ''/'' (b @ ''/'') = starts_with ''/'' b" using b by (cases b) auto
  ultimately show ?thesis using p by (simp add: path_components_def plain_piece_def)
qed

lemma components_join:
  assumes "safe_rel rel"
  shows "path_components (path_join base rel) = path_components base @ pieces rel"
proof -
  have rel: "\<not> is_absolute rel" by (rule safe_rel_relative [OF assms])
  consider "base = []" | b where "base = b @ ''/''" | "base \<noteq> []" "\<not> ends_with ''/'' base"
    by (metis ends_with_iff)
  then show ?thesis
  proof cases
    case 1
    then show ?thesis using rel components_of_safe [OF assms] by (simp add: path_join_def path_components_def pieces_def plain_piece_def)
  next
    case 2
    then have "ends_with ''/'' base" by (auto simp: ends_with_iff)
    then show ?thesis using rel components_slash [OF assms, of b] 2 by (simp add: path_join_def)
  next
    case 3
    then show ?thesis using rel components_slash [OF assms, of base] components_trailing [of base] by (simp add: path_join_def)
  qed
qed

lemma safe_join_Ok_iff: "safe_join debug base rel = Ok full \<longleftrightarrow> safe_rel rel \<and> full = path_join base rel"
  using components_join [of rel base]
  by (auto simp: safe_join_def safe_rel_def path_starts_with_def starts_with_iff Let_def)

lemma fold_plain: "''..'' \<notin> set cs \<Longrightarrow> fold (\<lambda>c here. if c = ''..'' then butlast here else here @ [c]) cs a = a @ cs"
  by (induction cs arbitrary: a) auto

lemma locate_join: "safe_rel rel \<Longrightarrow> locate (path_join base rel) = locate base @ pieces rel"
  using safe_pieces(3) [of rel "''..''"] by (auto simp: locate_def components_join intro!: fold_plain)

fun unpieces :: "string list \<Rightarrow> string" where
  "unpieces [] = []"
| "unpieces [p] = p"
| "unpieces (p # ps) = p @ slash # unpieces ps"

lemma unpieces_pieces: "unpieces (pieces s) = s"
  unfolding pieces_def
proof (induction s)
  case (Cons c s)
  obtain p ps where "split_where (\<lambda>c. c = slash) s = p # ps" by (cases "split_where (\<lambda>c. c = slash) s") auto
  then show ?case using Cons by (cases ps) auto
qed simp

lemma pieces_inject: "pieces a = pieces b \<longleftrightarrow> a = b"
  by (metis unpieces_pieces)

definition tmp_ending :: "nat \<Rightarrow> string" where
  "tmp_ending n = ''.'' @ show_nat n @ ''.sync-tmp''"

lemma tmp_ending_chars: "c \<in> set (tmp_ending n) \<Longrightarrow> c \<noteq> slash \<and> c \<noteq> backslash \<and> c \<noteq> CHR '':'' \<and> c \<noteq> CHR 0x00"
  using show_nat_digits [of n] by (auto simp: tmp_ending_def list_all_iff is_digit_def)

lemma unique_tmp_alt: "unique_tmp n full = full @ tmp_ending n"
  by (simp add: unique_tmp_def tmp_ending_def)

lemma unique_tmp_safe: "safe_rel rel \<Longrightarrow> safe_rel (unique_tmp n rel)"
proof -
  assume safe: "safe_rel rel"
  let ?Q = "\<lambda>c. c = slash \<or> c = backslash"
  let ?ps = "split_where ?Q rel"
  have "split_where ?Q (rel @ tmp_ending n) = butlast ?ps @ [last ?ps @ tmp_ending n]"
    by (rule split_where_extend) (auto dest: tmp_ending_chars)
  moreover have "\<not> unsafe_component (last ?ps @ tmp_ending n)"
    using safe tmp_ending_chars [of "CHR '':''" n] last_in_set [of ?ps]
    by (auto simp: safe_rel_def list_ex_iff unsafe_component_def tmp_ending_def append_eq_Cons_conv)
  moreover have "\<forall>p \<in> set (butlast ?ps). \<not> unsafe_component p"
    using safe by (auto simp: safe_rel_def list_ex_iff dest: in_set_butlastD)
  moreover have "CHR 0x00 \<notin> set (rel @ tmp_ending n)" using safe tmp_ending_chars by (auto simp: safe_rel_def)
  ultimately show ?thesis unfolding safe_rel_def unique_tmp_alt by (auto simp: list_ex_iff)
qed

lemma unique_tmp_join: "safe_rel rel \<Longrightarrow> unique_tmp n (path_join base rel) = path_join base (unique_tmp n rel)"
proof -
  assume "safe_rel rel"
  then have "\<not> is_absolute rel" and "\<not> is_absolute (unique_tmp n rel)"
    using unique_tmp_safe safe_rel_relative by blast+
  then show ?thesis by (simp add: path_join_def unique_tmp_alt)
qed

end
