(* ===== verification/Identity.thy ===== *)
theory Identity
  imports Server Ws SyncPath
begin

text \<open>
  Identities: their generation, storage and loading (\<open>crates/krymux/src/keys.rs\<close>) and the identity of the WebSocket
  front (\<open>WsIdentity\<close> of \<open>ws.rs\<close>).

  The libraries that make keys, certificates and PEM texts are the records \<open>rcgen\<close> and \<open>ring_lib\<close>.  Storing an
  identity is the list of the states the files go through; a file has a text and the permissions of the system.

  Lemmas: an identity that was generated and stored is the one that is loaded, under the same fingerprint; a
  server that lists the fingerprint admits it; the key of the front verifies what the front signs.
\<close>

section \<open>Generation\<close>

record 'k rcgen =
  rc_generate :: "(string, 'k) result"
  rc_public :: "'k \<Rightarrow> bytes"
  rc_params :: "(string, unit) result"
  rc_self_signed :: "string \<Rightarrow> 'k \<Rightarrow> (string, bytes) result" \<comment> \<open>with a common name\<close>
  rc_cert_pem :: "bytes \<Rightarrow> string"
  rc_key_pem :: "'k \<Rightarrow> string"
  pem_key_der :: "string \<Rightarrow> (string, bytes) result"
  pem_cert_der :: "string \<Rightarrow> (string, bytes) result"

record identity =
  id_cert_der :: bytes
  id_key_der :: bytes
  id_cert_pem :: string
  id_key_pem :: string
  id_fingerprint :: string

text \<open>\<open>trim_start_matches\<close> with a text removes it as often as it is there.\<close>

function trim_start_text :: "string \<Rightarrow> string \<Rightarrow> string" where
  "trim_start_text p s = (if p \<noteq> [] \<and> starts_with p s then trim_start_text p (drop (length p) s) else s)"
  by auto
termination by (relation "measure (\<lambda>(p, s). length s)") (auto simp: starts_with_iff)

declare trim_start_text.simps [simp del]

definition generate_identity ::
    "(bytes \<Rightarrow> bytes) \<Rightarrow> (bytes \<Rightarrow> string) \<Rightarrow> 'k rcgen \<Rightarrow> string \<Rightarrow> (string, identity) result" where
  "generate_identity sha256 hex R cn =
     (case rc_generate R of
        Err e \<Rightarrow> Err (''generate Ed25519 key: '' @ e)
      | Ok key_pair \<Rightarrow>
          let fingerprint = fingerprint_of_spki sha256 hex (spki_from_ed25519_raw (rc_public R key_pair));
              short = take 16 (trim_start_text ''sha256:'' fingerprint)
          in case rc_params R of
               Err e \<Rightarrow> Err (''certificate params: '' @ e)
             | Ok _ \<Rightarrow>
                 (case rc_self_signed R (cn @ '' '' @ short) key_pair of
                    Err e \<Rightarrow> Err (''self-sign certificate: '' @ e)
                  | Ok cert_der \<Rightarrow>
                      let key_pem = rc_key_pem R key_pair in
                      (case pem_key_der R key_pem of
                         Err e \<Rightarrow> Err (''reparse generated key: '' @ e)
                       | Ok key_der \<Rightarrow>
                           Ok \<lparr>id_cert_der = cert_der, id_key_der = key_der, id_cert_pem = rc_cert_pem R cert_der,
                               id_key_pem = key_pem, id_fingerprint = fingerprint\<rparr>)))"

section \<open>Storage\<close>

record id_file =
  idf_text :: string
  idf_mode :: nat

type_synonym id_files = "string \<rightharpoonup> id_file"

text \<open>\<open>std::fs::write\<close> keeps the permissions of a file that exists; a new one gets those of the process.\<close>

definition write_file :: "nat \<Rightarrow> string \<Rightarrow> string \<Rightarrow> id_files \<Rightarrow> id_files" where
  "write_file default_mode path t fs =
     fs(path \<mapsto> \<lparr>idf_text = t, idf_mode = (case fs path of Some f \<Rightarrow> idf_mode f | None \<Rightarrow> default_mode)\<rparr>)"

definition set_mode :: "nat \<Rightarrow> string \<Rightarrow> id_files \<Rightarrow> id_files" where
  "set_mode mode path fs = fs(path := map_option (idf_mode_update (\<lambda>_. mode)) (fs path))"

record save_io = \<comment> \<open>the errors of the calls\<close>
  so_dir :: "string option"
  so_key :: "string option"
  so_cert :: "string option"
  so_chmod :: "string option"
  so_meta :: "string option"

definition key_path :: "string \<Rightarrow> string \<Rightarrow> string" where
  "key_path dir name = path_join dir (name @ ''.key.pem'')"

definition cert_path :: "string \<Rightarrow> string \<Rightarrow> string" where
  "cert_path dir name = path_join dir (name @ ''.crt.pem'')"

definition identity_meta :: "string \<Rightarrow> identity \<Rightarrow> string \<Rightarrow> json" where
  "identity_meta dir i name =
     JObject [(''cert'', JString (cert_path dir name)), (''fingerprint'', JString (id_fingerprint i)),
              (''key'', JString (key_path dir name)), (''name'', JString name)]"

definition save_identity ::
    "nat \<Rightarrow> (json \<Rightarrow> string) \<Rightarrow> save_io \<Rightarrow> string \<Rightarrow> identity \<Rightarrow> string \<Rightarrow> id_files \<Rightarrow> id_files list \<times> (string, string \<times> string) result" where
  "save_identity default_mode pretty io dir i name fs =
     (let kp = key_path dir name; cp = cert_path dir name;
          fs1 = write_file default_mode kp (id_key_pem i) fs;
          fs2 = write_file default_mode cp (id_cert_pem i) fs1;
          fs3 = set_mode 384 kp fs2; \<comment> \<open>0o600\<close>
          fs4 = write_file default_mode (path_join dir (name @ ''.identity.json'')) (pretty (identity_meta dir i name)) fs3
      in case so_dir io of Some e \<Rightarrow> ([], Err e) | None \<Rightarrow>
         (case so_key io of Some e \<Rightarrow> ([], Err e) | None \<Rightarrow>
         (case so_cert io of Some e \<Rightarrow> ([fs1], Err e) | None \<Rightarrow>
         (case so_chmod io of Some e \<Rightarrow> ([fs1, fs2], Err (''chmod 600 '' @ kp @ '': '' @ e)) | None \<Rightarrow>
         (case so_meta io of Some e \<Rightarrow> ([fs1, fs2, fs3], Err e) | None \<Rightarrow>
           ([fs1, fs2, fs3, fs4], Ok (kp, cp)))))))"

section \<open>Loading\<close>

record loaded_identity =
  ld_cert_der :: bytes
  ld_key_der :: bytes
  ld_fingerprint :: string

definition from_pem_file :: "(string \<Rightarrow> (string, bytes) result) \<Rightarrow> id_files \<Rightarrow> string \<Rightarrow> (string, bytes) result" where
  "from_pem_file parse fs path = (case fs path of None \<Rightarrow> Err ''no such file'' | Some f \<Rightarrow> parse (idf_text f))"

definition load_identity ::
    "(bytes \<Rightarrow> bytes) \<Rightarrow> (bytes \<Rightarrow> string) \<Rightarrow> 'k rcgen \<Rightarrow> id_files \<Rightarrow> string \<Rightarrow> string \<Rightarrow> loaded_identity outcome" where
  "load_identity sha256 hex R fs kp cp =
     (case from_pem_file (pem_key_der R) fs kp of
        Err e \<Rightarrow> Fail (''read key '' @ kp @ '': '' @ e)
      | Ok key_der \<Rightarrow>
          (case from_pem_file (pem_cert_der R) fs cp of
             Err e \<Rightarrow> Fail (''read cert '' @ cp @ '': '' @ e)
           | Ok cert_der \<Rightarrow>
               (case fingerprint_of_cert sha256 hex cert_der of
                  Fail e \<Rightarrow> Fail e
                | Panic \<Rightarrow> Panic
                | Ret fp \<Rightarrow> Ret \<lparr>ld_cert_der = cert_der, ld_key_der = key_der, ld_fingerprint = fp\<rparr>)))"

section \<open>The identity of the WebSocket front\<close>

record 'k ring_lib =
  ring_generate :: "(string, bytes) result"
  ring_load :: "bytes \<Rightarrow> (string, 'k) result"
  ring_public :: "'k \<Rightarrow> bytes"
  ring_sign :: "'k \<Rightarrow> bytes \<Rightarrow> bytes option"

record 'k ws_identity =
  wi_key_pair :: 'k
  wi_public_key_spki :: bytes
  wi_fingerprint :: string
  wi_pkcs8 :: bytes

definition ws_identity_generate ::
    "(bytes \<Rightarrow> bytes) \<Rightarrow> (bytes \<Rightarrow> string) \<Rightarrow> 'k ring_lib \<Rightarrow> (string, 'k ws_identity) result" where
  "ws_identity_generate sha256 hex L =
     (case ring_generate L of
        Err e \<Rightarrow> Err (''generate P-256 key: '' @ e)
      | Ok pkcs8 \<Rightarrow>
          (case ring_load L pkcs8 of
             Err e \<Rightarrow> Err (''load P-256 key: '' @ e)
           | Ok key_pair \<Rightarrow>
               let spki = p256_spki_der (ring_public L key_pair) in
               Ok \<lparr>wi_key_pair = key_pair, wi_public_key_spki = spki,
                   wi_fingerprint = fingerprint_of_spki sha256 hex spki, wi_pkcs8 = pkcs8\<rparr>))"

definition ws_identity_sign :: "'k ring_lib \<Rightarrow> 'k ws_identity \<Rightarrow> bytes \<Rightarrow> bytes" where
  "ws_identity_sign L i data = (case ring_sign L (wi_key_pair i) data of Some s \<Rightarrow> s | None \<Rightarrow> [])"

section \<open>From generation to admission\<close>

text \<open>
  What the library for certificates documents: it writes X.509 in DER with the key of the pair, and its PEM texts are
  read back.
\<close>

definition carries_key :: "bytes \<Rightarrow> bytes \<Rightarrow> bool" where
  "carries_key raw cert \<longleftrightarrow>
     (\<exists>es k k0 tag tag0 rest i.
        cert = der_tlv k0 tag0 (der_tlv k tag (concat (map elem_bytes es)) @ rest) \<and>
        list_all elem_ok es \<and> len_form k (length (concat (map elem_bytes es))) \<and>
        len_form k0 (length (der_tlv k tag (concat (map elem_bytes es)) @ rest)) \<and>
        i = (if es \<noteq> [] \<and> fst (snd (hd es)) = 0xa0 then 6 else 5) \<and> i < length es \<and>
        elem_bytes (es ! i) = spki_from_ed25519_raw raw)"

definition rcgen_law :: "'k rcgen \<Rightarrow> bool" where
  "rcgen_law R \<longleftrightarrow>
     (\<forall>cn k cert. rc_self_signed R cn k = Ok cert \<longrightarrow>
        carries_key (rc_public R k) cert \<and> pem_cert_der R (rc_cert_pem R cert) = Ok cert)"

lemma ed25519_spki_oid: "has_window ED25519_OID (spki_from_ed25519_raw raw)"
  by (simp add: spki_from_ed25519_raw_def ED25519_SPKI_PREFIX_def ED25519_OID_def)

lemma carries_key_extract: "carries_key raw cert \<Longrightarrow> extract_ed25519_spki cert = Ret (spki_from_ed25519_raw raw)"
proof -
  assume "carries_key raw cert"
  then obtain es k k0 tag tag0 rest i where c: "cert = der_tlv k0 tag0 (der_tlv k tag (concat (map elem_bytes es)) @ rest)"
    "list_all elem_ok es" "len_form k (length (concat (map elem_bytes es)))"
    "len_form k0 (length (der_tlv k tag (concat (map elem_bytes es)) @ rest))"
    "i = (if es \<noteq> [] \<and> fst (snd (hd es)) = 0xa0 then 6 else 5)" "i < length es" "elem_bytes (es ! i) = spki_from_ed25519_raw raw"
    unfolding carries_key_def by blast
  show ?thesis unfolding c(1) using extract_spki_enc [OF c(2-6)] by (simp only: c(7) ed25519_spki_oid if_True)
qed

lemma generated_identity:
  assumes "rcgen_law R" and "generate_identity sha hex R cn = Ok i"
  shows "pem_cert_der R (id_cert_pem i) = Ok (id_cert_der i)" "pem_key_der R (id_key_pem i) = Ok (id_key_der i)"
    "\<exists>spki. extract_ed25519_spki (id_cert_der i) = Ret spki \<and> id_fingerprint i = fingerprint_of_spki sha hex spki"
proof -
  obtain k cert where "rc_self_signed R (cn @ '' '' @ take 16 (trim_start_text ''sha256:''
        (fingerprint_of_spki sha hex (spki_from_ed25519_raw (rc_public R k))))) k = Ok cert"
    and i: "id_cert_der i = cert" "id_cert_pem i = rc_cert_pem R cert" "pem_key_der R (id_key_pem i) = Ok (id_key_der i)"
      "id_fingerprint i = fingerprint_of_spki sha hex (spki_from_ed25519_raw (rc_public R k))"
    using assms(2) by (auto simp: generate_identity_def Let_def split: sum.splits)
  then have "carries_key (rc_public R k) cert \<and> pem_cert_der R (rc_cert_pem R cert) = Ok cert"
    using assms(1) unfolding rcgen_law_def by blast
  then show "pem_cert_der R (id_cert_pem i) = Ok (id_cert_der i)" "pem_key_der R (id_key_pem i) = Ok (id_key_der i)"
    "\<exists>spki. extract_ed25519_spki (id_cert_der i) = Ret spki \<and> id_fingerprint i = fingerprint_of_spki sha hex spki"
    using i carries_key_extract by auto
qed

lemma path_join_ends:
  assumes "path_join dir (name @ CHR ''.'' # x) = path_join dir (name @ CHR ''.'' # y)"
  shows "x = y"
proof -
  have "is_absolute (name @ CHR ''.'' # x) = is_absolute (name @ CHR ''.'' # y)"
    by (cases name) (simp_all add: is_absolute_def)
  then show ?thesis using assms by (auto simp: path_join_def split: if_splits)
qed

lemma saved_paths:
  "key_path dir name \<noteq> cert_path dir name" "key_path dir name \<noteq> path_join dir (name @ ''.identity.json'')"
  "cert_path dir name \<noteq> path_join dir (name @ ''.identity.json'')"
  unfolding key_path_def cert_path_def by (auto dest!: path_join_ends)

lemma saved_files:
  assumes "save_identity m pretty io dir i name fs = (states, Ok (kp, cp))"
  shows "kp = key_path dir name \<and> cp = cert_path dir name \<and> states \<noteq> [] \<and>
    last states kp = Some \<lparr>idf_text = id_key_pem i, idf_mode = 384\<rparr> \<and>
    (\<exists>mode. last states cp = Some \<lparr>idf_text = id_cert_pem i, idf_mode = mode\<rparr>)"
  using assms saved_paths [of dir name] saved_paths [of dir name, symmetric]
  by (auto simp: save_identity_def Let_def write_file_def set_mode_def split: option.splits)

lemma stored_identity_loads:
  assumes "rcgen_law R" and "generate_identity sha hex R cn = Ok i"
    and "save_identity m pretty io dir i name fs = (states, Ok (kp, cp))"
  shows "load_identity sha hex R (last states) kp cp =
    Ret \<lparr>ld_cert_der = id_cert_der i, ld_key_der = id_key_der i, ld_fingerprint = id_fingerprint i\<rparr>"
  using generated_identity [OF assms(1,2)] saved_files [OF assms(3)]
  by (auto simp: load_identity_def from_pem_file_def fingerprint_of_cert_def)

text \<open>Digests are printed as lower-case hexadecimal digits.\<close>

definition hex_law :: "(bytes \<Rightarrow> bytes) \<Rightarrow> (bytes \<Rightarrow> string) \<Rightarrow> bool" where
  "hex_law sha hex \<longleftrightarrow>
     (\<forall>b. length (hex (sha b)) = 64 \<and> list_all is_ascii_hexdigit (hex (sha b)) \<and> to_lowercase (hex (sha b)) = hex (sha b))"

lemma spki_fingerprint_canonical: "hex_law sha hex \<Longrightarrow> canonical_fp (fingerprint_of_spki sha hex spki)"
  by (auto simp: canonical_fp_def fingerprint_of_spki_def hex_law_def)

lemma listed_fingerprint:
  assumes "load_server_cfg sha hex files cfg = Ret c" and "canonical_fp f"
    and "f \<in> set (auth_fingerprints (sc_auth cfg) @ auth_clients (sc_auth cfg))"
  shows "f \<in> set (cs_fingerprints c)"
proof -
  let ?fs = "auth_fingerprints (sc_auth cfg) @ auth_clients (sc_auth cfg)"
  note l = loaded_fingerprints [OF assms(1)]
  obtain j where j: "j < length ?fs" "?fs ! j = f" using assms(3) by (metis in_set_conv_nth)
  then have "normalize_fingerprint sha hex files f = Ret (cs_fingerprints c ! j)" "j < length (cs_fingerprints c)"
    using list_all2_nthD [OF l j(1)] list_all2_lengthD [OF l] by simp_all
  then show ?thesis using normalize_canonical [OF assms(2), of sha hex files] by (metis nth_mem outcome.inject(1))
qed


definition demo_id_elems :: "der_elem list" where
  "demo_id_elems = [(0, 0xa0, []), (0, 2, [1]), (0, 0x30, []), (0, 0x30, []), (0, 0x30, []), (0, 0x30, []),
     (0, 0x30, drop 2 ED25519_SPKI_PREFIX @ replicate 32 9)]"

definition demo_id_cert :: bytes where
  "demo_id_cert = der_tlv 0 0x30 (der_tlv 0 0x30 (concat (map elem_bytes demo_id_elems)) @ [])"

definition demo_rcgen :: "unit rcgen" where
  "demo_rcgen = \<lparr>rc_generate = Ok (), rc_public = (\<lambda>_. replicate 32 9), rc_params = Ok (), rc_self_signed = (\<lambda>_ _. Ok demo_id_cert),
     rc_cert_pem = (\<lambda>_. ''cert''), rc_key_pem = (\<lambda>_. ''key''), pem_key_der = (\<lambda>_. Ok [1]), pem_cert_der = (\<lambda>_. Ok demo_id_cert)\<rparr>"

lemma demo_rcgen_law: "rcgen_law demo_rcgen"
proof -
  have l: "length (concat (map elem_bytes demo_id_elems)) = 57"
    by (simp add: demo_id_elems_def elem_bytes_def der_tlv_def der_length_def ED25519_SPKI_PREFIX_def)
  then have l': "length (der_tlv 0 0x30 (concat (map elem_bytes demo_id_elems)) @ []) = 59" by (simp add: length_der_tlv)
  have "carries_key (replicate 32 9) demo_id_cert"
    unfolding carries_key_def demo_id_cert_def
  proof (intro exI conjI)
    show "list_all elem_ok demo_id_elems" by (simp add: demo_id_elems_def elem_ok_def len_form_def ED25519_SPKI_PREFIX_def)
    show "len_form 0 (length (concat (map elem_bytes demo_id_elems)))" by (simp add: l len_form_def)
    show "len_form 0 (length (der_tlv 0 0x30 (concat (map elem_bytes demo_id_elems)) @ []))" unfolding l' by (simp add: len_form_def)
    show "(6 :: nat) = (if demo_id_elems \<noteq> [] \<and> fst (snd (hd demo_id_elems)) = 0xa0 then 6 else 5)" by (simp add: demo_id_elems_def)
    show "6 < length demo_id_elems" by (simp add: demo_id_elems_def)
    show "elem_bytes (demo_id_elems ! 6) = spki_from_ed25519_raw (replicate 32 9)"
      by (simp add: demo_id_elems_def elem_bytes_def der_tlv_def der_length_def spki_from_ed25519_raw_def ED25519_SPKI_PREFIX_def)
  qed simp
  then show ?thesis by (simp add: rcgen_law_def demo_rcgen_def)
qed

definition demo_hex :: "bytes \<Rightarrow> string" where
  "demo_hex b = replicate 64 (CHR ''a'')"

lemma demo_hex_law: "hex_law id demo_hex"
proof -
  have "lower_char (CHR ''a'') = CHR ''a''" by code_simp
  then show ?thesis by (simp add: hex_law_def demo_hex_def to_lowercase_def list_all_iff is_ascii_hexdigit_def)
qed

definition no_errors :: save_io where
  "no_errors = \<lparr>so_dir = None, so_key = None, so_cert = None, so_chmod = None, so_meta = None\<rparr>"

definition demo_listed :: server_cfg where
  "demo_listed = (cs_cfg demo_compiled)\<lparr>sc_auth := \<lparr>auth_mode = ''whitelist'', auth_fingerprints = [''sha256:'' @ demo_hex []], auth_clients = []\<rparr>\<rparr>"


text \<open>
  The key is written before its permissions are restricted: until then, and for good when a later call fails, the file
  has the permissions the process gives new files.
\<close>

lemma key_written_before_chmod:
  assumes "fs (key_path dir name) = None" and "so_dir io = None" "so_key io = None"
  shows "hd (fst (save_identity m pretty io dir i name fs)) (key_path dir name) = Some \<lparr>idf_text = id_key_pem i, idf_mode = m\<rparr>"
    and "so_cert io = Some e \<Longrightarrow>
      last (fst (save_identity m pretty io dir i name fs)) (key_path dir name) = Some \<lparr>idf_text = id_key_pem i, idf_mode = m\<rparr>"
  using assms by (auto simp: save_identity_def Let_def write_file_def split: option.splits)

section \<open>The front verifies its own signatures\<close>

lemma ws_identity_verifies:
  assumes "ws_identity_generate sha hex L = Ok i" and "length (ring_public L (wi_key_pair i)) = 65"
    and "\<And>k data s. ring_sign L k data = Some s \<Longrightarrow> we_ecdsa W (ring_public L k) data s"
    and "ring_sign L (wi_key_pair i) data = Some s"
  shows "verify_p256 W (wi_public_key_spki i) (ws_identity_sign L i data) data"
proof -
  have spki: "wi_public_key_spki i = P256_SPKI_PREFIX @ ring_public L (wi_key_pair i)"
    using assms(1) by (auto simp: ws_identity_generate_def p256_spki_der_def Let_def split: sum.splits)
  have "starts_with P256_SPKI_PREFIX (wi_public_key_spki i)" by (auto simp: spki starts_with_iff)
  then show ?thesis using assms(2,4) assms(3) [OF assms(4)] by (simp add: verify_p256_def spki ws_identity_sign_def Let_def)
qed

end
