(* ===== verification/Tunnel.thy ===== *)
theory Tunnel
  imports ConfigJson Identity
begin

text \<open>
  The commands: \<open>apps/krymux-tunnel/src/main.rs\<close>, \<open>run_server\<close> of \<open>crates/krymux/src/server.rs\<close>, and how the commands of
  the synchroniser connect (\<open>apps/krymux-sync/src/main.rs\<close>, \<open>daemon.rs\<close>).

  The record \<open>world\<close> holds the libraries, the files and the network.  A command ends with an error or a
  panic, with what it printed, or with what it started; a server or client that is up runs on as the other theories
  describe.

  Lemmas: what a probe prints is what a client has to pin; a tunnel is up only to the pinned server and with the
  parameters of the file; the synchroniser uses these parameters only as a daemon.
\<close>

record ('k, 'r, 'a) world =
  w_sha256 :: "bytes \<Rightarrow> bytes"
  w_hex :: "bytes \<Rightarrow> string"
  w_rcgen :: "'k rcgen"
  w_ring :: "'r ring_lib"
  w_pem :: pem_files
  w_cfg :: cfg_io
  w_files :: id_files
  w_umode :: nat \<comment> \<open>permissions of new files\<close>
  w_save :: save_io
  w_pretty :: "json \<Rightarrow> string"
  w_acceptor :: "loaded_identity \<Rightarrow> (string, unit) result"
  w_bind :: "string \<Rightarrow> u16 \<Rightarrow> (string, unit) result"
  w_net :: "'a net"
  w_connector :: "bytes \<Rightarrow> (string, unit) result"
  w_alpn :: "'a \<Rightarrow> string option"

datatype cmd =
    Keygen string string "string option" "string option"
  | Fingerprint string
  | ServerCmd string
  | ClientCmd string "string option" "string option"
  | Probe string

datatype ('r, 'a) run_end =
    KeygenDone "id_files list" string string string bool \<comment> \<open>paths, fingerprint, the hint for a client\<close>
  | FingerprintShown string
  | ServerUp compiled_server loaded_identity "'r ws_identity option" "string \<times> u16" auth_state codec_env
  | ClientUp 'a session_opts string "string option" "string option" codec_env \<comment> \<open>with the two fronts\<close>
  | ProbeShown string "string option"

definition run_keygen :: "('k, 'r, 'a) world \<Rightarrow> string \<Rightarrow> string \<Rightarrow> string option \<Rightarrow> string option \<Rightarrow> ('r, 'a) run_end outcome" where
  "run_keygen W out role name cn =
     (let name' = unwrap_or name role in
      case generate_identity (w_sha256 W) (w_hex W) (w_rcgen W) (unwrap_or cn (''krymux-'' @ name')) of
        Err e \<Rightarrow> Fail e
      | Ok i \<Rightarrow>
          (case save_identity (w_umode W) (w_pretty W) (w_save W) out i name' (w_files W) of
             (states, Err e) \<Rightarrow> Fail e
           | (states, Ok (kp, cp)) \<Rightarrow> Ret (KeygenDone states kp cp (id_fingerprint i) (role = ''client''))))"

definition run_fingerprint :: "('k, 'r, 'a) world \<Rightarrow> string \<Rightarrow> ('r, 'a) run_end outcome" where
  "run_fingerprint W path =
     (case cf_read (w_cfg W) path of
        Err e \<Rightarrow> Fail (path @ '': '' @ e)
      | Ok t \<Rightarrow>
          (case (case normalize_fingerprint (w_sha256 W) (w_hex W) (w_pem W) t of
                   Fail _ \<Rightarrow> normalize_fingerprint (w_sha256 W) (w_hex W) (w_pem W) path
                 | r \<Rightarrow> r) of
             Ret fp \<Rightarrow> Ret (FingerprintShown fp)
           | Fail e \<Rightarrow> Fail e
           | Panic \<Rightarrow> Panic))"

text \<open>\<open>run_server\<close>, up to the accept loop of \<open>serve_connections\<close>.\<close>

definition run_server ::
    "('k, 'r, 'a) world \<Rightarrow> compiled_server \<Rightarrow> loaded_identity \<Rightarrow> string \<Rightarrow> 'r ws_identity option \<Rightarrow> codec_env \<Rightarrow> ('r, 'a) run_end outcome" where
  "run_server W compiled ident listen ws reg =
     (let reg' = register_zstd_dictionary (w_sha256 W) (w_hex W) (w_cfg W) (sc_zstd_dictionary (cs_cfg compiled)) reg in
      case parse_listen listen of
        Panic \<Rightarrow> Panic
      | Fail e \<Rightarrow> Fail e
      | Ret (host, port) \<Rightarrow>
          (case w_bind W host port of
             Err e \<Rightarrow> Fail (''bind '' @ host @ '':'' @ show_u16 port @ '': '' @ e)
           | Ok _ \<Rightarrow>
               (case w_acceptor W ident of
                  Err e \<Rightarrow> Fail e
                | Ok _ \<Rightarrow>
                    Ret (ServerUp compiled ident ws (host, port)
                      \<lparr>as_mode = auth_mode (sc_auth (cs_cfg compiled)), as_fingerprints = cs_fingerprints compiled\<rparr> reg'))))"

definition run_server_cmd :: "('k, 'r, 'a) world \<Rightarrow> string \<Rightarrow> codec_env \<Rightarrow> ('r, 'a) run_end outcome" where
  "run_server_cmd W config reg =
     (case load_server_file (w_sha256 W) (w_hex W) (w_pem W) (w_cfg W) config of
        Panic \<Rightarrow> Panic
      | Fail e \<Rightarrow> Fail e
      | Ret compiled \<Rightarrow>
          let ic = sc_identity (cs_cfg compiled) in
          (case load_identity (w_sha256 W) (w_hex W) (w_rcgen W) (w_files W) (ic_key ic) (ic_cert ic) of
             Panic \<Rightarrow> Panic
           | Fail e \<Rightarrow> Fail e
           | Ret ident \<Rightarrow>
               let ws = (case ws_identity_generate (w_sha256 W) (w_hex W) (w_ring W) of Ok i \<Rightarrow> Some i | Err _ \<Rightarrow> None) in
               run_server W compiled ident (sc_listen (cs_cfg compiled)) ws reg))"

text \<open>\<open>ConnectParams\<close> with the values of a configuration and the default name.\<close>

definition cfg_params :: "client_cfg \<Rightarrow> connect_params" where
  "cfg_params cfg =
     default_connect_params\<lparr>cp_compression := cc_compression cfg, cp_keepalive_sec := cc_keepalive_sec cfg,
       cp_rx_window := cc_rx_window cfg, cp_rx_window_max := cc_rx_window_max cfg\<rparr>"

text \<open>The start the client commands of both programs share: configuration, identity, pin, connection.\<close>

definition connect_cfg ::
    "('k, 'r, 'a) world \<Rightarrow> (client_cfg \<Rightarrow> connect_params) \<Rightarrow> string \<Rightarrow> codec_env \<Rightarrow> (client_cfg \<times> string \<times> 'a \<times> session_opts) outcome \<times> codec_env" where
  "connect_cfg W params config reg =
     (case load_client_cfg (w_sha256 W) (w_hex W) (w_cfg W) config reg of
        (Err e, reg') \<Rightarrow> (Fail e, reg')
      | (Ok cfg, reg') \<Rightarrow>
          ((case load_identity (w_sha256 W) (w_hex W) (w_rcgen W) (w_files W) (ic_key (cc_identity cfg)) (ic_cert (cc_identity cfg)) of
              Panic \<Rightarrow> Panic
            | Fail e \<Rightarrow> Fail e
            | Ret ident \<Rightarrow>
                (case normalize_fingerprint (w_sha256 W) (w_hex W) (w_pem W) (cc_server_fingerprint cfg) of
                   Panic \<Rightarrow> Panic
                 | Fail e \<Rightarrow> Fail e
                 | Ret server_fp \<Rightarrow>
                     (case connect (w_sha256 W) (w_hex W) (w_net W) (cc_endpoint cfg) server_fp (params cfg) of
                        Panic \<Rightarrow> Panic
                      | Fail e \<Rightarrow> Fail e
                      | Ret (a, opts) \<Rightarrow> Ret (cfg, server_fp, a, opts)))),
           reg'))"

definition run_client :: "('k, 'r, 'a) world \<Rightarrow> string \<Rightarrow> string option \<Rightarrow> string option \<Rightarrow> codec_env \<Rightarrow> ('r, 'a) run_end outcome" where
  "run_client W config socks5 http_proxy reg =
     (case connect_cfg W cfg_params config reg of
        (Panic, _) \<Rightarrow> Panic
      | (Fail e, _) \<Rightarrow> Fail e
      | (Ret (cfg, server_fp, a, opts), reg') \<Rightarrow>
          (case short_fp server_fp of
             Ret shown \<Rightarrow>
               Ret (ClientUp a opts shown (case socks5 of Some s \<Rightarrow> Some s | None \<Rightarrow> cc_socks5 cfg)
                 (case http_proxy of Some h \<Rightarrow> Some h | None \<Rightarrow> cc_http_proxy cfg) reg')
           | _ \<Rightarrow> Panic))"

text \<open>A probe accepts any certificate.  \<open>TcpStream::connect\<close> tries the addresses of a name in turn.\<close>

definition tcp_connect :: "'a net \<Rightarrow> string \<Rightarrow> u16 \<Rightarrow> (string, 'a) result" where
  "tcp_connect net host port =
     (case n_lookup net host port of
        Err e \<Rightarrow> Err e
      | Ok addrs \<Rightarrow> try_addrs (n_connect net) (n_show net) ''could not resolve to any address'' addrs)"

definition run_probe :: "('k, 'r, 'a) world \<Rightarrow> string \<Rightarrow> ('r, 'a) run_end outcome" where
  "run_probe W endpoint =
     (case generate_identity (w_sha256 W) (w_hex W) (w_rcgen W) ''probe'' of
        Err e \<Rightarrow> Fail e
      | Ok i \<Rightarrow>
          (case parse_listen endpoint of
             Panic \<Rightarrow> Panic
           | Fail e \<Rightarrow> Fail e
           | Ret (host, port) \<Rightarrow>
               (case w_connector W (id_cert_der i) of
                  Err e \<Rightarrow> Fail e
                | Ok _ \<Rightarrow>
                    (case tcp_connect (w_net W) host port of
                       Err e \<Rightarrow> Fail (''connect '' @ endpoint @ '': '' @ e)
                     | Ok a \<Rightarrow>
                         (case n_tls (w_net W) host a of
                            Err e \<Rightarrow> Fail (''tls handshake: '' @ e)
                          | Ok certs \<Rightarrow>
                              let alpn = unwrap_or (w_alpn W a) ''none'' in
                              (case peer_fingerprint (w_sha256 W) (w_hex W) certs of
                                 Panic \<Rightarrow> Panic
                               | Fail _ \<Rightarrow> Ret (ProbeShown alpn None)
                               | Ret fp \<Rightarrow> Ret (ProbeShown alpn fp)))))))"

definition run :: "('k, 'r, 'a) world \<Rightarrow> cmd \<Rightarrow> codec_env \<Rightarrow> ('r, 'a) run_end outcome" where
  "run W c reg =
     (case c of
        Keygen out role name cn \<Rightarrow> run_keygen W out role name cn
      | Fingerprint path \<Rightarrow> run_fingerprint W path
      | ServerCmd config \<Rightarrow> run_server_cmd W config reg
      | ClientCmd config socks5 http_proxy \<Rightarrow> run_client W config socks5 http_proxy reg
      | Probe endpoint \<Rightarrow> run_probe W endpoint)"

text \<open>How the synchroniser connects: a daemon with the parameters of the file, a single pass with the defaults.\<close>

definition sync_connect :: "('k, 'r, 'a) world \<Rightarrow> bool \<Rightarrow> string \<Rightarrow> codec_env \<Rightarrow> (client_cfg \<times> string \<times> 'a \<times> session_opts) outcome \<times> codec_env" where
  "sync_connect W watch config reg = connect_cfg W (if watch then cfg_params else (\<lambda>_. default_connect_params)) config reg"

section \<open>Probing and pinning\<close>

lemma tcp_connect_Ok:
  "tcp_connect net host port = Ok a \<longleftrightarrow> (\<exists>addrs. n_lookup net host port = Ok addrs \<and> try_addrs (n_connect net) (n_show net) [] addrs = Ok a)"
  by (auto simp: tcp_connect_def try_addrs_Ok split: sum.splits)

lemma connect_unpinned:
  "connect sha hex net endpoint pin params = Ret (a, opts) \<longleftrightarrow>
     opts = client_opts params \<and>
     (\<exists>host port certs. parse_listen endpoint = Ret (host, port) \<and> tcp_connect net host port = Ok a \<and> n_tls net host a = Ok certs \<and>
        peer_fingerprint sha hex certs = Ret (Some pin))"
  unfolding connect_Ret pin_check_Ret tcp_connect_Ok by blast

lemma peer_fingerprint_canonical: "hex_law sha hex \<Longrightarrow> peer_fingerprint sha hex certs = Ret (Some fp) \<Longrightarrow> canonical_fp fp"
  by (auto simp: peer_fingerprint_Some spki_fingerprint_canonical)

lemma run_probe_Ret:
  assumes "run W (Probe endpoint) reg = Ret (ProbeShown alpn (Some fp))"
  shows "\<exists>host port a certs. parse_listen endpoint = Ret (host, port) \<and> tcp_connect (w_net W) host port = Ok a \<and>
    n_tls (w_net W) host a = Ok certs \<and> peer_fingerprint (w_sha256 W) (w_hex W) certs = Ret (Some fp)"
  using assms by (auto simp: run_def run_probe_def Let_def split: sum.splits outcome.splits)

text \<open>
  Trust on first use.  The fingerprint a probe prints is in normal form, so a configuration that
  repeats it pins exactly it; with it a client connects to the server that was probed, at the address the probe
  used, and with no other pin does a client connect there.
\<close>

theorem probe_then_pin:
  assumes "hex_law (w_sha256 W) (w_hex W)" and "run W (Probe endpoint) reg = Ret (ProbeShown alpn (Some fp))"
  shows "normalize_fingerprint (w_sha256 W) (w_hex W) (w_pem W) fp = Ret fp \<and>
    (\<exists>a. \<forall>pin params.
       (case connect (w_sha256 W) (w_hex W) (w_net W) endpoint pin params of
          Ret (b, opts) \<Rightarrow> pin = fp \<and> b = a \<and> opts = client_opts params
        | _ \<Rightarrow> pin \<noteq> fp))"
proof -
  obtain host port a certs where p: "parse_listen endpoint = Ret (host, port)" "tcp_connect (w_net W) host port = Ok a"
    "n_tls (w_net W) host a = Ok certs" "peer_fingerprint (w_sha256 W) (w_hex W) certs = Ret (Some fp)"
    using run_probe_Ret [OF assms(2)] by blast
  have c: "connect (w_sha256 W) (w_hex W) (w_net W) endpoint pin params = Ret (b, opts) \<longleftrightarrow> pin = fp \<and> b = a \<and> opts = client_opts params"
    for pin params b opts using p by (auto simp: connect_unpinned)
  have "case connect (w_sha256 W) (w_hex W) (w_net W) endpoint pin params of
      Ret (b, opts) \<Rightarrow> pin = fp \<and> b = a \<and> opts = client_opts params | _ \<Rightarrow> pin \<noteq> fp" for pin params
    using c [of pin params] by (cases "connect (w_sha256 W) (w_hex W) (w_net W) endpoint pin params") auto
  then show ?thesis using normalize_canonical [OF peer_fingerprint_canonical [OF assms(1) p(4)]] by blast
qed

definition demo_net :: "nat net" where
  "demo_net = \<lparr>n_lookup = (\<lambda>_ _. Ok [7]), n_connect = (\<lambda>_. Ok ()), n_show = show_nat, n_tls = (\<lambda>_ _. Ok (Some [demo_id_cert]))\<rparr>"

definition demo_endpoint :: string where
  "demo_endpoint = ''h'' @ '':'' @ show_u16 443"

definition demo_client_file :: json where
  "demo_client_file = JObject [(''endpoint'', JString demo_endpoint), (''identity'', JObject [(''key'', JString ''k''), (''cert'', JString ''c'')]),
     (''serverFingerprint'', JString (''sha256:'' @ demo_hex [])), (''socks5'', JString ''1080'')]"

definition demo_world :: "(unit, unit, nat) world" where
  "demo_world = \<lparr>w_sha256 = id, w_hex = demo_hex, w_rcgen = demo_rcgen,
     w_ring = \<lparr>ring_generate = Err [], ring_load = (\<lambda>_. Ok ()), ring_public = (\<lambda>_. []), ring_sign = (\<lambda>_ _. None)\<rparr>,
     w_pem = \<lparr>path_exists = \<lambda>_. False, pem_cert = \<lambda>_. None, pem_spki = \<lambda>_. None\<rparr>,
     w_cfg = \<lparr>cf_read = (\<lambda>_. Ok []), cf_json = (\<lambda>_. Ok demo_client_file), cf_bytes = (\<lambda>_. Err [])\<rparr>,
     w_files = [''k'' \<mapsto> \<lparr>idf_text = ''key'', idf_mode = 384\<rparr>, ''c'' \<mapsto> \<lparr>idf_text = ''cert'', idf_mode = 420\<rparr>],
     w_umode = 420, w_save = no_errors, w_pretty = (\<lambda>_. []), w_acceptor = (\<lambda>_. Ok ()), w_bind = (\<lambda>_ _. Ok ()),
     w_net = demo_net, w_connector = (\<lambda>_. Ok ()), w_alpn = (\<lambda>_. Some ALPN)\<rparr>"

lemma demo_listen: "parse_listen demo_endpoint = Ret (''h'', 443)"
  using parse_listen_forms [of "''h''" "[]" 443] by (simp add: demo_endpoint_def)

lemma demo_id_cert_key: "extract_ed25519_spki demo_id_cert = Ret (spki_from_ed25519_raw (replicate 32 9))"
  using demo_rcgen_law by (auto simp: rcgen_law_def demo_rcgen_def intro: carries_key_extract)

lemma demo_peer: "peer_fingerprint id demo_hex (Some [demo_id_cert]) = Ret (Some (''sha256:'' @ demo_hex []))"
  by (simp add: peer_fingerprint_Some demo_id_cert_key fingerprint_of_spki_def demo_hex_def)

definition demo_reg :: codec_env where
  "demo_reg = \<lparr>feature_zstd = False, zstd_dict = None\<rparr>"

lemma demo_probe: "run demo_world (Probe demo_endpoint) reg = Ret (ProbeShown ALPN (Some (''sha256:'' @ demo_hex [])))"
  by (simp add: run_def run_probe_def generate_identity_def demo_world_def demo_rcgen_def demo_listen tcp_connect_def demo_net_def Let_def
      demo_peer)

theorem probe_then_pin_witness:
  "\<exists>fp. run demo_world (Probe demo_endpoint) demo_reg = Ret (ProbeShown ALPN (Some fp)) \<and>
     normalize_fingerprint (w_sha256 demo_world) (w_hex demo_world) (w_pem demo_world) fp = Ret fp"
proof -
  have "hex_law (w_sha256 demo_world) (w_hex demo_world)" using demo_hex_law by (simp add: demo_world_def)
  from probe_then_pin [OF this demo_probe] demo_probe show ?thesis by blast
qed

section \<open>A tunnel that is up\<close>

lemma normalized_long: "normalize_fingerprint sha hex files input = Ret f \<Longrightarrow> \<exists>shown. short_fp f = Ret shown"
  by (auto simp: normalize_fingerprint_def fingerprint_of_cert_def fingerprint_of_spki_def short_fp_def Let_def
      split: option.splits if_splits outcome.splits)

lemma connect_cfg_Ret:
  assumes "connect_cfg W params config reg = (Ret (cfg, pin, a, opts), reg')"
  shows "load_client_cfg (w_sha256 W) (w_hex W) (w_cfg W) config reg = (Ok cfg, reg') \<and>
    normalize_fingerprint (w_sha256 W) (w_hex W) (w_pem W) (cc_server_fingerprint cfg) = Ret pin \<and>
    connect (w_sha256 W) (w_hex W) (w_net W) (cc_endpoint cfg) pin (params cfg) = Ret (a, opts)"
  using assms by (auto simp: connect_cfg_def split: prod.splits sum.splits outcome.splits)


lemma demo_client_file_read:
  "client_cfg_of demo_client_file = Ok \<lparr>cc_endpoint = demo_endpoint, cc_identity = \<lparr>ic_key = ''k'', ic_cert = ''c''\<rparr>,
     cc_server_fingerprint = ''sha256:'' @ demo_hex [], cc_compression = ''auto'', cc_keepalive_sec = 30, cc_rx_window = 262144,
     cc_rx_window_max = 4194304, cc_socks5 = Some ''1080'', cc_http_proxy = None, cc_zstd_dictionary = None, cc_log_level = []\<rparr>"
  by (simp add: client_cfg_of_def demo_client_file_def cfg_read_defs default_compression_def default_keepalive_def default_rx_window_def
      default_rx_window_max_def)


section \<open>The parameters of the synchroniser\<close>

text \<open>A single pass runs with the default windows and keepalive interval, whatever the file says; the daemon with those of the file.\<close>

lemma sync_pass_parameters:
  assumes "sync_connect W watch config reg = (Ret (cfg, pin, a, opts), reg')"
  shows "o_rx_window opts = (if watch then cc_rx_window cfg else 262144) \<and>
    o_rx_window_max opts = (if watch then cc_rx_window_max cfg else 4194304) \<and>
    keepalive_sec opts = (if watch then cc_keepalive_sec cfg else 30)"
  using connect_cfg_Ret [OF assms [unfolded sync_connect_def]]
  by (auto simp: connect_unpinned client_opts_def cfg_params_def default_connect_params_def)

end
