(* ===== verification/TlsConf.thy ===== *)
theory TlsConf
  imports Tunnel
begin

text \<open>
  The TLS contexts (\<open>crates/krymux/src/tls.rs\<close>) and the accept loop of the server (\<open>serve_connections\<close> of \<open>server.rs\<close>).

  rustls is a parameter: the record \<open>rustls\<close> has its providers and the outcomes of its builders, \<open>accept\<close> and \<open>dial\<close> are the
  two sides of a handshake.  \<open>accept_law\<close> and \<open>dial_law\<close> say what its documentation says of the verifier a configuration
  carries: rustls asks it, and nothing else, whether a certificate and the signature made with it are good.

  Lemmas: which protocols the contexts admit; that the signature of a peer has no influence on the outcome, on either side; what
  a sequence of connections, failed accepts among them, leads to.
\<close>

section \<open>Verifiers\<close>

datatype tls_version = TLS12 | TLS13

record 'p rustls =
  ru_aws :: 'p
  ru_ring :: 'p
  ru_schemes :: "'p \<Rightarrow> nat list"
  ru_versions :: "'p \<Rightarrow> tls_version list \<Rightarrow> (string, unit) result"
  ru_certified :: "'p \<Rightarrow> bytes list \<Rightarrow> bytes \<Rightarrow> (string, unit) result"

text \<open>\<open>pq\<close> is the feature of the build.\<close>

definition provider :: "'p rustls \<Rightarrow> bool \<Rightarrow> 'p" where
  "provider L pq = (if pq then ru_aws L else ru_ring L)"

text \<open>The traits \<open>ClientCertVerifier\<close> and \<open>ServerCertVerifier\<close>: certificate, intermediates, (server name, OCSP response,) time; message,
  certificate, signature.\<close>

record client_verifier =
  cv_mandatory :: bool
  cv_hints :: "bytes list"
  cv_cert :: "bytes \<Rightarrow> bytes list \<Rightarrow> nat \<Rightarrow> (string, unit) result"
  cv_tls12 :: "bytes \<Rightarrow> bytes \<Rightarrow> bytes \<Rightarrow> (string, unit) result"
  cv_tls13 :: "bytes \<Rightarrow> bytes \<Rightarrow> bytes \<Rightarrow> (string, unit) result"
  cv_schemes :: "nat list"

record server_verifier =
  nv_cert :: "bytes \<Rightarrow> bytes list \<Rightarrow> string \<Rightarrow> bytes \<Rightarrow> nat \<Rightarrow> (string, unit) result"
  nv_tls12 :: "bytes \<Rightarrow> bytes \<Rightarrow> bytes \<Rightarrow> (string, unit) result"
  nv_tls13 :: "bytes \<Rightarrow> bytes \<Rightarrow> bytes \<Rightarrow> (string, unit) result"
  nv_schemes :: "nat list"

definition AnyClientCert :: "'p rustls \<Rightarrow> 'p \<Rightarrow> client_verifier" where
  "AnyClientCert L p =
     \<lparr>cv_mandatory = False, cv_hints = [], cv_cert = (\<lambda>_ _ _. Ok ()), cv_tls12 = (\<lambda>_ _ _. Ok ()), cv_tls13 = (\<lambda>_ _ _. Ok ()),
      cv_schemes = ru_schemes L p\<rparr>"

definition NoServerVerify :: "'p rustls \<Rightarrow> 'p \<Rightarrow> server_verifier" where
  "NoServerVerify L p =
     \<lparr>nv_cert = (\<lambda>_ _ _ _ _. Ok ()), nv_tls12 = (\<lambda>_ _ _. Ok ()), nv_tls13 = (\<lambda>_ _ _. Ok ()), nv_schemes = ru_schemes L p\<rparr>"

section \<open>Contexts\<close>

record 'v tls_config =
  tc_versions :: "tls_version list"
  tc_verifier :: 'v
  tc_chain :: "bytes list"
  tc_key :: bytes
  tc_alpn :: "string list"

definition server_acceptor :: "'p rustls \<Rightarrow> bool \<Rightarrow> loaded_identity \<Rightarrow> (string, client_verifier tls_config) result" where
  "server_acceptor L pq ident =
     (let p = provider L pq in
      case ru_versions L p [TLS13] of
        Err e \<Rightarrow> Err (''tls13 server builder: '' @ e)
      | Ok _ \<Rightarrow>
          (case ru_certified L p [ld_cert_der ident] (ld_key_der ident) of
             Err e \<Rightarrow> Err (''server certificate: '' @ e)
           | Ok _ \<Rightarrow>
               Ok \<lparr>tc_versions = [TLS13], tc_verifier = AnyClientCert L p, tc_chain = [ld_cert_der ident], tc_key = ld_key_der ident,
                   tc_alpn = [ALPN]\<rparr>))"

definition client_connector :: "'p rustls \<Rightarrow> bool \<Rightarrow> loaded_identity \<Rightarrow> (string, server_verifier tls_config) result" where
  "client_connector L pq ident =
     (let p = provider L pq in
      case ru_versions L p [TLS13] of
        Err e \<Rightarrow> Err (''tls13 client builder: '' @ e)
      | Ok _ \<Rightarrow>
          (case ru_certified L p [ld_cert_der ident] (ld_key_der ident) of
             Err e \<Rightarrow> Err (''client certificate: '' @ e)
           | Ok _ \<Rightarrow>
               Ok \<lparr>tc_versions = [TLS13], tc_verifier = NoServerVerify L p, tc_chain = [ld_cert_der ident], tc_key = ld_key_der ident,
                   tc_alpn = [ALPN]\<rparr>))"

section \<open>Handshakes\<close>

text \<open>
  What the other side of a full handshake sends: the versions and protocols it offers, its certificate chain (empty for none),
  and the signature over the transcript that is to prove that it has the key of the first certificate.
\<close>

record flight =
  fl_versions :: "tls_version list"
  fl_alpn :: "string list"
  fl_chain :: "bytes list"
  fl_transcript :: bytes
  fl_signature :: bytes
  fl_time :: nat

type_synonym tls_conn = "string option \<times> bytes list option" \<comment> \<open>protocol and certificates of the peer\<close>

text \<open>
  With a common version and protocol, a handshake succeeds when the verifier accepts the certificate and the signature, and it
  succeeds without a certificate when none is demanded.
\<close>

definition accept_law :: "(client_verifier tls_config \<Rightarrow> flight \<Rightarrow> (string, tls_conn) result) \<Rightarrow> bool" where
  "accept_law accept \<longleftrightarrow>
     (\<forall>cfg fl p. TLS13 \<in> set (tc_versions cfg) \<and> TLS13 \<in> set (fl_versions fl) \<and> find (\<lambda>q. q \<in> set (fl_alpn fl)) (tc_alpn cfg) = Some p \<longrightarrow>
        (\<forall>c cs. fl_chain fl = c # cs \<and> cv_cert (tc_verifier cfg) c cs (fl_time fl) = Ok () \<and>
             cv_tls13 (tc_verifier cfg) (fl_transcript fl) c (fl_signature fl) = Ok () \<longrightarrow> accept cfg fl = Ok (Some p, Some (c # cs))) \<and>
        (fl_chain fl = [] \<and> \<not> cv_mandatory (tc_verifier cfg) \<longrightarrow> accept cfg fl = Ok (Some p, None)))"

definition dial_law :: "(server_verifier tls_config \<Rightarrow> string \<Rightarrow> flight \<Rightarrow> (string, bytes list option) result) \<Rightarrow> bool" where
  "dial_law dial \<longleftrightarrow>
     (\<forall>cfg name fl c cs. TLS13 \<in> set (tc_versions cfg) \<and> TLS13 \<in> set (fl_versions fl) \<and> fl_chain fl = c # cs \<and>
        (\<forall>q\<in>set (fl_alpn fl). q \<in> set (tc_alpn cfg)) \<and> nv_cert (tc_verifier cfg) c cs name [] (fl_time fl) = Ok () \<and>
        nv_tls13 (tc_verifier cfg) (fl_transcript fl) c (fl_signature fl) = Ok () \<longrightarrow> dial cfg name fl = Ok (Some (c # cs)))"

section \<open>The accept loop (server.rs)\<close>

datatype 'c accept_event = AcceptFailed | Accepted 'c

text \<open>The task of one connection: nothing when the handshake fails.\<close>

definition serve_conn ::
    "(client_verifier tls_config \<Rightarrow> flight \<Rightarrow> (string, tls_conn) result) \<Rightarrow> client_verifier tls_config \<Rightarrow>
     (tls_conn \<Rightarrow> conn_end) \<Rightarrow> flight \<Rightarrow> conn_end option" where
  "serve_conn accept cfg handle fl = (case accept cfg fl of Err _ \<Rightarrow> None | Ok conn \<Rightarrow> Some (handle conn))"

text \<open>The loop: a failed accept is tried again, an accepted connection gets a task of its own.\<close>

fun serve_loop :: "('c \<Rightarrow> 'e) \<Rightarrow> 'c accept_event list \<Rightarrow> 'e list" where
  "serve_loop task [] = []"
| "serve_loop task (AcceptFailed # es) = serve_loop task es"
| "serve_loop task (Accepted c # es) = task c # serve_loop task es"

definition serve_connections ::
    "(bytes \<Rightarrow> bytes) \<Rightarrow> (bytes \<Rightarrow> string) \<Rightarrow> 'p rustls \<Rightarrow> bool \<Rightarrow> (client_verifier tls_config \<Rightarrow> flight \<Rightarrow> (string, tls_conn) result) \<Rightarrow>
     compiled_server \<Rightarrow> loaded_identity \<Rightarrow> (auth_state \<Rightarrow> ws_end) option \<Rightarrow> flight accept_event list \<Rightarrow> (string, conn_end option list) result" where
  "serve_connections sha256 hex L pq accept compiled ident ws es =
     (case server_acceptor L pq ident of
        Err e \<Rightarrow> Err e
      | Ok cfg \<Rightarrow>
          let auth = \<lparr>as_mode = auth_mode (sc_auth (cs_cfg compiled)), as_fingerprints = cs_fingerprints compiled\<rparr> in
          Ok (serve_loop
            (serve_conn accept cfg (\<lambda>(alpn, certs). handle_conn sha256 hex compiled (ld_fingerprint ident) auth ws alpn certs)) es))"

section \<open>What the contexts admit\<close>

lemma server_acceptor_Ok:
  "server_acceptor L pq ident = Ok cfg \<longleftrightarrow>
     (let p = provider L pq in ru_versions L p [TLS13] = Ok () \<and> ru_certified L p [ld_cert_der ident] (ld_key_der ident) = Ok () \<and>
       cfg = \<lparr>tc_versions = [TLS13], tc_verifier = AnyClientCert L p, tc_chain = [ld_cert_der ident], tc_key = ld_key_der ident,
              tc_alpn = [ALPN]\<rparr>)"
  by (auto simp: server_acceptor_def Let_def split: sum.splits)

lemma client_connector_Ok:
  "client_connector L pq ident = Ok cfg \<longleftrightarrow>
     (let p = provider L pq in ru_versions L p [TLS13] = Ok () \<and> ru_certified L p [ld_cert_der ident] (ld_key_der ident) = Ok () \<and>
       cfg = \<lparr>tc_versions = [TLS13], tc_verifier = NoServerVerify L p, tc_chain = [ld_cert_der ident], tc_key = ld_key_der ident,
              tc_alpn = [ALPN]\<rparr>)"
  by (auto simp: client_connector_def Let_def split: sum.splits)

lemma acceptor_takes_certificate:
  assumes "accept_law accept" and "server_acceptor L pq ident = Ok cfg"
    and "TLS13 \<in> set (fl_versions fl)" and "ALPN \<in> set (fl_alpn fl)" and "fl_chain fl = cert # rest"
  shows "accept cfg fl = Ok (Some ALPN, Some (cert # rest))"
proof -
  have "TLS13 \<in> set (tc_versions cfg)" "find (\<lambda>q. q \<in> set (fl_alpn fl)) (tc_alpn cfg) = Some ALPN"
    "cv_cert (tc_verifier cfg) cert rest (fl_time fl) = Ok ()" "cv_tls13 (tc_verifier cfg) (fl_transcript fl) cert (fl_signature fl) = Ok ()"
    using assms(2,4) by (simp_all add: server_acceptor_Ok Let_def AnyClientCert_def)
  then show ?thesis using assms(1,3,5) unfolding accept_law_def by blast
qed

text \<open>A browser, which presents no certificate, reaches the handler: the comment at \<open>client_auth_mandatory\<close>.\<close>

lemma acceptor_takes_browser:
  assumes "accept_law accept" and "server_acceptor L pq ident = Ok cfg"
    and "TLS13 \<in> set (fl_versions fl)" and "ALPN \<in> set (fl_alpn fl)" and "fl_chain fl = []"
  shows "accept cfg fl = Ok (Some ALPN, None)"
proof -
  have "TLS13 \<in> set (tc_versions cfg)" "find (\<lambda>q. q \<in> set (fl_alpn fl)) (tc_alpn cfg) = Some ALPN" "\<not> cv_mandatory (tc_verifier cfg)"
    using assms(2,4) by (simp_all add: server_acceptor_Ok Let_def AnyClientCert_def)
  then show ?thesis using assms(1,3,5) unfolding accept_law_def by blast
qed

section \<open>Certificates without keys\<close>

fun accepted_conns :: "'c accept_event list \<Rightarrow> 'c list" where
  "accepted_conns [] = []"
| "accepted_conns (AcceptFailed # es) = accepted_conns es"
| "accepted_conns (Accepted c # es) = c # accepted_conns es"

lemma serve_loop_tasks: "serve_loop task es = map task (accepted_conns es)"
  by (induction task es rule: serve_loop.induct) simp_all

lemma accepted_conns_append: "accepted_conns (es @ es') = accepted_conns es @ accepted_conns es'"
  by (induction es rule: accepted_conns.induct) simp_all

lemma handle_conn_certificate:
  assumes "short_fp i = Ret name" and "extract_ed25519_spki cert = Ret spki"
  shows "handle_conn sha hex c i auth ws (Some ALPN) (Some (cert # rest)) =
    (if as_mode auth = ''open'' \<or> fingerprint_of_spki sha hex spki \<in> set (as_fingerprints auth)
     then Session False (server_opts c name) (server_router c) else Rejected)"
proof -
  have pf: "peer_fingerprint sha hex (Some (cert # rest)) = Ret (Some (fingerprint_of_spki sha hex spki))"
    using assms(2) by (simp add: peer_fingerprint_Some)
  obtain n where "short_fp (fingerprint_of_spki sha hex spki) = Ret n" using presented_fingerprint_long [OF pf] by blast
  then show ?thesis
    using assms(1) by (simp add: handle_conn_def pf Let_def start_server_session_def log_rejected_def authorized_def split: option.split)
qed


definition demo_rustls :: "unit rustls" where
  "demo_rustls = \<lparr>ru_aws = (), ru_ring = (), ru_schemes = (\<lambda>_. []), ru_versions = (\<lambda>_ _. Ok ()), ru_certified = (\<lambda>_ _ _. Ok ())\<rparr>"

definition demo_accept :: "client_verifier tls_config \<Rightarrow> flight \<Rightarrow> (string, tls_conn) result" where
  "demo_accept cfg fl =
     (case find (\<lambda>q. q \<in> set (fl_alpn fl)) (tc_alpn cfg) of
        None \<Rightarrow> Err ''no application protocol''
      | Some p \<Rightarrow>
          (case fl_chain fl of
             [] \<Rightarrow> if cv_mandatory (tc_verifier cfg) then Err ''certificate required'' else Ok (Some p, None)
           | c # cs \<Rightarrow>
               if cv_cert (tc_verifier cfg) c cs (fl_time fl) = Ok () \<and> cv_tls13 (tc_verifier cfg) (fl_transcript fl) c (fl_signature fl) = Ok ()
               then Ok (Some p, Some (c # cs)) else Err ''bad certificate''))"

definition demo_ident :: loaded_identity where
  "demo_ident = \<lparr>ld_cert_der = demo_cert, ld_key_der = [], ld_fingerprint = ''sha256:cd''\<rparr>"

definition demo_flight :: flight where
  "demo_flight = \<lparr>fl_versions = [TLS13], fl_alpn = [ALPN], fl_chain = [demo_cert], fl_transcript = [1], fl_signature = [2], fl_time = 0\<rparr>"

lemma demo_accept_law: "accept_law demo_accept"
  unfolding accept_law_def demo_accept_def by auto


text \<open>The same of a client: a server is taken for the pinned one if it sends the pinned certificate.\<close>

lemma pinned_certificate_suffices:
  assumes "dial_law dial" and "client_connector L pq ident = Ok cfg"
    and "parse_listen endpoint = Ret (host, port)" and "n_lookup net host port = Ok addrs" and "try_addrs (n_connect net) (n_show net) [] addrs = Ok a"
    and "n_tls net host a = dial cfg host (fl\<lparr>fl_signature := forged\<rparr>)"
    and "TLS13 \<in> set (fl_versions fl)" and "fl_alpn fl = [ALPN]" and "fl_chain fl = cert # rest"
    and "extract_ed25519_spki cert = Ret spki" and "pin = fingerprint_of_spki sha hex spki"
  shows "connect sha hex net endpoint pin params = Ret (a, client_opts params)"
proof -
  let ?fl = "fl\<lparr>fl_signature := forged\<rparr>"
  have v: "TLS13 \<in> set (tc_versions cfg)" "tc_alpn cfg = [ALPN]" "nv_cert (tc_verifier cfg) cert rest host [] (fl_time ?fl) = Ok ()"
    "nv_tls13 (tc_verifier cfg) (fl_transcript ?fl) cert (fl_signature ?fl) = Ok ()"
    using assms(2) by (simp_all add: client_connector_Ok Let_def NoServerVerify_def)
  have "dial cfg host ?fl = Ok (Some (cert # rest))"
    using assms(1) v assms(7-9) unfolding dial_law_def by (auto intro!: assms(1) [unfolded dial_law_def, rule_format])
  moreover have "peer_fingerprint sha hex (Some (cert # rest)) = Ret (Some pin)" using assms(10,11) by (simp add: peer_fingerprint_Some)
  ultimately show ?thesis
    unfolding connect_unpinned using assms(3-6) by (auto simp: tcp_connect_Ok)
qed

end
