(* ===== verification/StreamOpen.thy ===== *)
theory StreamOpen
  imports Server Http
begin

text \<open>
  Opening a stream, from the request of an application to the answer it gets: \<open>open_stream\<close> of a client session
  (\<open>crates/krymux/src/mux.rs\<close>, \<open>client.rs\<close>), the OPEN frame, the server's reader and its stream handler
  (\<open>server.rs\<close>, \<open>router.rs\<close>), the OPEN_ACK frame and the end of \<open>open_stream\<close>, and the reply of the SOCKS5
  front (\<open>socks5.rs\<close>).

  \<open>open_exchange\<close> composes the definitions of the other theories the way the frames connect them.  The
  specification is \<open>server_decision\<close>: a function of the router, the target and the outcomes of the socket calls.

  Lemmas: the composed exchange returns exactly the decision, with the stream registered at both ends under one
  id; requests one after the other are decided independently; the SOCKS5 reply says what was decided; a target that does not fit its
  frame ends the session.
\<close>

section \<open>The specification\<close>

definition dial_decision :: "(dial_addr \<Rightarrow> (string, unit) result) \<Rightarrow> upstream \<Rightarrow> (string \<times> string, served \<times> string) result" where
  "dial_decision dial u =
     (case dial (dial_of u) of
        Err e \<Rightarrow> Err (''unreachable'', ''dial '' @ upstream_label u @ '': '' @ e)
      | Ok _ \<Rightarrow> Ok (ServedTo (dial_of u), upstream_label u))"

text \<open>What becomes of a target: where it is served and the label of the upstream, or the code and reason of the refusal.\<close>

definition open_decision ::
    "router \<Rightarrow> target \<Rightarrow> (string, unit) result \<Rightarrow> (dial_addr \<Rightarrow> (string, unit) result) \<Rightarrow> (string \<times> string, served \<times> string) result" where
  "open_decision rt t bind dial =
     (if t_hint t = HINT_UDP then
        (case bind of Err e \<Rightarrow> Err (''unreachable'', ''udp bind: '' @ e) | Ok _ \<Rightarrow> Ok (ServedUdp, ''udp''))
      else case resolve rt t of
        Route _ u \<Rightarrow> dial_decision dial u
      | Dial \<Rightarrow> dial_decision dial \<lparr>up_host = t_host t, up_port = t_port t, up_unix = t_unix t\<rparr>
      | Deny reason \<Rightarrow> Err (''denied'', reason))"

definition server_decision ::
    "shared \<Rightarrow> router \<Rightarrow> target \<Rightarrow> (string, unit) result \<Rightarrow> (dial_addr \<Rightarrow> (string, unit) result) \<Rightarrow> (string \<times> string, served \<times> string) result" where
  "server_decision ss rt t bind dial =
     (if length (streams ss) \<ge> max_streams ss then Err (''maxstreams'', ''limit '' @ show_nat (max_streams ss))
      else open_decision rt t bind dial)"

definition served_of :: "(string \<times> string, served \<times> string) result \<Rightarrow> served" where
  "served_of d = (case d of Ok (sv, _) \<Rightarrow> sv | Err _ \<Rightarrow> Unserved)"

definition answer_json :: "string \<Rightarrow> (string \<times> string, served \<times> string) result \<Rightarrow> json" where
  "answer_json algo d =
     (case d of
        Ok (_, label) \<Rightarrow> JObject [(''ok'', JBool True), (''compression'', JString algo), (''upstream'', JString label)]
      | Err (code, reason) \<Rightarrow> JObject [(''ok'', JBool False), (''code'', JString code), (''reason'', JString reason)])"

section \<open>The exchange\<close>

definition open_exchange ::
    "mux_env \<Rightarrow> mux_env \<Rightarrow> target \<Rightarrow> string \<Rightarrow> nat \<Rightarrow> u64 \<Rightarrow> router \<Rightarrow> (string, unit) result \<Rightarrow> (dial_addr \<Rightarrow> (string, unit) result) \<Rightarrow>
     shared \<Rightarrow> shared \<Rightarrow> ((open_error, nat) result \<times> shared \<times> shared \<times> served) option" where
  "open_exchange E E' t req now ms rt bind dial sc ss =
     (case open_begin E t req now sc of
        Err e \<Rightarrow> Some (Err e, sc, ss, Unserved)
      | Ok (r, frame, sc1) \<Rightarrow>
          (case drain cmpx_dec frame of
             ([(fh, p)], [], None) \<Rightarrow>
               (case handle_frame E' now ms fh p ss of
                  Ok (ss1, []) \<Rightarrow>
                    (let (ss2, sv) =
                       (if length (accepted ss1) = Suc (length (accepted ss))
                        then handle_stream E' (fst (last (accepted ss1))) (snd (last (accepted ss1))) rt bind dial ss1
                        else (ss1, Unserved))
                     in case drop (length (writer_q ss)) (writer_q ss2) of
                          [answer] \<Rightarrow>
                            (case drain cmpx_dec answer of
                               ([(fh', p')], [], None) \<Rightarrow>
                                 (case handle_frame E now ms fh' p' sc1 of
                                    Ok (sc2, []) \<Rightarrow>
                                      (case ack_result (heap sc2 ! r) of
                                         Some res \<Rightarrow> (let (out, sc3) = open_finish r (AckReceived res) sc2 in Some (out, sc3, ss2, sv))
                                       | None \<Rightarrow> None)
                                  | _ \<Rightarrow> None)
                             | _ \<Rightarrow> None)
                        | _ \<Rightarrow> None)
                | _ \<Rightarrow> None)
           | _ \<Rightarrow> None))"

text \<open>The text of an error of \<open>open_stream\<close>.\<close>

definition open_error_text :: "open_error \<Rightarrow> string" where
  "open_error_text e =
     (case e of
        SessionGone \<Rightarrow> ''session is gone''
      | MaxStreams n \<Rightarrow> ''max streams reached ('' @ show_nat n @ '')''
      | WriterGone \<Rightarrow> ''session writer gone''
      | OpenRejected reason \<Rightarrow> ''open rejected: '' @ reason
      | ClosedWhileOpening \<Rightarrow> ''session closed while opening''
      | OpenTimeout \<Rightarrow> ''open stream timeout'')"

definition with_text :: "(open_error, 'a) result \<Rightarrow> (string, 'a) result" where
  "with_text r = (case r of Err e \<Rightarrow> Err (open_error_text e) | Ok a \<Rightarrow> Ok a)"

text \<open>A SOCKS5 connection up to the copy loop: the bytes written to the application, and where it is served.\<close>

definition socks_connect ::
    "mux_env \<Rightarrow> mux_env \<Rightarrow> string \<Rightarrow> nat \<Rightarrow> u64 \<Rightarrow> router \<Rightarrow> (string, unit) result \<Rightarrow> (dial_addr \<Rightarrow> (string, unit) result) \<Rightarrow>
     shared \<Rightarrow> shared \<Rightarrow> bytes \<Rightarrow> (bytes \<times> served) option" where
  "socks_connect E E' dflt now ms rt bind dial sc ss inp =
     (case serve_socks inp of
        (w, SkConnect host port rest) \<Rightarrow>
          (case open_exchange E E' (stream_target host port) (stream_compression dflt None) now ms rt bind dial sc ss of
             Some (out, _, _, sv) \<Rightarrow> Some (w @ fst (serve_connect (with_text out)), sv)
           | None \<Rightarrow> None)
      | (w, _) \<Rightarrow> Some (w, Unserved))"

section \<open>Frames across\<close>

lemma frame_crosses:
  assumes "known_type ft" and "length p \<le> frame_cap ft"
  shows "drain cmpx_dec (encode_frame ft fl sid p) =
    ([(\<lparr>frame_type = ft, fh_flags = fl, stream_id = sid, fh_length = word_of_nat (length p)\<rparr>, p)], [], None)"
  using cmpx.drain_roundtrip [of "[(\<lparr>frame_type = ft, fh_flags = fl, stream_id = sid, fh_length = word_of_nat (length p)\<rparr>, p)]"] assms
  by (simp add: sendable_frame_def encode_msg_def)

text \<open>A text printed at one end is read at the other with the same members.\<close>

definition reads_back :: "mux_env \<Rightarrow> mux_env \<Rightarrow> json \<Rightarrow> bool" where
  "reads_back E E' v \<longleftrightarrow> (\<exists>v'. json_parse E' (json_print E v) = Some v' \<and> (\<forall>k. json_index v' k = json_index v k))"

lemma port_json: "ucast (ucast (p :: u16) :: u64) = p"
  by (simp add: word_unat_eq_iff unsigned_ucast_eq take_bit_nat_def unat_of_nat take_bit_word_eq_self)

lemma as_str_opt [simp]: "as_str (json_opt_str x) = x"
  by (cases x) (simp_all add: json_opt_str_def)

lemma open_target_json:
  assumes "\<And>k. json_index v k = json_index (open_json t algo) k"
  shows "open_target v = t" and "as_str (json_index v ''compression'') = Some algo"
proof -
  have m: "json_index v ''host'' = json_opt_str (t_host t)" "json_index v ''port'' = json_nat (unat (t_port t))"
    "json_index v ''unix'' = json_opt_str (t_unix t)" "json_index v ''hint'' = JString (t_hint t)" "json_index v ''compression'' = JString algo"
    unfolding assms by (simp_all add: open_json_def json_index_def)
  show "open_target v = t" by (simp add: open_target_def m json_nat_def port_json)
  show "as_str (json_index v ''compression'') = Some algo" by (simp add: m)
qed

section \<open>The server's answer\<close>

lemma accept_answer:
  assumes "can_answer r s"
  shows "answered E r (answer_json (compression (heap s ! r)) (Ok (sv, label))) s (accept_stream E r (Some label) s)"
  using assms
  by (simp add: can_answer_def answered_def answer_json_def accept_stream_def send_control_def try_send_def upd_stream_def Let_def json_opt_str_def)

lemma reject_answer:
  assumes "can_answer r s"
  shows "answered E r (answer_json algo (Err (code, reason))) s (reject_stream E r code reason s)"
  using assms
  by (simp add: can_answer_def answered_def answer_json_def reject_stream_def send_control_def try_send_def upd_stream_def try_inbound_def Let_def)

lemma open_upstream_answer:
  assumes "can_answer r s"
  shows "answered E r (answer_json (compression (heap s ! r)) (dial_decision dial u)) s (fst (open_upstream E r dial u s))"
    and "snd (open_upstream E r dial u s) = served_of (dial_decision dial u)"
  using accept_answer [OF assms] reject_answer [OF assms]
  by (cases "dial (dial_of u)"; simp add: open_upstream_def dial_decision_def served_of_def)+

text \<open>The handler answers with the decision.\<close>

lemma handle_stream_answer:
  assumes "can_answer r s"
  shows "answered E r (answer_json (compression (heap s ! r)) (open_decision rt t bind dial)) s (fst (handle_stream E r t rt bind dial s))"
    and "snd (handle_stream E r t rt bind dial s) = served_of (open_decision rt t bind dial)"
  using accept_answer [OF assms, of E ServedUdp "''udp''"] reject_answer [OF assms] open_upstream_answer [OF assms]
  by (cases "t_hint t = HINT_UDP"; cases bind; cases "resolve rt t"; simp add: handle_stream_def open_decision_def served_of_def)+

text \<open>The answer as the opener reads it.\<close>

definition ack_of :: "(string \<times> string, served \<times> string) result \<Rightarrow> (string, string) result" where
  "ack_of d = (case d of Ok (_, label) \<Rightarrow> Ok label | Err (code, reason) \<Rightarrow> Err (code @ '' '' @ reason))"

lemma handle_open_ack_answer:
  assumes "reads_back E' E (answer_json algo d)" and "map_of (streams s) sid = Some r"
  shows "handle_open_ack E sid (json_print E' (answer_json algo d)) s = Ok (upd_stream r (record_ack (ack_of d)) s, [])"
proof -
  obtain v where v: "json_parse E (json_print E' (answer_json algo d)) = Some v" "\<And>k. json_index v k = json_index (answer_json algo d) k"
    using assms(1) unfolding reads_back_def by blast
  show ?thesis unfolding handle_open_ack_def assms(2) option.case v(1) Let_def unwrap_or.simps v(2)
    by (cases d) (auto simp: answer_json_def json_index_def ack_of_def)
qed

text \<open>Answering touches neither the registry nor the codec of a stream.\<close>

definition codec_view :: "shared \<Rightarrow> (u32 \<times> nat) list \<times> string list" where
  "codec_view s = (streams s, map compression (heap s))"

lemma map_update_same: "(map f xs)[r := f (xs ! r)] = map f xs"
  by (cases "r < length xs") (simp_all add: list_update_same_conv list_update_beyond)

lemma codec_view_steps:
  "codec_view (upd_stream r (\<lambda>si. si\<lparr>ack_done := b\<rparr>) s) = codec_view s"
  "codec_view (snd (send_control ft sid p s)) = codec_view s"
  "codec_view (try_inbound r m s) = codec_view s"
  by (auto simp: codec_view_def upd_stream_def send_control_def try_send_def try_inbound_def map_update map_update_same)

lemma codec_view_handle_stream: "codec_view (fst (handle_stream E r t rt bind dial s)) = codec_view s"
proof -
  have "codec_view (accept_stream E r up s) = codec_view s" "codec_view (reject_stream E r code reason s) = codec_view s" for up code reason
    by (simp_all add: accept_stream_def reject_stream_def Let_def codec_view_steps)
  then show ?thesis
    by (cases "t_hint t = HINT_UDP"; cases bind; cases "resolve rt t")
      (simp_all add: handle_stream_def open_upstream_def split: sum.split)
qed

section \<open>The exchange decides\<close>

definition client_ready :: "shared \<Rightarrow> bool" where
  "client_ready sc \<longleftrightarrow> ready sc \<and> \<not> closed sc \<and> length (streams sc) < max_streams sc \<and> odd (unat (next_id sc))"

definition server_ready :: "u32 \<Rightarrow> shared \<Rightarrow> bool" where
  "server_ready sid ss \<longleftrightarrow> ready ss \<and> \<not> closed ss \<and> \<not> is_client ss \<and> on_stream ss \<and> map_of (streams ss) sid = None \<and>
     writer_open ss \<and> length (writer_q ss) < WRITER_QUEUE"

lemma open_begin_ready:
  assumes "client_ready sc"
  shows "\<exists>sc1. open_begin E t req now sc =
      Ok (length (heap sc), encode_frame FT_OPEN 0 (next_id sc) (json_print E (open_json t (negotiate (codecs E) req (peer_supported sc)))), sc1) \<and>
    map_of (streams sc1) (next_id sc) = Some (length (heap sc)) \<and> ready sc1 \<and> length (heap sc1) = Suc (length (heap sc)) \<and>
    si_id (heap sc1 ! length (heap sc)) = next_id sc \<and> ack (heap sc1 ! length (heap sc)) \<and>
    compression (heap sc1 ! length (heap sc)) = negotiate (codecs E) req (peer_supported sc)"
  using assms by (simp add: client_ready_def open_begin_def build_stream_def register_def upd_stream_def new_inner_def update_conv Let_def)

lemma server_receives_open:
  assumes "server_ready sid ss" and "odd (unat sid)" and "reads_back E E' (open_json t algo)"
    and fh_def: "fh = \<lparr>frame_type = FT_OPEN, fh_flags = 0, stream_id = sid, fh_length = len\<rparr>"
  shows "if length (streams ss) \<ge> max_streams ss
    then handle_frame E' now ms fh (json_print E (open_json t algo)) ss =
      Ok (open_denied E' sid ''maxstreams'' (''limit '' @ show_nat (max_streams ss)) ss, [])
    else \<exists>ss1. handle_frame E' now ms fh (json_print E (open_json t algo)) ss = Ok (ss1, []) \<and>
      accepted ss1 = accepted ss @ [(length (heap ss), t)] \<and> can_answer (length (heap ss)) ss1 \<and> writer_q ss1 = writer_q ss \<and>
      si_id (heap ss1 ! length (heap ss)) = sid \<and> compression (heap ss1 ! length (heap ss)) = negotiate (codecs E') algo (peer_supported ss) \<and>
      map_of (streams ss1) sid = Some (length (heap ss)) \<and> length (heap ss) < length (heap ss1)"
proof -
  obtain v where v: "json_parse E' (json_print E (open_json t algo)) = Some v" "\<And>k. json_index v k = json_index (open_json t algo) k"
    using assms(3) unfolding reads_back_def by blast
  note m = open_target_json [OF v(2)]
  have nz: "sid \<noteq> 0" using assms(2) by auto
  have f: "handle_frame E' now ms fh (json_print E (open_json t algo)) ss = handle_open E' now sid (json_print E (open_json t algo)) ss"
    using assms(1) by (simp add: handle_frame_def fh_def server_ready_def FT_defs)
  show ?thesis unfolding f using assms(1,2) nz
    by (auto simp: handle_open_def server_ready_def v(1) m build_stream_def register_def new_inner_def can_answer_def update_conv Let_def)
qed

text \<open>The server's half: what it queues and where it serves.\<close>

lemma server_half:
  assumes "server_ready sid ss" and "odd (unat sid)" and "reads_back E E' (open_json t algo)"
    and "fh = \<lparr>frame_type = FT_OPEN, fh_flags = 0, stream_id = sid, fh_length = len\<rparr>"
    and "d = server_decision ss rt t bind dial"
  shows "\<exists>ss1 ss2. handle_frame E' now ms fh (json_print E (open_json t algo)) ss = Ok (ss1, []) \<and>
    (if length (accepted ss1) = Suc (length (accepted ss))
     then handle_stream E' (fst (last (accepted ss1))) (snd (last (accepted ss1))) rt bind dial ss1 else (ss1, Unserved)) = (ss2, served_of d) \<and>
    drop (length (writer_q ss)) (writer_q ss2) =
      [encode_frame FT_OPEN_ACK 0 sid (json_print E' (answer_json (negotiate (codecs E') algo (peer_supported ss)) d))] \<and>
    (isl d \<or> map_of (streams ss2) sid = Some (length (heap ss)) \<and>
       compression (heap ss2 ! length (heap ss)) = negotiate (codecs E') algo (peer_supported ss))"
proof (cases "length (streams ss) \<ge> max_streams ss")
  case True
  then show ?thesis
    using server_receives_open [OF assms(1-4), of now ms] assms(1,5)
    by (simp add: server_decision_def served_of_def answer_json_def open_denied_def send_control_def try_send_def server_ready_def)
next
  case False
  let ?a = "negotiate (codecs E') algo (peer_supported ss)" and ?r = "length (heap ss)"
  obtain ss1 where h: "handle_frame E' now ms fh (json_print E (open_json t algo)) ss = Ok (ss1, [])"
    "accepted ss1 = accepted ss @ [(?r, t)]" "can_answer ?r ss1" "writer_q ss1 = writer_q ss" "si_id (heap ss1 ! ?r) = sid"
    "compression (heap ss1 ! ?r) = ?a" "map_of (streams ss1) sid = Some ?r" "?r < length (heap ss1)"
    using server_receives_open [OF assms(1-4), of now ms] False by auto
  have d: "d = open_decision rt t bind dial" using False assms(5) by (simp add: server_decision_def)
  obtain ss2 where s2: "handle_stream E' ?r t rt bind dial ss1 = (ss2, served_of d)"
    using handle_stream_answer(2) [OF h(3), of E' t rt bind dial] d by (metis prod.collapse)
  have "answered E' ?r (answer_json ?a d) ss1 ss2" using handle_stream_answer(1) [OF h(3), of E' rt t bind dial] s2 d h(6) by simp
  moreover have "streams ss2 = streams ss1" "map compression (heap ss2) = map compression (heap ss1)"
    using codec_view_handle_stream [of E' ?r t rt bind dial ss1] s2 by (simp_all add: codec_view_def)
  moreover then have "compression (heap ss2 ! ?r) = ?a" using h(6,8) by (metis length_map nth_map)
  ultimately show ?thesis using h s2 by (intro exI [of _ ss1] exI [of _ ss2]) (simp add: answered_def)
qed

text \<open>The opener's half: what it makes of the answer.\<close>

lemma client_half:
  assumes "reads_back E' E (answer_json algo d)" and "ready s" and "map_of (streams s) sid = Some r" and "r < length (heap s)"
    and "si_id (heap s ! r) = sid" and "ack (heap s ! r)"
    and "fh = \<lparr>frame_type = FT_OPEN_ACK, fh_flags = 0, stream_id = sid, fh_length = len\<rparr>"
  shows "\<exists>s2 s3. handle_frame E now ms fh (json_print E' (answer_json algo d)) s = Ok (s2, []) \<and>
    ack_result (heap s2 ! r) = Some (ack_of d) \<and>
    open_finish r (AckReceived (ack_of d)) s2 =
      ((case d of Ok _ \<Rightarrow> Ok r | Err (code, reason) \<Rightarrow> Err (OpenRejected (code @ '' '' @ reason))), s3) \<and>
    (if isl d then map_of (streams s3) sid = None
     else map_of (streams s3) sid = Some r \<and> compression (heap s3 ! r) = compression (heap s ! r))"
proof -
  let ?s2 = "upd_stream r (record_ack (ack_of d)) s"
  have "handle_frame E now ms fh (json_print E' (answer_json algo d)) s = Ok (?s2, [])"
    using handle_open_ack_answer [OF assms(1,3)] assms(2,7) by (simp add: handle_frame_def FT_defs)
  moreover have "ack_result (heap ?s2 ! r) = Some (ack_of d)" "si_id (heap ?s2 ! r) = sid" "compression (heap ?s2 ! r) = compression (heap s ! r)"
    "streams ?s2 = streams s" using assms(4-6) by (simp_all add: upd_stream_def record_ack_def)
  moreover have "map_of (streams (drop_stream r (unregister sid ?s2))) sid = None"
    by (simp add: drop_stream_def try_retire_def unregister_def upd_stream_def try_inbound_def Let_def delete_conv)
  ultimately show ?thesis using assms(3)
    by (cases d) (auto simp: open_finish_def ack_of_def Let_def)
qed

text \<open>What an exchange leaves as it was, and how it changes a registry.\<close>

definition session_view :: "shared \<Rightarrow> bool \<times> bool \<times> bool \<times> bool \<times> bool \<times> nat \<times> string list \<times> u32" where
  "session_view s = (ready s, closed s, is_client s, on_stream s, writer_open s, max_streams s, peer_supported s, next_id s)"

definition grown :: "u32 \<Rightarrow> shared \<Rightarrow> shared \<Rightarrow> bool" where
  "grown sid s s' \<longleftrightarrow> fst ` set (streams s') \<subseteq> insert sid (fst ` set (streams s)) \<and> length (streams s') \<le> Suc (length (streams s))"

lemma view_steps:
  "session_view (upd_stream r f s) = session_view s"
  "session_view (snd (send_control ft sid p s)) = session_view s"
  "session_view (try_inbound r m s) = session_view s"
  "session_view (unregister sid s) = session_view s"
  "session_view (register sid r s) = session_view s"
  "session_view (s\<lparr>streams := x\<rparr>) = session_view s"
  "session_view (s\<lparr>accepted := y\<rparr>) = session_view s"
  "session_view (s\<lparr>heap := z\<rparr>) = session_view s"
  by (auto simp: session_view_def upd_stream_def send_control_def try_send_def try_inbound_def unregister_def register_def)

lemma view_retire: "session_view (drop_stream r s) = session_view s"
  by (simp add: drop_stream_def try_retire_def view_steps Let_def)

lemma view_answers:
  "session_view (accept_stream E r up s) = session_view s" "session_view (reject_stream E r code reason s) = session_view s"
  "session_view (open_denied E sid code reason s) = session_view s"
  by (simp_all add: accept_stream_def reject_stream_def open_denied_def view_steps Let_def)

lemma view_handle_stream: "session_view (fst (handle_stream E r t rt bind dial s)) = session_view s"
  by (cases "t_hint t = HINT_UDP"; cases bind; cases "resolve rt t")
    (simp_all add: handle_stream_def open_upstream_def view_answers split: sum.split)

lemma update_grows: "fst ` set (AList.update k v al) \<subseteq> insert k (fst ` set al) \<and> length (AList.update k v al) \<le> Suc (length al)"
  by (induction al) (auto simp: image_iff)

lemma open_begin_view:
  assumes "open_begin E t req now s = Ok (r, frame, s1)"
  shows "session_view s1 = session_view (s\<lparr>next_id := next_id s + 2\<rparr>) \<and> grown (next_id s) s s1"
proof -
  have "s1 = register (next_id s) (length (heap s)) (upd_stream (length (heap s)) (\<lambda>si. si\<lparr>ack := True\<rparr>)
      (snd (build_stream (next_id s) (negotiate (codecs E) req (peer_supported s)) (parse_level req) now (s\<lparr>next_id := next_id s + 2\<rparr>))))"
    using assms by (auto simp: open_begin_def build_stream_def Let_def split: if_splits)
  then show ?thesis
    using update_grows [of "next_id s" "length (heap s)" "streams s"]
    by (simp add: view_steps build_stream_def grown_def register_def upd_stream_def)
qed

lemma open_finish_view:
  "session_view (snd (open_finish r ev s)) = session_view s \<and> fst ` set (streams (snd (open_finish r ev s))) \<subseteq> fst ` set (streams s) \<and>
   length (streams (snd (open_finish r ev s))) \<le> length (streams s)"
proof -
  let ?s = "drop_stream r (unregister (si_id (heap s ! r)) s)"
  obtain P where P: "streams ?s = filter P (streams (unregister (si_id (heap s ! r)) s))" using drop_op.streams_shrink by blast
  obtain Q where Q: "streams (unregister (si_id (heap s ! r)) s) = filter Q (streams s)" using unregister_op.streams_shrink by blast
  have "session_view ?s = session_view s" "fst ` set (streams ?s) \<subseteq> fst ` set (streams s)" "length (streams ?s) \<le> length (streams s)"
    by (auto simp: view_retire view_steps P Q intro: order_trans [OF length_filter_le])
  then show ?thesis by (cases ev; cases "case ev of AckReceived x \<Rightarrow> x | _ \<Rightarrow> Inl []") (auto simp: open_finish_def Let_def split: sum.splits)
qed

lemma handle_open_ack_view:
  assumes "handle_frame E now ms \<lparr>frame_type = FT_OPEN_ACK, fh_flags = fl, stream_id = sid, fh_length = len\<rparr> p s = Ok (s', todo)"
  shows "session_view s' = session_view s \<and> streams s' = streams s"
  using assms by (auto simp: handle_frame_def FT_defs handle_open_ack_def Let_def view_steps upd_stream_def split: if_splits option.splits)

lemma handle_open_view:
  assumes "handle_frame E now ms \<lparr>frame_type = FT_OPEN, fh_flags = fl, stream_id = sid, fh_length = len\<rparr> p s = Ok (s', todo)"
  shows "session_view s' = session_view s \<and> grown sid s s'"
proof -
  have h: "handle_open E now sid p s = Ok (s', todo)" using assms by (auto simp: handle_frame_def FT_defs split: if_splits)
  have d: "streams (open_denied E sid code reason s) = streams s" for code reason
    by (simp add: open_denied_def send_control_def try_send_def)
  from h have "session_view s' = session_view s \<and> (streams s' = streams s \<or> streams s' = AList.update sid (length (heap s)) (streams s))"
    by (auto simp: handle_open_def view_answers view_steps d build_stream_def register_def Let_def split: if_splits option.splits)
  moreover have "grown sid s s'" if "streams s' = streams s" using that by (simp add: grown_def subset_insertI)
  moreover have "grown sid s s'" if "streams s' = AList.update sid (length (heap s)) (streams s)"
    unfolding grown_def that by (rule update_grows)
  ultimately show ?thesis by blast
qed

text \<open>Both halves together.\<close>

lemma served_view:
  assumes "(if b then handle_stream E r t rt bind dial s1 else (s1, Unserved)) = (s2, sv)"
  shows "session_view s2 = session_view s1 \<and> streams s2 = streams s1"
  using assms view_handle_stream [of E r t rt bind dial s1] codec_view_handle_stream [of E r t rt bind dial s1]
  by (auto simp: codec_view_def split: if_splits)

lemma open_exchange_result:
  assumes "client_ready sc" and "server_ready (next_id sc) ss"
    and "algo = negotiate (codecs E) req (peer_supported sc)" and "algo' = negotiate (codecs E') algo (peer_supported ss)"
    and "d = server_decision ss rt t bind dial"
    and "reads_back E E' (open_json t algo)" and "length (json_print E (open_json t algo)) \<le> MAX_OPEN"
    and "reads_back E' E (answer_json algo' d)" and "length (json_print E' (answer_json algo' d)) \<le> MAX_CONTROL"
  shows "\<exists>sc' ss'. open_exchange E E' t req now ms rt bind dial sc ss =
      Some (case d of Ok _ \<Rightarrow> Ok (length (heap sc)) | Err (code, reason) \<Rightarrow> Err (OpenRejected (code @ '' '' @ reason)), sc', ss', served_of d) \<and>
    (if isl d then map_of (streams sc') (next_id sc) = None
     else map_of (streams sc') (next_id sc) = Some (length (heap sc)) \<and> map_of (streams ss') (next_id sc) = Some (length (heap ss)) \<and>
       compression (heap sc' ! length (heap sc)) = algo \<and> compression (heap ss' ! length (heap ss)) = algo') \<and>
    session_view sc' = session_view (sc\<lparr>next_id := next_id sc + 2\<rparr>) \<and> grown (next_id sc) sc sc' \<and>
    session_view ss' = session_view ss \<and> grown (next_id sc) ss ss'"
proof -
  let ?r = "length (heap sc)" and ?sid = "next_id sc"
  obtain sc1 where b: "open_begin E t req now sc = Ok (?r, encode_frame FT_OPEN 0 ?sid (json_print E (open_json t algo)), sc1)"
    and c: "map_of (streams sc1) ?sid = Some ?r" "ready sc1" "?r < length (heap sc1)" "si_id (heap sc1 ! ?r) = ?sid" "ack (heap sc1 ! ?r)"
      "compression (heap sc1 ! ?r) = algo"
    using open_begin_ready [OF assms(1), of E t req now] assms(3) by auto
  have odd: "odd (unat ?sid)" using assms(1) by (simp add: client_ready_def)
  have cap: "known_type FT_OPEN" "frame_cap FT_OPEN = MAX_OPEN" "known_type FT_OPEN_ACK" "frame_cap FT_OPEN_ACK = MAX_CONTROL"
    by (simp_all add: known_type_def frame_cap_def FT_defs)
  note o = frame_crosses [OF cap(1), unfolded cap(2), OF assms(7), of 0 ?sid]
  note a = frame_crosses [OF cap(3), unfolded cap(4), OF assms(9), of 0 ?sid]
  obtain ss1 ss2 where s: "handle_frame E' now ms \<lparr>frame_type = FT_OPEN, fh_flags = 0, stream_id = ?sid,
        fh_length = word_of_nat (length (json_print E (open_json t algo)))\<rparr> (json_print E (open_json t algo)) ss = Ok (ss1, [])"
    "(if length (accepted ss1) = Suc (length (accepted ss))
      then handle_stream E' (fst (last (accepted ss1))) (snd (last (accepted ss1))) rt bind dial ss1 else (ss1, Unserved)) = (ss2, served_of d)"
    "drop (length (writer_q ss)) (writer_q ss2) = [encode_frame FT_OPEN_ACK 0 ?sid (json_print E' (answer_json algo' d))]"
    "isl d \<or> map_of (streams ss2) ?sid = Some (length (heap ss)) \<and> compression (heap ss2 ! length (heap ss)) = algo'"
    using server_half [OF assms(2) odd assms(6) refl assms(5), of now ms] unfolding assms(4) by blast
  obtain sc2 sc3 where k: "handle_frame E now ms \<lparr>frame_type = FT_OPEN_ACK, fh_flags = 0, stream_id = ?sid,
        fh_length = word_of_nat (length (json_print E' (answer_json algo' d)))\<rparr> (json_print E' (answer_json algo' d)) sc1 = Ok (sc2, [])"
    "ack_result (heap sc2 ! ?r) = Some (ack_of d)"
    "open_finish ?r (AckReceived (ack_of d)) sc2 =
      ((case d of Ok _ \<Rightarrow> Ok ?r | Err (code, reason) \<Rightarrow> Err (OpenRejected (code @ '' '' @ reason))), sc3)"
    "if isl d then map_of (streams sc3) ?sid = None
     else map_of (streams sc3) ?sid = Some ?r \<and> compression (heap sc3 ! ?r) = compression (heap sc1 ! ?r)"
    using client_half [OF assms(8) c(2,1,3-5) refl, of now ms] by blast
  have "open_exchange E E' t req now ms rt bind dial sc ss =
      Some (case d of Ok _ \<Rightarrow> Ok ?r | Err (code, reason) \<Rightarrow> Err (OpenRejected (code @ '' '' @ reason)), sc3, ss2, served_of d)"
    unfolding open_exchange_def b sum.case prod.case o list.case option.case s(1) s(2) Let_def s(3) a k(1) k(2) k(3) by simp
  moreover have "session_view sc3 = session_view (sc\<lparr>next_id := next_id sc + 2\<rparr>) \<and> grown ?sid sc sc3"
    using open_begin_view [OF b] handle_open_ack_view [OF k(1)] open_finish_view [of ?r "AckReceived (ack_of d)" sc2] k(3)
    unfolding grown_def by (metis (no_types, lifting) order_trans snd_conv)
  moreover have "session_view ss2 = session_view ss \<and> grown ?sid ss ss2"
    using handle_open_view [OF s(1)] served_view [OF s(2)] by (simp add: grown_def)
  ultimately show ?thesis using k(4) s(4) c(6) by (intro exI [of _ sc3] exI [of _ ss2]) auto
qed


section \<open>One request after the other\<close>

text \<open>
  Requests with their target, the compression asked for and the outcomes of the socket calls.  Before the next one, the server's writer has
  sent what was queued.
\<close>

type_synonym open_request = "target \<times> string \<times> (string, unit) result \<times> (dial_addr \<Rightarrow> (string, unit) result)"

fun open_all ::
    "mux_env \<Rightarrow> mux_env \<Rightarrow> nat \<Rightarrow> u64 \<Rightarrow> router \<Rightarrow> open_request list \<Rightarrow> shared \<Rightarrow> shared \<Rightarrow> ((open_error, nat) result \<times> served) list option" where
  "open_all E E' now ms rt [] sc ss = Some []"
| "open_all E E' now ms rt ((t, req, bind, dial) # rqs) sc ss =
     (case open_exchange E E' t req now ms rt bind dial sc (ss\<lparr>writer_q := []\<rparr>) of
        None \<Rightarrow> None
      | Some (out, sc', ss', sv) \<Rightarrow> map_option (Cons (out, sv)) (open_all E E' now ms rt rqs sc' ss'))"

definition opener_room :: "nat \<Rightarrow> shared \<Rightarrow> bool" where
  "opener_room n sc \<longleftrightarrow> ready sc \<and> \<not> closed sc \<and> odd (unat (next_id sc)) \<and> unat (next_id sc) + 2 * n < 2 ^ 32 \<and>
     length (streams sc) + n \<le> max_streams sc"

definition acceptor_room :: "nat \<Rightarrow> u32 \<Rightarrow> shared \<Rightarrow> bool" where
  "acceptor_room n sid ss \<longleftrightarrow> ready ss \<and> \<not> closed ss \<and> \<not> is_client ss \<and> on_stream ss \<and> writer_open ss \<and>
     (\<forall>i \<in> fst ` set (streams ss). unat i < unat sid) \<and> length (streams ss) + n \<le> max_streams ss"

definition texts_cross :: "mux_env \<Rightarrow> mux_env \<Rightarrow> string list \<Rightarrow> string list \<Rightarrow> router \<Rightarrow> open_request \<Rightarrow> bool" where
  "texts_cross E E' ps ps' rt rq \<longleftrightarrow>
     (case rq of (t, req, bind, dial) \<Rightarrow>
        let algo = negotiate (codecs E) req ps; algo' = negotiate (codecs E') algo ps'; d = open_decision rt t bind dial in
        reads_back E E' (open_json t algo) \<and> length (json_print E (open_json t algo)) \<le> MAX_OPEN \<and>
        reads_back E' E (answer_json algo' d) \<and> length (json_print E' (answer_json algo' d)) \<le> MAX_CONTROL)"

definition told :: "(open_error, nat) result \<Rightarrow> (open_error, unit) result" where
  "told out = (case out of Err e \<Rightarrow> Err e | Ok _ \<Rightarrow> Ok ())"

text \<open>What the policy makes of a request.\<close>

definition request_verdict :: "router \<Rightarrow> open_request \<Rightarrow> (open_error, unit) result \<times> served" where
  "request_verdict rt rq =
     (case rq of (t, req, bind, dial) \<Rightarrow>
        let d = open_decision rt t bind dial in
        (case d of Ok _ \<Rightarrow> Ok () | Err (code, reason) \<Rightarrow> Err (OpenRejected (code @ '' '' @ reason)), served_of d))"

lemma next_id_step: "unat (i :: u32) + 2 * Suc n < 2 ^ 32 \<Longrightarrow> unat (i + 2) = unat i + 2"
  by (simp add: unat_word_ariths)

lemma rooms_ready:
  assumes "opener_room (Suc n) sc" and "acceptor_room (Suc n) (next_id sc) ss"
  shows "client_ready sc" and "server_ready (next_id sc) (ss\<lparr>writer_q := []\<rparr>)"
proof -
  have "map_of (streams ss) (next_id sc) = None" using assms(2) by (fastforce simp: acceptor_room_def map_of_eq_None_iff)
  then show "server_ready (next_id sc) (ss\<lparr>writer_q := []\<rparr>)"
    using assms(2) by (simp add: server_ready_def acceptor_room_def WRITER_QUEUE_def)
  show "client_ready sc" using assms(1) by (simp add: client_ready_def opener_room_def)
qed

lemma rooms_step:
  assumes "opener_room (Suc n) sc" and "acceptor_room (Suc n) (next_id sc) ss"
    and "session_view sc' = session_view (sc\<lparr>next_id := next_id sc + 2\<rparr>)" and "grown (next_id sc) sc sc'"
    and "session_view ss' = session_view (ss\<lparr>writer_q := []\<rparr>)" and "grown (next_id sc) (ss\<lparr>writer_q := []\<rparr>) ss'"
  shows "opener_room n sc'" and "acceptor_room n (next_id sc') ss'"
proof -
  have n: "next_id sc' = next_id sc + 2" "unat (next_id sc') = unat (next_id sc) + 2"
    using assms(1,3) next_id_step [of "next_id sc" n] by (simp_all add: session_view_def opener_room_def)
  show "opener_room n sc'" using assms(1,3,4) n by (simp add: opener_room_def session_view_def grown_def)
  have "\<forall>i \<in> fst ` set (streams ss'). unat i < unat (next_id sc')"
    using assms(2,6) n(2) by (fastforce simp: acceptor_room_def grown_def)
  then show "acceptor_room n (next_id sc') ss'" using assms(2,5,6) by (simp add: acceptor_room_def session_view_def grown_def)
qed

text \<open>
  C13.  Requests do not influence each other.  When an opener and an acceptor have room for a sequence of requests (streams below
  both limits, ids that do not wrap), and the texts cross, then every request of the sequence is answered, in order, with exactly the
  verdict of the routing policy on its own target, and served accordingly, whatever became of those before it.
\<close>

theorem requests_decided_independently:
  assumes "opener_room (length rqs) sc" and "acceptor_room (length rqs) (next_id sc) ss"
    and "list_all (texts_cross E E' (peer_supported sc) (peer_supported ss) rt) rqs"
  shows "\<exists>answers. open_all E E' now ms rt rqs sc ss = Some answers \<and>
    map (\<lambda>(out, sv). (told out, sv)) answers = map (request_verdict rt) rqs"
  using assms
proof (induction rqs arbitrary: sc ss)
  case (Cons rq rqs)
  obtain t req bind dial where rq: "rq = (t, req, bind, dial)" by (metis prod_cases4)
  let ?ss = "ss\<lparr>writer_q := []\<rparr>"
  let ?d = "open_decision rt t bind dial" and ?algo = "negotiate (codecs E) req (peer_supported sc)"
  have rooms: "opener_room (Suc (length rqs)) sc" "acceptor_room (Suc (length rqs)) (next_id sc) ss" using Cons.prems by simp_all
  have d: "?d = server_decision ?ss rt t bind dial" using rooms(2) by (simp add: server_decision_def acceptor_room_def)
  have x: "reads_back E E' (open_json t ?algo)" "length (json_print E (open_json t ?algo)) \<le> MAX_OPEN"
    "reads_back E' E (answer_json (negotiate (codecs E') ?algo (peer_supported ss)) ?d)"
    "length (json_print E' (answer_json (negotiate (codecs E') ?algo (peer_supported ss)) ?d)) \<le> MAX_CONTROL"
    using Cons.prems(3) by (simp_all add: rq texts_cross_def Let_def)
  obtain sc' ss' where e: "open_exchange E E' t req now ms rt bind dial sc ?ss =
      Some (case ?d of Ok _ \<Rightarrow> Ok (length (heap sc)) | Err (code, reason) \<Rightarrow> Err (OpenRejected (code @ '' '' @ reason)), sc', ss', served_of ?d)"
    and v: "session_view sc' = session_view (sc\<lparr>next_id := next_id sc + 2\<rparr>)" "grown (next_id sc) sc sc'"
      "session_view ss' = session_view ?ss" "grown (next_id sc) ?ss ss'"
    using open_exchange_result [OF rooms_ready [OF rooms] refl _ d x(1,2), of "negotiate (codecs E') ?algo (peer_supported ss)" now ms] x(3,4)
    by auto
  have "peer_supported sc' = peer_supported sc" "peer_supported ss' = peer_supported ss" using v(1,3) by (simp_all add: session_view_def)
  then obtain answers where "open_all E E' now ms rt rqs sc' ss' = Some answers"
    "map (\<lambda>(out, sv). (told out, sv)) answers = map (request_verdict rt) rqs"
    using Cons.IH [OF rooms_step [OF rooms v]] Cons.prems(3) by auto
  then show ?case using e by (auto simp: rq request_verdict_def told_def Let_def split: sum.split prod.split)
qed simp

section \<open>What the applications are told\<close>

definition upstream_of :: "router \<Rightarrow> target \<Rightarrow> upstream option" where
  "upstream_of rt t =
     (case resolve rt t of
        Route _ u \<Rightarrow> Some u
      | Dial \<Rightarrow> Some \<lparr>up_host = t_host t, up_port = t_port t, up_unix = t_unix t\<rparr>
      | Deny _ \<Rightarrow> None)"

lemma str_contains_middle: "p \<noteq> [] \<Longrightarrow> str_contains p (xs @ p @ ys)"
proof (induction xs)
  case Nil
  then obtain x p' where "p = x # p'" by (cases p) auto
  moreover have "starts_with p (p @ ys)" by (auto simp: starts_with_iff)
  ultimately show ?case by simp
qed simp

lemma scan_routes_Deny: "scan_routes host port fb i rs = Some (Deny why) \<Longrightarrow> why = ''route has no upstream''"
  by (induction rs arbitrary: i) (auto split: if_splits option.splits)

lemma resolve_Deny:
  assumes "resolve rt t = Deny why"
  shows "why \<in> {''route has no upstream'', ''client-chosen unix sockets are not allowed'', ''client target not allowed'',
    ''no route matched and client targets are disabled''}"
  using assms scan_routes_Deny unfolding resolve_def Let_def by (auto split: option.splits if_splits)

lemma unreachable_code: "socks_error_code (open_error_text (OpenRejected (''unreachable '' @ x))) = 0x04"
proof -
  have "str_contains ''unreachable'' (''open rejected: '' @ ''unreachable'' @ '' '' @ x)" by (rule str_contains_middle) simp
  then show ?thesis by (simp add: socks_error_code_def open_error_text_def)
qed

lemma denied_code:
  assumes "resolve rt t = Deny why"
  shows "socks_error_code (open_error_text (OpenRejected (''denied '' @ why))) = 0x02"
  using resolve_Deny [OF assms] by (elim insertE emptyE) (simp_all add: socks_error_code_def open_error_text_def)

text \<open>The answer of a SOCKS5 front, as a function of the routing.\<close>

definition socks_verdict :: "router \<Rightarrow> target \<Rightarrow> (dial_addr \<Rightarrow> (string, unit) result) \<Rightarrow> u8 \<times> served" where
  "socks_verdict rt t dial =
     (case upstream_of rt t of
        None \<Rightarrow> (0x02, Unserved)
      | Some u \<Rightarrow> (case dial (dial_of u) of Err _ \<Rightarrow> (0x04, Unserved) | Ok _ \<Rightarrow> (0x00, ServedTo (dial_of u))))"

lemma decision_verdict:
  assumes "t_hint t \<noteq> HINT_UDP" and "d = open_decision rt t bind dial"
  shows "fst (serve_connect (with_text (case d of Ok _ \<Rightarrow> Ok r | Err (code, reason) \<Rightarrow> Err (OpenRejected (code @ '' '' @ reason))))) =
      socks_failure (fst (socks_verdict rt t dial)) \<and> served_of d = snd (socks_verdict rt t dial)"
proof -
  have dialled: "fst (serve_connect (with_text (case dial_decision dial u of Ok _ \<Rightarrow> Ok r
        | Err (code, reason) \<Rightarrow> Err (OpenRejected (code @ '' '' @ reason))))) =
      socks_failure (case dial (dial_of u) of Err _ \<Rightarrow> 0x04 | Ok _ \<Rightarrow> 0x00) \<and>
      served_of (dial_decision dial u) = (case dial (dial_of u) of Err _ \<Rightarrow> Unserved | Ok _ \<Rightarrow> ServedTo (dial_of u))" for u
    using unreachable_code by (cases "dial (dial_of u)") (simp_all add: dial_decision_def serve_connect_def with_text_def served_of_def)
  show ?thesis
  proof (cases "resolve rt t")
    case (Deny why)
    then show ?thesis using denied_code [OF Deny] assms
      by (simp add: open_decision_def serve_connect_def with_text_def served_of_def socks_verdict_def upstream_of_def)
  qed (use assms dialled in \<open>simp_all add: open_decision_def socks_verdict_def upstream_of_def split: sum.splits\<close>)
qed

text \<open>
  C14.  A SOCKS5 request from end to end.  For every well-formed request to connect, through a client session and a
  server session that have room for a stream, the application is told success exactly when the router found an
  upstream for the host and port and it could be dialled, and it is this upstream that serves the stream; it is told that the
  ruleset forbids the connection (code 2) exactly when the router denies the target, and that the host is unreachable (code 4)
  exactly when dialling failed.
\<close>

theorem socks_request_end_to_end:
  assumes "length methods < 256" and "0 \<in> set methods" and "is_request 0x01 host port rest q"
    and "client_ready sc" and "server_ready (next_id sc) ss" and "length (streams ss) < max_streams ss"
    and "t = stream_target host port" and "d = open_decision rt t bind dial"
    and "algo = negotiate (codecs E) dflt (peer_supported sc)" and "algo' = negotiate (codecs E') algo (peer_supported ss)"
    and "reads_back E E' (open_json t algo)" and "length (json_print E (open_json t algo)) \<le> MAX_OPEN"
    and "reads_back E' E (answer_json algo' d)" and "length (json_print E' (answer_json algo' d)) \<le> MAX_CONTROL"
  shows "socks_connect E E' dflt now ms rt bind dial sc ss ([0x05, word_of_nat (length methods)] @ methods @ q) =
    Some ([0x05, 0x00] @ socks_failure (fst (socks_verdict rt t dial)), snd (socks_verdict rt t dial))"
proof -
  have sk: "serve_socks ([0x05, word_of_nat (length methods)] @ methods @ q) = ([0x05, 0x00], SkConnect host port rest)"
    using serve_socks_greeting [OF assms(1,2), of q] serve_request_cmd [OF assms(3)] by simp
  have d: "d = server_decision ss rt t bind dial" using assms(6,8) by (simp add: server_decision_def)
  obtain sc' ss' where x: "open_exchange E E' t dflt now ms rt bind dial sc ss =
      Some (case d of Ok _ \<Rightarrow> Ok (length (heap sc)) | Err (code, reason) \<Rightarrow> Err (OpenRejected (code @ '' '' @ reason)), sc', ss', served_of d)"
    using open_exchange_result [OF assms(4,5,9,10) d assms(11-14)] by blast
  have "t_hint t \<noteq> HINT_UDP" by (simp add: assms(7) stream_target_def HINT_UDP_def)
  from decision_verdict [OF this assms(8), of "length (heap sc)"] show ?thesis
    unfolding socks_connect_def sk prod.case socks_end.case using x by (simp add: assms(7) stream_compression_def)
qed

section \<open>A target too long for its frame\<close>

text \<open>
  The opener does not check the length of the OPEN text it writes.  A target that does not fit the peer's cap for OPEN frames,
  which an HTTP request head of up to 64 KiB can name, is not refused as a stream: it ends the peer's whole session.
\<close>

lemma long_open_ends_session:
  assumes "client_ready sc" and "algo = negotiate (codecs E) req (peer_supported sc)"
    and "MAX_OPEN < length (json_print E (open_json t algo))" and "length (json_print E (open_json t algo)) < 2 ^ 32"
    and "open_begin E t req now sc = Ok (r, frame, sc1)"
  shows "\<exists>ss'. reader_step E' now' ms (frame @ later) ss = RdExit ss' \<and> closed ss'"
proof -
  let ?p = "json_print E (open_json t algo)"
  have f: "frame = encode_frame FT_OPEN 0 (next_id sc) ?p"
    using open_begin_ready [OF assms(1), of E t req now] assms(2,5) by auto
  have k: "known_type FT_OPEN" and c: "frame_cap FT_OPEN = MAX_OPEN" by (simp_all add: known_type_def frame_cap_def FT_defs)
  have len: "length (frame_header_bytes FT_OPEN 0 (next_id sc) (word_of_nat (length ?p))) = HEADER_SIZE"
    by (simp add: HEADER_SIZE_def)
  have u: "unat (word_of_nat (length ?p) :: u32) = length ?p" using assms(4) by (simp add: unat_of_nat take_bit_nat_def)
  have "cmpx_dec (frame @ later) = Bad (OversizedFrame FT_OPEN (word_of_nat (length ?p)))"
    unfolding cmpx_dec_def f encode_frame_def using len assms(3) u c frame_parse_header [OF k, of 0 "next_id sc" "word_of_nat (length ?p)"]
    by simp
  then show ?thesis by (auto simp: reader_step_def reader_exit_def teardown_def Let_def split: if_splits)
qed

section \<open>A concrete exchange\<close>

definition demo_target :: target where
  "demo_target = stream_target ''nas.example'' 80"

definition demo_label :: string where
  "demo_label = upstream_label \<lparr>up_host = Some ''127.0.0.1'', up_port = 5000, up_unix = None\<rparr>"

definition demo_opener :: mux_env where
  "demo_opener = \<lparr>json_print = (\<lambda>_. [1]),
     json_parse = (\<lambda>_. Some (answer_json ''none'' (Ok (ServedTo (DialTcp ''127.0.0.1'' 5000), demo_label)))),
     codecs = \<lparr>feature_zstd = False, zstd_dict = None\<rparr>\<rparr>"

definition demo_acceptor :: mux_env where
  "demo_acceptor = \<lparr>json_print = (\<lambda>_. [2]), json_parse = (\<lambda>_. Some (open_json demo_target ''none'')),
     codecs = \<lparr>feature_zstd = False, zstd_dict = None\<rparr>\<rparr>"

definition demo_sc :: shared where
  "demo_sc = (start_session demo_opener (demo_opts True) False 0)\<lparr>ready := True\<rparr>"

definition demo_ss :: shared where
  "demo_ss = (start_session demo_acceptor (demo_opts False) True 0)\<lparr>ready := True\<rparr>"

lemma demo_decision:
  "open_decision demo_router demo_target (Ok ()) (\<lambda>_. Ok ()) = Ok (ServedTo (DialTcp ''127.0.0.1'' 5000), demo_label)"
proof -
  have "resolve demo_router demo_target = Route 0 \<lparr>up_host = Some ''127.0.0.1'', up_port = 5000, up_unix = None\<rparr>" by code_simp
  then show ?thesis by (simp add: open_decision_def demo_target_def stream_target_def HINT_UDP_def dial_decision_def dial_of_def demo_label_def)
qed

lemma demo_sessions: "client_ready demo_sc" "server_ready (next_id demo_sc) demo_ss" "length (streams demo_ss) < max_streams demo_ss"
  by (simp_all add: client_ready_def server_ready_def demo_sc_def demo_ss_def start_session_def demo_opts_def try_send_def WRITER_QUEUE_def Let_def)

lemma negotiate_none: "negotiate env ''none'' have = ''none''"
proof -
  have "base_algo ''none'' = ''none''" by code_simp
  then show ?thesis by (simp add: negotiate_def ALGO_NONE_def Let_def)
qed

lemma demo_reads_back:
  "reads_back demo_opener demo_acceptor (open_json demo_target ''none'')"
  "reads_back demo_acceptor demo_opener (answer_json ''none'' (Ok (ServedTo (DialTcp ''127.0.0.1'' 5000), demo_label)))"
  by (simp_all add: reads_back_def demo_opener_def demo_acceptor_def)

lemma demo_lengths: "length (json_print demo_opener j) = 1" "length (json_print demo_acceptor j) = 1"
  by (simp_all add: demo_opener_def demo_acceptor_def)


theorem requests_decided_independently_witness:
  "\<exists>answers. open_all demo_opener demo_acceptor 0 0 demo_router (replicate 2 (demo_target, ''none'', Ok (), \<lambda>_. Ok ())) demo_sc demo_ss = Some answers \<and>
    map (\<lambda>(out, sv). (told out, sv)) answers = replicate 2 (Ok (), ServedTo (DialTcp ''127.0.0.1'' 5000))"
proof -
  let ?rq = "(demo_target, ''none'', Ok (), \<lambda>_. Ok ()) :: open_request"
  have sc: "opener_room (length (replicate 2 ?rq)) demo_sc"
    by (simp add: opener_room_def demo_sc_def start_session_def demo_opts_def try_send_def WRITER_QUEUE_def Let_def)
  have ss: "acceptor_room (length (replicate 2 ?rq)) (next_id demo_sc) demo_ss"
    by (simp add: acceptor_room_def demo_ss_def start_session_def demo_opts_def try_send_def WRITER_QUEUE_def Let_def)
  have x: "list_all (texts_cross demo_opener demo_acceptor (peer_supported demo_sc) (peer_supported demo_ss) demo_router) (replicate 2 ?rq)"
    using demo_reads_back by (simp add: numeral_2_eq_2 texts_cross_def negotiate_none demo_decision demo_lengths MAX_OPEN_def MAX_CONTROL_def)
  have "map (request_verdict demo_router) (replicate 2 ?rq) = replicate 2 (Ok (), ServedTo (DialTcp ''127.0.0.1'' 5000))"
    by (simp add: request_verdict_def demo_decision served_of_def)
  then show ?thesis using requests_decided_independently [OF sc ss x, where now = 0 and ms = 0] by simp
qed

theorem socks_request_end_to_end_witness:
  "\<exists>q. socks_connect demo_opener demo_acceptor ''none'' 0 0 demo_router (Ok ()) (\<lambda>_. Ok ()) demo_sc demo_ss ([0x05, 1, 0] @ q) =
    Some ([0x05, 0x00] @ socks_failure 0x00, ServedTo (DialTcp ''127.0.0.1'' 5000))"
proof -
  have "list_all (\<lambda>c. of_char c < (128 :: nat)) ''nas.example''" by code_simp
  then have "addr_bytes_to_host 0x03 (str_bytes ''nas.example'') = Some ''nas.example''"
    by (simp only: addr_bytes_to_host_def lossy_ascii) simp
  moreover have "addr_ok 0x03 (str_bytes ''nas.example'')" by (simp add: addr_ok_def str_bytes_def)
  ultimately obtain q where q: "is_request 0x01 ''nas.example'' 80 [] q" unfolding is_request_def by blast
  have "resolve demo_router demo_target = Route 0 \<lparr>up_host = Some ''127.0.0.1'', up_port = 5000, up_unix = None\<rparr>" by code_simp
  then have v: "socks_verdict demo_router demo_target (\<lambda>_. Ok ()) = (0x00, ServedTo (DialTcp ''127.0.0.1'' 5000))"
    by (simp add: socks_verdict_def upstream_of_def dial_of_def)
  from socks_request_end_to_end [where methods = "[0]", OF _ _ q demo_sessions demo_target_def demo_decision [symmetric]
      negotiate_none [symmetric] negotiate_none [symmetric] demo_reads_back(1) _ demo_reads_back(2), where now = 0 and ms = 0]
  show ?thesis unfolding v by (intro exI [of _ q]) (simp add: demo_lengths MAX_OPEN_def MAX_CONTROL_def)
qed

end
