(* ===== verification/Fronts.thy ===== *)
theory Fronts
  imports TlsConf StreamOpen MuxSession
begin

text \<open>
  What surrounds sessions and streams: the listeners of the local fronts (\<open>socks5.rs\<close>, \<open>httpproxy.rs\<close>), the handle an
  application has of a stream, and the end of a session as its holders see it (\<open>mux.rs\<close>).

  The sockets and the two halves of the pipe behind a handle belong to tokio; their operations are parameters.

  Lemmas: every accepted connection is served, whatever fails in between, and told what the policy decides; the
  shut-down branches of a handle are never taken; waiting for the end of a session returns when it is told so, and not if the
  flag has been raised again in the meantime.
\<close>

section \<open>Listeners\<close>

definition listen_on :: "(string \<Rightarrow> u16 \<Rightarrow> (string, 'l) result) \<Rightarrow> ('l \<Rightarrow> (string, string) result) \<Rightarrow> string \<Rightarrow> ('l \<times> string) outcome" where
  "listen_on bind local_addr listen =
     (case parse_listen listen of
        Panic \<Rightarrow> Panic
      | Fail e \<Rightarrow> Fail e
      | Ret (host, port) \<Rightarrow>
          (case bind host port of
             Err e \<Rightarrow> Fail e
           | Ok l \<Rightarrow> (case local_addr l of Err e \<Rightarrow> Fail e | Ok shown \<Rightarrow> Ret (l, shown))))"

definition socks5_listener :: "(string \<Rightarrow> u16 \<Rightarrow> (string, 'l) result) \<Rightarrow> ('l \<Rightarrow> (string, string) result) \<Rightarrow> string \<Rightarrow> ('l \<times> string) outcome" where
  "socks5_listener bind local_addr listen =
     (case listen_on bind local_addr listen of
        Ret (l, shown) \<Rightarrow> Ret (l, ''krymux-client: socks5 frontend on '' @ shown)
      | Fail e \<Rightarrow> Fail e
      | Panic \<Rightarrow> Panic)"

definition serve_socks5 :: "('c \<Rightarrow> 'e) \<Rightarrow> 'c accept_event list \<Rightarrow> 'e list" where
  "serve_socks5 serve es = serve_loop serve es"

definition run_socks5 ::
    "(string \<Rightarrow> u16 \<Rightarrow> (string, 'l) result) \<Rightarrow> ('l \<Rightarrow> (string, string) result) \<Rightarrow> ('c \<Rightarrow> 'e) \<Rightarrow> string \<Rightarrow> ('l \<Rightarrow> 'c accept_event list) \<Rightarrow> 'e list outcome" where
  "run_socks5 bind local_addr serve listen conns =
     (case socks5_listener bind local_addr listen of
        Ret (l, _) \<Rightarrow> Ret (serve_socks5 serve (conns l))
      | Fail e \<Rightarrow> Fail e
      | Panic \<Rightarrow> Panic)"

definition run_http_proxy ::
    "(string \<Rightarrow> u16 \<Rightarrow> (string, 'l) result) \<Rightarrow> ('l \<Rightarrow> (string, string) result) \<Rightarrow> ('c \<Rightarrow> 'e) \<Rightarrow> string \<Rightarrow> ('l \<Rightarrow> 'c accept_event list) \<Rightarrow> 'e list outcome" where
  "run_http_proxy bind local_addr serve listen conns =
     (case listen_on bind local_addr listen of
        Ret (l, _) \<Rightarrow> Ret (serve_loop serve (conns l))
      | Fail e \<Rightarrow> Fail e
      | Panic \<Rightarrow> Panic)"

section \<open>The handle of a stream\<close>

text \<open>The operations of a half of a pipe: what they give and what becomes of the half.\<close>

datatype 'a poll = Pending | Ready 'a

record 'h half_ops =
  ho_read :: "nat \<Rightarrow> 'h \<Rightarrow> (string, bytes) result poll \<times> 'h"
  ho_write :: "bytes \<Rightarrow> 'h \<Rightarrow> (string, nat) result poll \<times> 'h"
  ho_flush :: "'h \<Rightarrow> (string, unit) result poll \<times> 'h"
  ho_shutdown :: "'h \<Rightarrow> (string, unit) result poll \<times> 'h"

record 'h tunnel_stream =
  ts_rd :: 'h
  ts_wr :: "'h option"
  ts_inner :: nat \<comment> \<open>in the heap of the session\<close>
  ts_target :: target

definition poll_read :: "'h half_ops \<Rightarrow> nat \<Rightarrow> 'h tunnel_stream \<Rightarrow> (string, bytes) result poll \<times> 'h tunnel_stream" where
  "poll_read H n ts = (case ho_read H n (ts_rd ts) of (r, h) \<Rightarrow> (r, ts\<lparr>ts_rd := h\<rparr>))"

definition poll_write :: "'h half_ops \<Rightarrow> bytes \<Rightarrow> 'h tunnel_stream \<Rightarrow> (string, nat) result poll \<times> 'h tunnel_stream" where
  "poll_write H buf ts =
     (case ts_wr ts of
        Some w \<Rightarrow> (case ho_write H buf w of (r, h) \<Rightarrow> (r, ts\<lparr>ts_wr := Some h\<rparr>))
      | None \<Rightarrow> (Ready (Err ''stream write side shut down''), ts))"

definition poll_flush :: "'h half_ops \<Rightarrow> 'h tunnel_stream \<Rightarrow> (string, unit) result poll \<times> 'h tunnel_stream" where
  "poll_flush H ts =
     (case ts_wr ts of
        Some w \<Rightarrow> (case ho_flush H w of (r, h) \<Rightarrow> (r, ts\<lparr>ts_wr := Some h\<rparr>))
      | None \<Rightarrow> (Ready (Ok ()), ts))"

definition poll_shutdown :: "'h half_ops \<Rightarrow> 'h tunnel_stream \<Rightarrow> (string, unit) result poll \<times> 'h tunnel_stream" where
  "poll_shutdown H ts =
     (case ts_wr ts of
        Some w \<Rightarrow> (case ho_shutdown H w of (r, h) \<Rightarrow> (r, ts\<lparr>ts_wr := Some h\<rparr>))
      | None \<Rightarrow> (Ready (Ok ()), ts))"

definition stream_handle :: "'h \<Rightarrow> 'h \<Rightarrow> nat \<Rightarrow> target \<Rightarrow> 'h tunnel_stream" where
  "stream_handle rd wr r t = \<lparr>ts_rd = rd, ts_wr = Some wr, ts_inner = r, ts_target = t\<rparr>"

definition ts_compression :: "shared \<Rightarrow> 'h tunnel_stream \<Rightarrow> string" where
  "ts_compression s ts = compression (heap s ! ts_inner ts)"

section \<open>The end of a session\<close>

datatype mux_task = WriterTask | ReaderTask | CreditTicker | KeepaliveTask

definition session_tasks :: "u64 \<Rightarrow> mux_task list" where
  "session_tasks keepalive = [WriterTask, ReaderTask, CreditTicker] @ (if keepalive > 0 then [KeepaliveTask] else [])"

text \<open>
  \<open>wait_closed\<close>: the value of the flag \<open>ready\<close> when it is called, then what each wake-up finds: the value at this moment, or that
  the sender is gone.
\<close>

fun wait_closed :: "bool \<Rightarrow> bool option list \<Rightarrow> bool" where
  "wait_closed is_ready evs =
     (if \<not> is_ready then True
      else case evs of
        [] \<Rightarrow> False
      | None # _ \<Rightarrow> True
      | Some now # evs' \<Rightarrow> wait_closed now evs')"

declare wait_closed.simps [simp del]

section \<open>What the listeners do\<close>

lemma listen_on_Ret:
  "listen_on bind local_addr listen = Ret (l, shown) \<longleftrightarrow>
     (\<exists>host port. parse_listen listen = Ret (host, port) \<and> bind host port = Ok l \<and> local_addr l = Ok shown)"
  by (auto simp: listen_on_def split: outcome.splits sum.splits)

text \<open>Both fronts, once they listen, serve every connection they accept, in whatever way accepting fails in between.\<close>

lemma fronts_serve_all:
  assumes "parse_listen listen = Ret (host, port)" and "bind host port = Ok l" and "local_addr l = Ok shown"
  shows "run_socks5 bind local_addr serve listen conns = Ret (map serve (accepted_conns (conns l))) \<and>
    run_http_proxy bind local_addr serve listen conns = Ret (map serve (accepted_conns (conns l)))"
proof -
  have "listen_on bind local_addr listen = Ret (l, shown)" using assms by (simp add: listen_on_Ret)
  then show ?thesis by (simp add: run_socks5_def socks5_listener_def serve_socks5_def run_http_proxy_def serve_loop_tasks)
qed

section \<open>Handles are never without a write half\<close>

lemma handle_keeps_halves:
  "ts_wr (stream_handle rd wr r t) \<noteq> None"
  "ts_wr (snd (poll_read H n ts)) = ts_wr ts"
  "ts_wr ts \<noteq> None \<Longrightarrow> ts_wr (snd (poll_write H buf ts)) \<noteq> None"
  "ts_wr ts \<noteq> None \<Longrightarrow> ts_wr (snd (poll_flush H ts)) \<noteq> None"
  "ts_wr ts \<noteq> None \<Longrightarrow> ts_wr (snd (poll_shutdown H ts)) \<noteq> None"
  by (auto simp: stream_handle_def poll_read_def poll_write_def poll_flush_def poll_shutdown_def split: prod.split)

text \<open>So a write after a shut-down gets the answer of the pipe, not the error the handle has for it.\<close>

lemma write_after_shutdown:
  assumes "ts_wr ts = Some w"
  shows "fst (poll_write H buf (snd (poll_shutdown H ts))) = fst (ho_write H buf (snd (ho_shutdown H w)))"
  using assms by (simp add: poll_write_def poll_shutdown_def split: prod.split)

section \<open>Waiting for the end\<close>

lemma wait_closed_iff: "wait_closed is_ready evs \<longleftrightarrow> \<not> is_ready \<or> None \<in> set evs \<or> Some False \<in> set evs"
proof (induction evs arbitrary: is_ready)
  case Nil
  then show ?case by (simp add: wait_closed.simps)
next
  case (Cons e evs)
  then show ?case by (cases e) (auto simp: wait_closed.simps [of is_ready "_ # _"])
qed

text \<open>A holder that is woken after the tear-down finds the flag lowered, unless the peer's second HELLO raised it again before.\<close>

lemma holder_sees_teardown: "wait_closed True [Some (ready (teardown s))]"
  by (simp add: wait_closed_iff teardown_def Let_def)

lemma holder_misses_teardown:
  assumes "json_parse E p = Some hello" and "as_u64 (json_index hello ''v'') = Some 1" and "frame_type fh = FT_HELLO"
  shows "\<exists>s'. handle_frame E now t fh p (teardown s) = Ok (s', []) \<and> closed s' \<and> \<not> wait_closed True [Some (ready s')]"
  using hello_after_close [OF assms] by (auto simp: wait_closed_iff)

end
