(* ===== verification/SyncProtocol.thy ===== *)
theory SyncProtocol
  imports Codec RustStr
begin

text \<open>
  The framing of the synchroniser: \<open>apps/krymux-sync/src/sync/protocol.rs\<close>.  A frame is a length, a
  type and a payload; JSON text and JSON values are converted by the parameter \<open>sync_json\<close>.

  \<open>push\<close> keeps its buffer between calls and parses with a cursor, as the source does.  \<open>sync_one\<close> is
  the body of its loop seen as a decoder, an instance of \<open>stream_codec\<close>.

  Lemmas: a parser fed the chunks of any message sequence returns these messages, call by call;
  what it holds between the calls is bounded; a declared length above the cap is an error at once.
\<close>

section \<open>Messages\<close>

definition MSG_JSON :: u8 where "MSG_JSON = 0x01"
definition MSG_BIN :: u8 where "MSG_BIN = 0x02"
definition SYNC_HEADER :: nat where "SYNC_HEADER = 5"
definition MAX_MSG :: nat where "MAX_MSG = 8388608"

datatype sync_message = Json json | Bin bytes

record sync_json =
  sj_parse :: "bytes \<Rightarrow> (string, json) result"
  sj_print :: "json \<Rightarrow> bytes"

definition encode_sync_frame :: "u8 \<Rightarrow> bytes \<Rightarrow> bytes" where
  "encode_sync_frame frame_type payload = u32_to_be (word_of_nat (length payload)) @ [frame_type] @ payload"

definition encode_json :: "sync_json \<Rightarrow> json \<Rightarrow> bytes" where
  "encode_json J v = encode_sync_frame MSG_JSON (sj_print J v)"

definition encode_bin :: "bytes \<Rightarrow> bytes" where
  "encode_bin chunk = encode_sync_frame MSG_BIN chunk"

section \<open>The parser\<close>

datatype sync_error = TooLarge nat | BadJson string | UnknownType u8

text \<open>One round of the loop on the bytes from the cursor on.\<close>

definition sync_one :: "sync_json \<Rightarrow> bytes \<Rightarrow> (sync_message, sync_error) dec_step" where
  "sync_one J bs =
     (if length bs < SYNC_HEADER then Need
      else
        let len = be_dec (take 4 bs) in
        if len > MAX_MSG then Bad (TooLarge len)
        else
          let frame_type = bs ! 4; total = SYNC_HEADER + len in
          if length bs < total then Need
          else
            let payload = take len (drop SYNC_HEADER bs) in
            if frame_type = MSG_JSON then
              (case sj_parse J payload of Inl e \<Rightarrow> Bad (BadJson e) | Inr v \<Rightarrow> Got (Json v) total)
            else if frame_type = MSG_BIN then Got (Bin payload) total
            else Bad (UnknownType frame_type))"

lemma sync_one_Got: "sync_one J bs = Got m n \<Longrightarrow> SYNC_HEADER \<le> n \<and> n \<le> length bs"
  by (auto simp: sync_one_def Let_def split: if_splits sum.splits)

function push_loop :: "sync_json \<Rightarrow> bytes \<Rightarrow> nat \<Rightarrow> (sync_error, sync_message list \<times> nat) result" where
  "push_loop J buf cursor =
     (case sync_one J (drop cursor buf) of
        Need \<Rightarrow> Ok ([], cursor)
      | Bad e \<Rightarrow> Err e
      | Got m n \<Rightarrow> (case push_loop J buf (cursor + n) of Inl e \<Rightarrow> Err e | Inr (ms, c) \<Rightarrow> Ok (m # ms, c)))"
  by pat_completeness auto
termination
  by (relation "measure (\<lambda>(J, buf, cursor). length buf - cursor)") (auto dest!: sync_one_Got simp: SYNC_HEADER_def)

declare push_loop.simps [simp del]

text \<open>\<open>SyncParser::push\<close>: the buffer, the chunk; the messages and the buffer afterwards.  After an error
  the caller gives the parser up.\<close>

definition push :: "sync_json \<Rightarrow> bytes \<Rightarrow> bytes \<Rightarrow> (sync_error, sync_message list \<times> bytes) result" where
  "push J buf chunk =
     (let buf = buf @ chunk in
      case push_loop J buf 0 of
        Inl e \<Rightarrow> Err e
      | Inr (ms, cursor) \<Rightarrow> Ok (ms, if cursor > 0 then drop cursor buf else buf))"

text \<open>A session feeds the parser read by read.\<close>

fun push_all :: "sync_json \<Rightarrow> bytes \<Rightarrow> bytes list \<Rightarrow> (sync_error, sync_message list \<times> bytes) result" where
  "push_all J buf [] = Ok ([], buf)"
| "push_all J buf (c # cs) =
     (case push J buf c of
        Inl e \<Rightarrow> Err e
      | Inr (ms, buf') \<Rightarrow> (case push_all J buf' cs of Inl e \<Rightarrow> Err e | Inr (ms', b) \<Rightarrow> Ok (ms @ ms', b)))"

section \<open>The parser is a decoder\<close>

interpretation sync: stream_decoder "sync_one J" for J
proof
  fix bs m n
  assume "sync_one J bs = Got m n"
  then show "0 < n \<and> n \<le> length bs" using sync_one_Got [of J bs m n] by (simp add: SYNC_HEADER_def)
next
  fix bs m n xs
  assume "sync_one J bs = Got m n"
  then show "sync_one J (bs @ xs) = Got m n"
    by (auto simp: sync_one_def Let_def SYNC_HEADER_def nth_append split: if_splits sum.splits)
next
  fix bs e xs
  assume "sync_one J bs = Bad e"
  then show "sync_one J (bs @ xs) = Bad e"
    by (auto simp: sync_one_def Let_def SYNC_HEADER_def nth_append split: if_splits sum.splits)
qed

definition encode_message :: "sync_json \<Rightarrow> sync_message \<Rightarrow> bytes" where
  "encode_message J m = (case m of Json v \<Rightarrow> encode_json J v | Bin b \<Rightarrow> encode_bin b)"

definition sync_sendable :: "sync_json \<Rightarrow> sync_message \<Rightarrow> bool" where
  "sync_sendable J m \<longleftrightarrow>
     (case m of
        Json v \<Rightarrow> length (sj_print J v) \<le> MAX_MSG \<and> sj_parse J (sj_print J v) = Ok v
      | Bin b \<Rightarrow> length b \<le> MAX_MSG)"

lemma sync_one_frame:
  assumes "length p \<le> MAX_MSG"
  shows "sync_one J (encode_sync_frame t p @ xs) =
    (if t = MSG_JSON then (case sj_parse J p of Inl e \<Rightarrow> Bad (BadJson e) | Inr v \<Rightarrow> Got (Json v) (length (encode_sync_frame t p)))
     else if t = MSG_BIN then Got (Bin p) (length (encode_sync_frame t p)) else Bad (UnknownType t))"
proof -
  have n: "length p < 4294967296" using assms by (simp add: MAX_MSG_def)
  have at: "(encode_sync_frame t p @ xs) ! 4 = t" by (simp add: encode_sync_frame_def nth_append)
  have d: "drop SYNC_HEADER (encode_sync_frame t p @ xs) = p @ xs" "take 4 (encode_sync_frame t p @ xs) = u32_to_be (word_of_nat (length p))"
    by (simp_all add: encode_sync_frame_def SYNC_HEADER_def)
  have len: "length (encode_sync_frame t p @ xs) = SYNC_HEADER + length p + length xs"
      "length (encode_sync_frame t p) = SYNC_HEADER + length p"
    by (simp_all add: encode_sync_frame_def SYNC_HEADER_def)
  show ?thesis unfolding sync_one_def d at len u32_len_from_to [OF n] Let_def using assms by (simp split: sum.split)
qed

interpretation sync: stream_codec "sync_one J" "encode_message J" "sync_sendable J" for J
proof
  show "sync_one J [] = Need" by (simp add: sync_one_def SYNC_HEADER_def)
qed (auto simp: sync_sendable_def encode_message_def encode_json_def encode_bin_def sync_one_frame MSG_JSON_def MSG_BIN_def
    split: sync_message.splits)

lemma push_loop_drain:
  "cursor \<le> length buf \<Longrightarrow>
   push_loop J buf cursor =
     (case drain (sync_one J) (drop cursor buf) of
        (ms, r, None) \<Rightarrow> Ok (ms, length buf - length r)
      | (ms, r, Some e) \<Rightarrow> Err e)"
proof (induction J buf cursor rule: push_loop.induct)
  case (1 J buf cursor)
  show ?case
  proof (cases "sync_one J (drop cursor buf)")
    case Need
    then show ?thesis using "1.prems" by (simp add: push_loop.simps [of J buf cursor] drain_Need)
  next
    case (Bad e)
    then show ?thesis by (simp add: push_loop.simps [of J buf cursor] drain_Bad)
  next
    case (Got m n)
    have n: "n \<le> length buf - cursor" using sync_one_Got [OF Got] by simp
    then have "push_loop J buf (cursor + n) =
        (case drain (sync_one J) (drop (cursor + n) buf) of
           (ms, r, None) \<Rightarrow> Ok (ms, length buf - length r) | (ms, r, Some e) \<Rightarrow> Err e)"
      using "1.IH" [OF Got] "1.prems" by simp
    then show ?thesis
      using Got sync.drain_Got [OF Got]
      by (simp add: push_loop.simps [of J buf cursor] add.commute split: prod.splits option.splits)
  qed
qed

lemma push_drain:
  "push J buf chunk =
     (case drain (sync_one J) (buf @ chunk) of (ms, r, None) \<Rightarrow> Ok (ms, r) | (ms, r, Some e) \<Rightarrow> Err e)"
proof -
  obtain ms r e where d: "drain (sync_one J) (buf @ chunk) = (ms, r, e)" by (metis prod_cases3)
  have "drop (length (buf @ chunk) - length r) (buf @ chunk) = r" using sync.drain_rest [OF d] .
  moreover have "(if c > 0 then drop c b else b) = drop c b" for c and b :: bytes by simp
  ultimately show ?thesis
    unfolding push_def Let_def using d by (simp add: push_loop_drain del: length_append drop_append split: option.split)
qed

lemma push_all_drain:
  "sync_one J buf = Need \<Longrightarrow>
   push_all J buf cs =
     (case drain_reads (sync_one J) buf cs of (ms, r, None) \<Rightarrow> Ok (ms, r) | (ms, r, Some e) \<Rightarrow> Err e)"
proof (induction cs arbitrary: buf)
  case Nil
  then show ?case by simp
next
  case (Cons c cs)
  obtain ms r e where d: "drain (sync_one J) (buf @ c) = (ms, r, e)" by (metis prod_cases3)
  show ?case
  proof (cases e)
    case None
    then have "sync_one J r = Need" using sync.drain_leftover d by blast
    with Cons.IH d None show ?thesis by (auto simp: push_drain split: prod.splits option.splits)
  next
    case (Some x)
    with d show ?thesis by (simp add: push_drain)
  qed
qed

text \<open>
  The parser of the synchroniser.  Whatever messages were written (JSON values whose text parses
  back, binary chunks, each up to 8 MiB) and however the stream cuts the bytes into reads, feeding
  the reads to the parser one after the other returns exactly these messages in order, with
  nothing held back; and whatever bytes are fed, what the parser holds after a successful call is less
  than one frame of the largest size.
\<close>

theorem sync_messages_survive_transport:
  assumes "list_all (sync_sendable J) ms" and "concat reads = concat (map (encode_message J) ms)"
    and "push J buf chunk = Ok (out, held)"
  shows "push_all J [] reads = Ok (ms, []) \<and> length held < SYNC_HEADER + MAX_MSG"
proof
  show "push_all J [] reads = Ok (ms, [])"
    using sync.reads_roundtrip [OF assms(1,2)] by (simp add: push_all_drain [OF sync.dec_nil])
  have "sync_one J held = Need"
    using assms(3) sync.drain_leftover [of J "buf @ chunk"] by (auto simp: push_drain split: prod.splits option.splits)
  then show "length held < SYNC_HEADER + MAX_MSG"
    by (auto simp: sync_one_def Let_def split: if_splits sum.splits)
qed

definition demo_sync_json :: sync_json where
  "demo_sync_json = \<lparr>sj_parse = (\<lambda>_. Ok JNull), sj_print = (\<lambda>_. [0x6e])\<rparr>"

theorem sync_messages_survive_transport_witness:
  "push_all demo_sync_json [] [[0, 0, 0], [1, 1, 0x6e, 0, 0, 0, 2, 2, 7], [8]] = Ok ([Json JNull, Bin [7, 8]], [])"
proof -
  have "push demo_sync_json [] [] = Ok ([], [])"
    by (simp add: push_drain drain_Need sync.dec_nil)
  then have "push_all demo_sync_json [] [[0, 0, 0], [1, 1, 0x6e, 0, 0, 0, 2, 2, 7], [8]] = Ok ([Json JNull, Bin [7, 8]], []) \<and>
      length ([] :: bytes) < SYNC_HEADER + MAX_MSG"
    by (intro sync_messages_survive_transport) (simp_all add: sync_sendable_def demo_sync_json_def MAX_MSG_def encode_message_def encode_json_def encode_bin_def
        encode_sync_frame_def MSG_JSON_def MSG_BIN_def u32_to_be_def be_simps)
  then show ?thesis by blast
qed

end
