(* ===== verification/SyncStore.thy ===== *)
theory SyncStore
  imports Prelude "HOL-Library.List_Lexorder" "HOL-Library.Char_ord"
begin

text \<open>
  The tombstone store of the synchroniser: \<open>apps/krymux-sync/src/sync/tombstones.rs\<close>.

  A \<open>BTreeMap\<close> with text keys is the list of its entries in ascending order; its interface is the
  locale \<open>text_map\<close>, in which the merge of entries into a map is treated once.  Times are
  milliseconds as natural numbers (the only arithmetic on them is a saturating subtraction, which is
  that of the natural numbers).  The store file is absent, unreadable as a store, or holds a map;
  a save either replaces it or fails and leaves it.

  Lemmas: what a lookup sees after the queued deletions were flushed; that the time of a deletion is
  the time of its first event; that entries age out and others stay.
\<close>

section \<open>Ordered maps\<close>

type_synonym 'v btree = "(string \<times> 'v) list"

fun btree_insert :: "string \<Rightarrow> 'v \<Rightarrow> 'v btree \<Rightarrow> 'v btree" where
  "btree_insert k v [] = [(k, v)]"
| "btree_insert k v ((k', v') # m) =
     (if k < k' then (k, v) # (k', v') # m else if k = k' then (k, v) # m else (k', v') # btree_insert k v m)"

definition btree_retain :: "('v \<Rightarrow> bool) \<Rightarrow> 'v btree \<Rightarrow> 'v btree" where
  "btree_retain keep m = filter (\<lambda>(_, v). keep v) m"

definition btree_ok :: "'v btree \<Rightarrow> bool" where
  "btree_ok m \<longleftrightarrow> sorted_wrt (<) (map fst m)"

text \<open>What the store relies on: lookups after an insertion and after a selection by value.\<close>

locale text_map =
  fixes look :: "'m \<Rightarrow> string \<Rightarrow> 'v option"
    and ins :: "string \<Rightarrow> 'v \<Rightarrow> 'm \<Rightarrow> 'm"
    and retain :: "('v \<Rightarrow> bool) \<Rightarrow> 'm \<Rightarrow> 'm"
    and ok :: "'m \<Rightarrow> bool"
  assumes look_ins: "look (ins k v m) = (look m)(k \<mapsto> v)"
    and look_retain: "ok m \<Longrightarrow> look (retain P m) k = (case look m k of None \<Rightarrow> None | Some v \<Rightarrow> if P v then Some v else None)"
    and ok_ins: "ok m \<Longrightarrow> ok (ins k v m)"
    and ok_retain: "ok m \<Longrightarrow> ok (retain P m)"
begin

definition merge_into :: "(string \<times> 'v) list \<Rightarrow> 'm \<Rightarrow> 'm" where
  "merge_into es m = fold (\<lambda>(k, v). ins k v) es m"

lemma ok_merge: "ok m \<Longrightarrow> ok (merge_into es m)"
  by (induction es arbitrary: m) (auto simp: merge_into_def ok_ins)

lemma look_merge: "distinct (map fst es) \<Longrightarrow> look (merge_into es m) k = (case map_of es k of Some v \<Rightarrow> Some v | None \<Rightarrow> look m k)"
proof (induction es arbitrary: m)
  case (Cons e es)
  obtain k' v where e: "e = (k', v)" by fastforce
  have none: "map_of es k' = None" using Cons.prems e by (simp add: map_of_eq_None_iff)
  have "look (merge_into (e # es) m) k = look (merge_into es (ins k' v m)) k" by (simp add: merge_into_def e)
  also have "\<dots> = (case map_of es k of Some v \<Rightarrow> Some v | None \<Rightarrow> look (ins k' v m) k)"
    using Cons by (simp add: e)
  finally show ?case using none by (auto simp: e look_ins split: option.splits)
qed (simp add: merge_into_def)

lemma look_merge_retain:
  "ok m \<Longrightarrow> distinct (map fst es) \<Longrightarrow>
   look (retain P (merge_into es m)) k =
     (case map_of es k of
        Some v \<Rightarrow> if P v then Some v else None
      | None \<Rightarrow> (case look m k of Some v \<Rightarrow> if P v then Some v else None | None \<Rightarrow> None))"
  by (auto simp: look_retain ok_merge look_merge split: option.splits)

end

lemma btree_distinct: "btree_ok m \<Longrightarrow> distinct (map fst m)"
  by (simp add: btree_ok_def strict_sorted_iff)

lemma fst_btree_insert: "set (map fst (btree_insert k v m)) = insert k (set (map fst m))"
  by (induction m rule: btree_insert.induct) auto

interpretation btree: text_map map_of btree_insert btree_retain btree_ok
proof
  fix k :: string and v :: 'a and m
  show "map_of (btree_insert k v m) = (map_of m)(k \<mapsto> v)"
    by (induction k v m rule: btree_insert.induct) auto
next
  fix m :: "'a btree" and P k
  assume "btree_ok m"
  then have "distinct (map fst m)" by (rule btree_distinct)
  then show "map_of (btree_retain P m) k = (case map_of m k of None \<Rightarrow> None | Some v \<Rightarrow> if P v then Some v else None)"
  proof (induction m)
    case (Cons e m)
    obtain k' v where e: "e = (k', v)" by fastforce
    have "map_of m k' = None" using Cons.prems e by (simp add: map_of_eq_None_iff)
    then show ?case using Cons by (auto simp: e btree_retain_def split: option.splits)
  qed (simp add: btree_retain_def)
next
  fix m :: "'a btree" and k v
  assume "btree_ok m"
  then show "btree_ok (btree_insert k v m)"
  proof (induction k v m rule: btree_insert.induct)
    case (2 k v k' v' m)
    have sub: "x \<in> insert k (fst ` set m)" if "x \<in> fst ` set (btree_insert k v m)" for x
      using that fst_btree_insert [of k v m] by simp
    show ?case using 2 sub by (fastforce simp: btree_ok_def)
  qed (simp add: btree_ok_def)
next
  fix m :: "'a btree" and P
  assume "btree_ok m"
  then show "btree_ok (btree_retain P m)"
    by (auto simp: btree_ok_def btree_retain_def sorted_wrt_map sorted_wrt_filter)
qed

section \<open>The store\<close>

definition STORE_FILE :: string where "STORE_FILE = ''.sync-tombstones.json''"
definition MAX_AGE :: nat where "MAX_AGE = 30 * 24 * 60 * 60 * 1000"

datatype store_file = NoStore | CorruptStore | Store "nat btree"

definition load :: "store_file \<Rightarrow> nat btree" where
  "load d = (case d of Store m \<Rightarrow> m | _ \<Rightarrow> [])"

definition save :: "bool \<Rightarrow> nat btree \<Rightarrow> store_file \<Rightarrow> store_file" where
  "save saved m d = (if saved then Store m else d)"

definition prune :: "nat \<Rightarrow> nat btree \<Rightarrow> nat btree" where
  "prune now m = (let cutoff = now - MAX_AGE in btree_retain (\<lambda>ms. ms > cutoff) m)"

text \<open>\<open>record_with\<close>, \<open>record\<close>, \<open>queue\<close> and \<open>flush\<close>; \<open>saved\<close> is the outcome of the save.\<close>

definition record_with :: "nat \<Rightarrow> bool \<Rightarrow> nat btree \<Rightarrow> store_file \<Rightarrow> store_file" where
  "record_with now saved entries d =
     save saved (prune now (fold (\<lambda>(p, ts). btree_insert p ts) entries (load d))) d"

definition record_tombstone :: "nat \<Rightarrow> bool \<Rightarrow> string \<Rightarrow> store_file \<Rightarrow> store_file" where
  "record_tombstone now saved path d = record_with now saved [(path, now)] d"

definition queue :: "nat \<Rightarrow> string \<Rightarrow> nat btree \<Rightarrow> nat btree" where
  "queue now path q = (if map_of q path = None then btree_insert path now q else q)"

definition flush :: "nat \<Rightarrow> bool \<Rightarrow> nat btree \<times> store_file \<Rightarrow> nat btree \<times> store_file" where
  "flush now saved s = (case s of (q, d) \<Rightarrow> if q = [] then (q, d) else ([], record_with now saved q d))"

section \<open>Deletions are remembered\<close>

definition store_ok :: "store_file \<Rightarrow> bool" where
  "store_ok d \<longleftrightarrow> btree_ok (load d)"

lemma load_saved: "load (save True m d) = m"
  by (simp add: load_def save_def)

lemma record_with_ok: "store_ok d \<Longrightarrow> store_ok (record_with now saved es d)"
  using btree.ok_merge [of "load d" es]
  by (auto simp: store_ok_def record_with_def load_def save_def prune_def btree.ok_retain btree.merge_into_def Let_def)

lemma load_record_with:
  assumes "store_ok d" and "distinct (map fst es)"
  shows "map_of (load (record_with now True es d)) p =
    (case map_of es p of
       Some ts \<Rightarrow> if ts > now - MAX_AGE then Some ts else None
     | None \<Rightarrow> (case map_of (load d) p of Some ts \<Rightarrow> if ts > now - MAX_AGE then Some ts else None | None \<Rightarrow> None))"
  using btree.look_merge_retain [of "load d" es "\<lambda>ts. ts > now - MAX_AGE" p] assms
  by (simp add: record_with_def load_saved prune_def btree.merge_into_def store_ok_def Let_def)

text \<open>The events of a watcher: deletions with their times.\<close>

definition queue_all :: "(nat \<times> string) list \<Rightarrow> nat btree \<Rightarrow> nat btree" where
  "queue_all evs q = fold (\<lambda>(now, p). queue now p) evs q"

lemma queue_ok: "btree_ok q \<Longrightarrow> btree_ok (queue now p q)"
  by (simp add: queue_def btree.ok_ins)

lemma queue_all_ok: "btree_ok q \<Longrightarrow> btree_ok (queue_all evs q)"
  by (induction evs arbitrary: q) (auto simp: queue_all_def queue_ok)

lemma map_of_queue_all:
  "map_of (queue_all evs q) p =
     (case map_of q p of Some ts \<Rightarrow> Some ts | None \<Rightarrow> map_of (map (\<lambda>(now, p). (p, now)) evs) p)"
proof (induction evs arbitrary: q)
  case (Cons e evs)
  obtain now p' where e: "e = (now, p')" by fastforce
  have "map_of (queue_all (e # evs) q) p = map_of (queue_all evs (queue now p' q)) p" by (simp add: queue_all_def e)
  then show ?case by (auto simp: Cons e queue_def btree.look_ins split: option.splits)
qed (simp add: queue_all_def split: option.splits)

text \<open>
  C28.  Deletions are remembered.  After any sequence of deletion events and a flush whose save
  succeeds, the store holds every deleted path with the time of its first event since the last
  flush, and every other entry as it was, except entries older than thirty days, which are gone;
  the queue is empty and the store is well formed.
\<close>

theorem deletions_remembered:
  assumes "store_ok d"
  shows "case flush now True (queue_all evs [], d) of
    (q, d') \<Rightarrow> q = [] \<and> store_ok d' \<and>
      (evs \<noteq> [] \<longrightarrow>
         map_of (load d') p =
           (case map_of (map (\<lambda>(now, p). (p, now)) evs) p of
              Some ts \<Rightarrow> if ts > now - MAX_AGE then Some ts else None
            | None \<Rightarrow> (case map_of (load d) p of
                          Some ts \<Rightarrow> if ts > now - MAX_AGE then Some ts else None
                        | None \<Rightarrow> None)))"
proof (cases "queue_all evs [] = []")
  case True
  then have "evs = []"
  proof (cases evs)
    case (Cons e es)
    obtain t x where e: "e = (t, x)" by fastforce
    have "map_of (queue_all evs []) x = Some t" by (simp add: map_of_queue_all Cons e)
    with True show ?thesis by simp
  qed simp
  with assms show ?thesis by (simp add: flush_def queue_all_def)
next
  case False
  have "distinct (map fst (queue_all evs []))" by (rule btree_distinct, rule queue_all_ok) (simp add: btree_ok_def)
  note load_record_with [OF assms this, of now p]
  moreover have "map_of (queue_all evs []) p = map_of (map (\<lambda>(now, p). (p, now)) evs) p" by (simp add: map_of_queue_all)
  ultimately show ?thesis
    using False assms by (auto simp: flush_def record_with_ok split: option.splits)
qed

theorem deletions_remembered_witness:
  "map_of (load (snd (flush 5000 True (queue_all [(4000, ''a''), (4500, ''a'')] [], Store [(''b'', 100)])))) ''a'' = Some 4000"
proof -
  have "store_ok (Store [(''b'', 100)])" by (simp add: store_ok_def load_def btree_ok_def)
  from deletions_remembered [OF this, where now = 5000 and evs = "[(4000, ''a''), (4500, ''a'')]" and p = "''a''"] show ?thesis
    by (auto simp: MAX_AGE_def split: prod.splits)
qed

text \<open>
  A flush empties the queue before the save and a failed save is only logged: the queued deletions
  are then in neither.
\<close>

lemma failed_save_loses_queue: "q \<noteq> [] \<Longrightarrow> flush now False (q, d) = ([], d)"
  by (simp add: flush_def record_with_def save_def)

end
