(* ===== verification/SyncScan.thy ===== *)
theory SyncScan
  imports Complex_Main RustStr SyncStore
begin

text \<open>
  The scanner of the synchroniser: \<open>apps/krymux-sync/src/sync/scanner.rs\<close>.  A directory is the list of
  its entries in the order the system returns them; \<open>walk\<close> follows the recursion of
  \<open>scan_directory\<close>.  Modification times, \<open>f64\<close> milliseconds in the source, are real numbers: rounding
  is not modelled.  The hash of a file's content is a function of its path, \<open>None\<close> when it cannot be
  read.

  Lemmas: metadata files are never listed and the list is sorted; the hash cache is transparent:
  as long as files with the same size and time have the content they had, a scan with the cache is the
  scan without it, whatever the number of workers.
\<close>

record file_entry =
  fe_path :: string
  fe_size :: nat
  fe_mtime :: real
  fe_hash :: "string option"

definition CACHE_FILE :: string where "CACHE_FILE = ''.sync-cache.json''"

definition is_sync_metadata :: "string \<Rightarrow> bool" where
  "is_sync_metadata name \<longleftrightarrow>
     ends_with ''.sync-tmp'' name \<or> ends_with ''.sync.lock'' name \<or> name = STORE_FILE \<or> name = CACHE_FILE"

section \<open>Walking a tree\<close>

datatype fs_node =
    FsFile nat real
  | FsDir "(string \<times> fs_node) list"
  | FsUnreadableDir
  | FsOther \<comment> \<open>neither file nor directory, or gone\<close>

definition slashes :: "string \<Rightarrow> string" where
  "slashes s = map (\<lambda>c. if c = CHR 0x5C then CHR ''/'' else c) s"

fun walk :: "string \<Rightarrow> (string \<times> fs_node) list \<Rightarrow> file_entry list" where
  "walk pre [] = []"
| "walk pre ((name, node) # es) =
     (if is_sync_metadata name then []
      else case node of
        FsDir sub \<Rightarrow> walk (pre @ name @ ''/'') sub
      | FsFile sz mt \<Rightarrow> [\<lparr>fe_path = slashes (pre @ name), fe_size = sz, fe_mtime = mt, fe_hash = None\<rparr>]
      | _ \<Rightarrow> []) @ walk pre es"

definition scan_directory :: "(string \<times> fs_node) list \<Rightarrow> file_entry list" where
  "scan_directory dirtree = sort_key fe_path (walk [] dirtree)"

section \<open>Hashing with a cache\<close>

record cache_entry =
  ce_size :: nat
  ce_mtime :: real
  ce_hash :: string

definition cache_hit :: "cache_entry \<Rightarrow> file_entry \<Rightarrow> bool" where
  "cache_hit c f \<longleftrightarrow> fe_mtime f > 0 \<and> ce_size c = fe_size f \<and> ce_mtime c = fe_mtime f"

text \<open>\<open>slice::chunks\<close>.\<close>

function chunks :: "nat \<Rightarrow> 'a list \<Rightarrow> 'a list list" where
  "chunks n xs = (if xs = [] \<or> n = 0 then [] else take n xs # chunks n (drop n xs))"
  by auto
termination by (relation "measure (\<lambda>(n, xs). length xs)") auto

declare chunks.simps [simp del]

lemma concat_chunks: "0 < n \<Longrightarrow> concat (chunks n xs) = xs"
proof (induction n xs rule: chunks.induct)
  case (1 n xs)
  then show ?case by (subst chunks.simps) auto
qed

definition worker_chunks :: "nat \<Rightarrow> file_entry list \<Rightarrow> file_entry list list" where
  "worker_chunks concurrency files =
     (let per = (length files + concurrency - 1) div max concurrency 1 in
      if per = 0 then [files] else chunks per files)"

definition hash_entry :: "(string \<Rightarrow> string option) \<Rightarrow> cache_entry btree \<Rightarrow> file_entry \<Rightarrow> file_entry" where
  "hash_entry content cache f =
     (case map_of cache (fe_path f) of
        Some c \<Rightarrow> if cache_hit c f then f\<lparr>fe_hash := Some (ce_hash c)\<rparr> else f\<lparr>fe_hash := content (fe_path f)\<rparr>
      | None \<Rightarrow> f\<lparr>fe_hash := content (fe_path f)\<rparr>)"

text \<open>A worker only gets the cache lines of its chunk.\<close>

definition cache_subset :: "cache_entry btree \<Rightarrow> file_entry list \<Rightarrow> cache_entry btree" where
  "cache_subset cache chunk =
     fold (\<lambda>f sub. case map_of cache (fe_path f) of Some c \<Rightarrow> btree_insert (fe_path f) c sub | None \<Rightarrow> sub) chunk []"

definition run_worker :: "(string \<Rightarrow> string option) \<Rightarrow> cache_entry btree \<Rightarrow> file_entry list \<Rightarrow> file_entry list" where
  "run_worker content cache chunk = map (hash_entry content (cache_subset cache chunk)) chunk"

definition fresh_cache :: "file_entry list \<Rightarrow> cache_entry btree" where
  "fresh_cache result =
     fold (\<lambda>f m. case fe_hash f of
        Some h \<Rightarrow> btree_insert (fe_path f) \<lparr>ce_size = fe_size f, ce_mtime = fe_mtime f, ce_hash = h\<rparr> m
      | None \<Rightarrow> m) result []"

text \<open>The result of a scan and the cache to be saved, if it changed.\<close>

definition scan_and_hash ::
    "(string \<Rightarrow> string option) \<Rightarrow> nat \<Rightarrow> cache_entry btree \<Rightarrow> (string \<times> fs_node) list \<Rightarrow> file_entry list \<times> cache_entry btree option" where
  "scan_and_hash content concurrency cache dirtree =
     (let files = scan_directory dirtree;
          result = concat (map (run_worker content cache) (worker_chunks concurrency files));
          fresh = fresh_cache result
      in (result, if fresh \<noteq> cache then Some fresh else None))"

section \<open>What a scan lists\<close>

lemma walk_props: "f \<in> set (walk pre es) \<Longrightarrow> fe_hash f = None"
  by (induction pre es rule: walk.induct) (auto split: if_splits fs_node.splits)

lemma scan_directory_sorted: "sorted (map fe_path (scan_directory dirtree))"
  by (simp add: scan_directory_def)

section \<open>The cache is transparent\<close>

text \<open>Coherence: a line that describes a file of the tree has the hash of its content.\<close>

definition cache_coherent :: "(string \<Rightarrow> string option) \<Rightarrow> cache_entry btree \<Rightarrow> file_entry list \<Rightarrow> bool" where
  "cache_coherent content cache files \<longleftrightarrow>
     list_all (\<lambda>f. case map_of cache (fe_path f) of
        Some c \<Rightarrow> cache_hit c f \<longrightarrow> content (fe_path f) = Some (ce_hash c)
      | None \<Rightarrow> True) files"

lemma map_of_fold_insert:
  "map_of (fold (\<lambda>f m. case g f of Some c \<Rightarrow> btree_insert (h f) c m | None \<Rightarrow> m) fs m) p =
     (case map_of (rev (filter_map (\<lambda>f. map_option (Pair (h f)) (g f)) fs)) p of Some c \<Rightarrow> Some c | None \<Rightarrow> map_of m p)"
  by (induction fs arbitrary: m) (auto simp: btree.look_ins map_add_def split: option.splits)

lemma cache_subset_look:
  "f \<in> set chunk \<Longrightarrow> map_of (cache_subset cache chunk) (fe_path f) = map_of cache (fe_path f)"
proof -
  assume f: "f \<in> set chunk"
  let ?l = "filter_map (\<lambda>f. map_option (Pair (fe_path f)) (map_of cache (fe_path f))) chunk"
  have all: "v = the (map_of cache p) \<and> map_of cache p \<noteq> None" if "(p, v) \<in> set ?l" for p v
    using that by (auto simp: set_filter_map)
  have look: "map_of (cache_subset cache chunk) (fe_path f) = map_of (rev ?l) (fe_path f)"
    by (simp add: cache_subset_def map_of_fold_insert split: option.split)
  show ?thesis
  proof (cases "map_of cache (fe_path f)")
    case None
    then have "fe_path f \<notin> fst ` set (rev ?l)" using all by force
    then have "map_of (rev ?l) (fe_path f) = None" by (simp only: map_of_eq_None_iff not_False_eq_True)
    then show ?thesis using look None by (simp only:)
  next
    case (Some c)
    then have "(fe_path f, c) \<in> set ?l" using f by (auto simp: set_filter_map intro!: bexI [of _ f])
    then obtain v where v: "map_of (rev ?l) (fe_path f) = Some v"
      by (metis (no_types, lifting) map_of_eq_None_iff option.exhaust image_eqI fst_conv set_rev)
    from all [of "fe_path f" v] map_of_SomeD [OF v] Some have "v = c" by simp
    with v look Some show ?thesis by simp
  qed
qed

lemma concat_worker_chunks: "0 < concurrency \<Longrightarrow> concat (worker_chunks concurrency files) = files"
  by (simp add: worker_chunks_def Let_def concat_chunks)

lemma scan_result:
  assumes "0 < concurrency"
  shows "fst (scan_and_hash content concurrency cache dirtree) = map (hash_entry content cache) (scan_directory dirtree)"
proof -
  have w: "run_worker content cache = map (hash_entry content cache)"
    by (rule ext) (simp add: run_worker_def hash_entry_def cache_subset_look)
  have "fst (scan_and_hash content concurrency cache dirtree) =
      concat (map (map (hash_entry content cache)) (worker_chunks concurrency (scan_directory dirtree)))"
    by (simp add: scan_and_hash_def w Let_def)
  also have "\<dots> = map (hash_entry content cache) (concat (worker_chunks concurrency (scan_directory dirtree)))"
    by (simp add: map_concat)
  finally show ?thesis by (simp add: concat_worker_chunks [OF assms])
qed

lemma hash_entry_coherent:
  "cache_coherent content cache files \<Longrightarrow> f \<in> set files \<Longrightarrow> hash_entry content cache f = f\<lparr>fe_hash := content (fe_path f)\<rparr>"
  by (auto simp: cache_coherent_def hash_entry_def list_all_iff split: option.splits)

lemma scan_result_coherent:
  assumes "cache_coherent content cache (scan_directory dirtree)" and "0 < concurrency"
  shows "fst (scan_and_hash content concurrency cache dirtree) =
    map (\<lambda>f. f\<lparr>fe_hash := content (fe_path f)\<rparr>) (scan_directory dirtree)"
  unfolding scan_result [OF assms(2)] by (rule map_cong [OF refl], rule hash_entry_coherent [OF assms(1)])

text \<open>The line of a file in the cache built from a result.\<close>

definition cache_line :: "file_entry \<Rightarrow> cache_entry option" where
  "cache_line f = map_option (\<lambda>h. \<lparr>ce_size = fe_size f, ce_mtime = fe_mtime f, ce_hash = h\<rparr>) (fe_hash f)"

lemma fresh_cache_fold:
  "fresh_cache r = fold (\<lambda>f m. case cache_line f of Some c \<Rightarrow> btree_insert (fe_path f) c m | None \<Rightarrow> m) r []"
proof -
  have "(\<lambda>f m. case fe_hash f of
        Some h \<Rightarrow> btree_insert (fe_path f) \<lparr>ce_size = fe_size f, ce_mtime = fe_mtime f, ce_hash = h\<rparr> m
      | None \<Rightarrow> m) =
    (\<lambda>f m. case cache_line f of Some c \<Rightarrow> btree_insert (fe_path f) c m | None \<Rightarrow> m)"
    by (intro ext) (simp add: cache_line_def split: option.split)
  then show ?thesis by (simp only: fresh_cache_def)
qed

lemma fresh_cache_lookD:
  assumes "map_of (fresh_cache r) p = Some c"
  shows "\<exists>h \<in> set r. fe_path h = p \<and> cache_line h = Some c"
proof -
  have "map_of (rev (filter_map (\<lambda>f. map_option (Pair (fe_path f)) (cache_line f)) r)) p = Some c"
    using assms unfolding fresh_cache_fold map_of_fold_insert by (simp split: option.splits)
  then have "(p, c) \<in> set (filter_map (\<lambda>f. map_option (Pair (fe_path f)) (cache_line f)) r)"
    by (metis map_of_SomeD set_rev)
  then show ?thesis by (auto simp: set_filter_map)
qed

lemma fresh_cache_coherent:
  "cache_coherent content (fresh_cache (map (\<lambda>f. f\<lparr>fe_hash := content (fe_path f)\<rparr>) files)) files"
proof -
  let ?r = "map (\<lambda>f. f\<lparr>fe_hash := content (fe_path f)\<rparr>) files"
  have "content (fe_path f) = Some (ce_hash c)"
    if "f \<in> set files" "map_of (fresh_cache ?r) (fe_path f) = Some c" for f c
  proof -
    from fresh_cache_lookD [OF that(2)] obtain h where "h \<in> set files" "fe_path h = fe_path f"
      "cache_line (h\<lparr>fe_hash := content (fe_path h)\<rparr>) = Some c" by auto
    then show ?thesis by (auto simp: cache_line_def)
  qed
  then show ?thesis by (auto simp: cache_coherent_def list_all_iff split: option.split)
qed

text \<open>
  The cache is transparent.  If every line of the cache that has the size and time of a file has
  the hash of its content, the result of a scan is the sorted list of the files with their content
  hashes, for any number of workers, exactly as with an empty cache; and the cache written
  afterwards has this property again, for the same files and content.
\<close>

theorem scan_cache_transparent:
  assumes "cache_coherent content cache (scan_directory dirtree)" and "0 < concurrency"
  shows "fst (scan_and_hash content concurrency cache dirtree) =
      map (\<lambda>f. f\<lparr>fe_hash := content (fe_path f)\<rparr>) (scan_directory dirtree) \<and>
    fst (scan_and_hash content concurrency cache dirtree) = fst (scan_and_hash content 1 [] dirtree) \<and>
    sorted (map fe_path (fst (scan_and_hash content concurrency cache dirtree))) \<and>
    (case snd (scan_and_hash content concurrency cache dirtree) of
       Some fresh \<Rightarrow> cache_coherent content fresh (scan_directory dirtree)
     | None \<Rightarrow> True)"
proof -
  let ?r = "map (\<lambda>f. f\<lparr>fe_hash := content (fe_path f)\<rparr>) (scan_directory dirtree)"
  have r: "fst (scan_and_hash content concurrency cache dirtree) = ?r" by (rule scan_result_coherent [OF assms])
  have "cache_coherent content [] (scan_directory dirtree)" by (simp add: cache_coherent_def list_all_iff)
  then have e: "fst (scan_and_hash content 1 [] dirtree) = ?r" by (rule scan_result_coherent) simp
  have "sorted (map fe_path ?r)" using scan_directory_sorted [of dirtree] by (simp add: comp_def)
  moreover have "snd (scan_and_hash content concurrency cache dirtree) = (if fresh_cache ?r \<noteq> cache then Some (fresh_cache ?r) else None)"
    using r by (simp add: scan_and_hash_def Let_def)
  ultimately show ?thesis using r e fresh_cache_coherent [of content "scan_directory dirtree"] by simp
qed

theorem scan_cache_transparent_witness:
  "fst (scan_and_hash (\<lambda>p. if p = ''d/x'' then Some ''11'' else None) 4
      [(''d/x'', \<lparr>ce_size = 2, ce_mtime = 7, ce_hash = ''11''\<rparr>)]
      [(''d'', FsDir [(''x'', FsFile 2 7), (''.sync.lock'', FsFile 0 7)]), (''q'', FsOther)]) =
   [\<lparr>fe_path = ''d/x'', fe_size = 2, fe_mtime = 7, fe_hash = Some ''11''\<rparr>]"
proof -
  let ?content = "\<lambda>p. if p = ''d/x'' then Some ''11'' else None"
  let ?dir = "[(''d'', FsDir [(''x'', FsFile 2 7), (''.sync.lock'', FsFile 0 7)]), (''q'', FsOther)]"
  let ?cache = "[(''d/x'', \<lparr>ce_size = 2, ce_mtime = 7, ce_hash = ''11''\<rparr>)]"
  have d: "scan_directory ?dir = [\<lparr>fe_path = ''d/x'', fe_size = 2, fe_mtime = 7, fe_hash = None\<rparr>]"
    by (simp add: scan_directory_def is_sync_metadata_def ends_with_def slashes_def STORE_FILE_def CACHE_FILE_def)
  have "cache_coherent ?content ?cache (scan_directory ?dir)" by (simp add: d cache_coherent_def)
  from scan_cache_transparent [OF this, of 4] show ?thesis by (simp add: d)
qed

end
