(* ===== verification/SyncVocab.thy ===== *)
theory SyncVocab
  imports SyncProtocol SyncScan
begin

text \<open>
  The message vocabulary of the synchroniser: the constants and constructors of
  \<open>apps/krymux-sync/src/sync/protocol.rs\<close> and the JSON form of a file entry that serde derives.

  Sizes and times of the engine are natural numbers; a number on the wire is a \<open>u64\<close>.

  Lemmas: what the accessors of the receiving side read from what the constructors wrote.
\<close>

definition T_HELLO :: string where "T_HELLO = ''hello''"
definition T_HELLO_ACK :: string where "T_HELLO_ACK = ''hello_ack''"
definition T_SCAN_READY :: string where "T_SCAN_READY = ''scan_ready''"
definition T_REQUEST_SCAN :: string where "T_REQUEST_SCAN = ''request_scan''"
definition T_SCAN_BATCH :: string where "T_SCAN_BATCH = ''scan_batch''"
definition T_SCAN_END :: string where "T_SCAN_END = ''scan_end''"
definition T_TOMBSTONE_BATCH :: string where "T_TOMBSTONE_BATCH = ''tombstone_batch''"
definition T_TOMBSTONE_END :: string where "T_TOMBSTONE_END = ''tombstone_end''"
definition T_GET_FILE :: string where "T_GET_FILE = ''get_file''"
definition T_FILE_META :: string where "T_FILE_META = ''file_meta''"
definition T_FILE_DONE :: string where "T_FILE_DONE = ''file_done''"
definition T_FILE_ERROR :: string where "T_FILE_ERROR = ''file_error''"
definition T_PUT_START :: string where "T_PUT_START = ''put_start''"
definition T_PUT_DONE :: string where "T_PUT_DONE = ''put_done''"
definition T_PUT_ACK :: string where "T_PUT_ACK = ''put_ack''"
definition T_DELETE_FILE :: string where "T_DELETE_FILE = ''delete_file''"
definition T_DELETE_ACK :: string where "T_DELETE_ACK = ''delete_ack''"
definition T_SYNC_COMPLETE :: string where "T_SYNC_COMPLETE = ''sync_complete''"
definition T_NOTIFY_LISTEN :: string where "T_NOTIFY_LISTEN = ''notify_listen''"
definition T_NOTIFY_ACK :: string where "T_NOTIFY_ACK = ''notify_ack''"
definition T_RESCAN_HINT :: string where "T_RESCAN_HINT = ''rescan_hint''"
definition T_ERROR :: string where "T_ERROR = ''error''"

lemmas T_defs = T_HELLO_def T_HELLO_ACK_def T_SCAN_READY_def T_REQUEST_SCAN_def T_SCAN_BATCH_def T_SCAN_END_def
  T_TOMBSTONE_BATCH_def T_TOMBSTONE_END_def T_GET_FILE_def T_FILE_META_def T_FILE_DONE_def T_FILE_ERROR_def
  T_PUT_START_def T_PUT_DONE_def T_PUT_ACK_def T_DELETE_FILE_def T_DELETE_ACK_def T_SYNC_COMPLETE_def
  T_NOTIFY_LISTEN_def T_NOTIFY_ACK_def T_RESCAN_HINT_def T_ERROR_def

text \<open>A \<open>u64\<close> (or \<open>usize\<close>, \<open>u32\<close>) as a JSON number, and \<open>as_u64().unwrap_or(0)\<close>.\<close>

definition json_num :: "nat \<Rightarrow> json" where
  "json_num n = JPosInt (word_of_nat n)"

definition num_field :: "json \<Rightarrow> string \<Rightarrow> nat" where
  "num_field m k = unat (unwrap_or (as_u64 (json_index m k)) 0)"

definition str_field :: "json \<Rightarrow> string \<Rightarrow> string" where
  "str_field m k = unwrap_or (as_str (json_index m k)) []"

definition f64_field :: "json \<Rightarrow> string \<Rightarrow> real" where
  "f64_field m k = unwrap_or (as_f64 (json_index m k)) 0"

definition ok_field :: "json \<Rightarrow> bool" where
  "ok_field m = unwrap_or (as_bool (json_index m ''ok'')) False"

lemma num_field_json: "json_get m k = Some (json_num n) \<Longrightarrow> n < 2 ^ 64 \<Longrightarrow> num_field m k = n"
  by (simp add: num_field_def json_index_def json_num_def unat_of_nat)

section \<open>Constructors\<close>

definition hello :: "nat \<Rightarrow> string \<Rightarrow> json" where
  "hello version mode = JObject [(''t'', JString T_HELLO), (''version'', json_num version), (''mode'', JString mode)]"

definition hello_ack :: "nat \<Rightarrow> string \<Rightarrow> nat \<Rightarrow> json" where
  "hello_ack server_time mode version =
     JObject [(''t'', JString T_HELLO_ACK), (''serverTime'', json_num server_time), (''mode'', JString mode), (''version'', json_num version)]"

definition error_msg :: "string \<Rightarrow> json" where
  "error_msg message = JObject [(''t'', JString T_ERROR), (''message'', JString message)]"

definition scan_ready :: "nat \<Rightarrow> json" where
  "scan_ready count = JObject [(''t'', JString T_SCAN_READY), (''count'', json_num count), (''tombstones'', JBool True)]"

definition request_scan :: json where
  "request_scan = JObject [(''t'', JString T_REQUEST_SCAN)]"

text \<open>The derived serialisation of \<open>FileEntry\<close> and its inverse; a missing or null hash is \<open>None\<close>.\<close>

definition json_of_entry :: "file_entry \<Rightarrow> json" where
  "json_of_entry f = JObject
     [(''path'', JString (fe_path f)), (''size'', json_num (fe_size f)), (''mtime_ms'', JFloat (fe_mtime f)),
      (''hash'', case fe_hash f of Some h \<Rightarrow> JString h | None \<Rightarrow> JNull)]"

definition hash_of_json :: "json \<Rightarrow> string option option" where
  "hash_of_json v = (case json_get v ''hash'' of
      None \<Rightarrow> Some None
    | Some JNull \<Rightarrow> Some None
    | Some (JString h) \<Rightarrow> Some (Some h)
    | _ \<Rightarrow> None)"

definition entry_of_json :: "json \<Rightarrow> file_entry option" where
  "entry_of_json v =
     (case (Option.bind (json_get v ''path'') as_str, Option.bind (json_get v ''size'') as_u64,
            Option.bind (json_get v ''mtime_ms'') as_f64, hash_of_json v) of
        (Some p, Some n, Some t, Some h) \<Rightarrow> Some \<lparr>fe_path = p, fe_size = unat n, fe_mtime = t, fe_hash = h\<rparr>
      | _ \<Rightarrow> None)"

definition scan_batch :: "file_entry list \<Rightarrow> nat \<Rightarrow> json" where
  "scan_batch files off = JObject
     [(''t'', JString T_SCAN_BATCH), (''files'', JArray (map json_of_entry files)), (''offset'', json_num off)]"

definition scan_end :: "nat \<Rightarrow> json" where
  "scan_end n = JObject [(''t'', JString T_SCAN_END), (''total'', json_num n)]"

definition tombstone_batch :: "nat btree \<Rightarrow> json" where
  "tombstone_batch entries = JObject
     [(''t'', JString T_TOMBSTONE_BATCH), (''entries'', JObject (map (\<lambda>(p, ts). (p, json_num ts)) entries))]"

definition tombstone_end :: "nat \<Rightarrow> json" where
  "tombstone_end count = JObject [(''t'', JString T_TOMBSTONE_END), (''count'', json_num count)]"

definition get_file :: "string \<Rightarrow> json" where
  "get_file path = JObject [(''t'', JString T_GET_FILE), (''path'', JString path)]"

definition file_meta :: "string \<Rightarrow> nat \<Rightarrow> string \<Rightarrow> real \<Rightarrow> json" where
  "file_meta path sz hash mtime = JObject
     [(''t'', JString T_FILE_META), (''path'', JString path), (''size'', json_num sz), (''hash'', JString hash), (''mtimeMs'', JFloat mtime)]"

definition file_done :: "string \<Rightarrow> json" where
  "file_done path = JObject [(''t'', JString T_FILE_DONE), (''path'', JString path)]"

definition file_error :: "string \<Rightarrow> string \<Rightarrow> json" where
  "file_error path err = JObject [(''t'', JString T_FILE_ERROR), (''path'', JString path), (''error'', JString err)]"

definition put_start :: "string \<Rightarrow> nat \<Rightarrow> string \<Rightarrow> real \<Rightarrow> json" where
  "put_start path sz hash mtime = JObject
     [(''t'', JString T_PUT_START), (''path'', JString path), (''size'', json_num sz), (''hash'', JString hash), (''mtimeMs'', JFloat mtime)]"

definition put_done :: "string \<Rightarrow> json" where
  "put_done path = JObject [(''t'', JString T_PUT_DONE), (''path'', JString path)]"

definition put_ack :: "string \<Rightarrow> bool \<Rightarrow> string \<Rightarrow> json" where
  "put_ack path ok err = JObject [(''t'', JString T_PUT_ACK), (''path'', JString path), (''ok'', JBool ok), (''error'', JString err)]"

definition delete_file :: "string \<Rightarrow> nat \<Rightarrow> json" where
  "delete_file path ts = JObject [(''t'', JString T_DELETE_FILE), (''path'', JString path), (''ts'', json_num ts)]"

definition delete_ack :: "string \<Rightarrow> bool \<Rightarrow> string \<Rightarrow> json" where
  "delete_ack path ok err = JObject [(''t'', JString T_DELETE_ACK), (''path'', JString path), (''ok'', JBool ok), (''error'', JString err)]"

definition sync_complete :: "nat \<Rightarrow> nat \<Rightarrow> nat \<Rightarrow> nat \<Rightarrow> json" where
  "sync_complete downloaded uploads conflicts locked_skipped = JObject
     [(''t'', JString T_SYNC_COMPLETE), (''stats'', JObject
        [(''downloaded'', json_num downloaded), (''uploads'', json_num uploads),
         (''conflicts'', json_num conflicts), (''lockedSkipped'', json_num locked_skipped)])]"

definition notify_listen :: json where "notify_listen = JObject [(''t'', JString T_NOTIFY_LISTEN)]"
definition notify_ack :: json where "notify_ack = JObject [(''t'', JString T_NOTIFY_ACK)]"
definition rescan_hint :: json where "rescan_hint = JObject [(''t'', JString T_RESCAN_HINT)]"

section \<open>What the accessors read\<close>

lemmas msg_defs = hello_def hello_ack_def error_msg_def scan_ready_def request_scan_def scan_batch_def scan_end_def
  tombstone_batch_def tombstone_end_def get_file_def file_meta_def file_done_def file_error_def put_start_def put_done_def
  put_ack_def delete_file_def delete_ack_def sync_complete_def notify_listen_def notify_ack_def rescan_hint_def

lemmas field_defs = num_field_def str_field_def f64_field_def ok_field_def json_index_def

lemma json_num_u64: "n < 2 ^ 64 \<Longrightarrow> as_u64 (json_num n) = Some (word_of_nat n) \<and> unat (word_of_nat n :: u64) = n"
  by (simp add: json_num_def unat_of_nat)

lemma msg_types [simp]:
  "str_field (hello v md) ''t'' = T_HELLO"
  "str_field (hello_ack st md v) ''t'' = T_HELLO_ACK"
  "str_field (error_msg e) ''t'' = T_ERROR"
  "str_field (scan_ready c) ''t'' = T_SCAN_READY"
  "str_field request_scan ''t'' = T_REQUEST_SCAN"
  "str_field (scan_batch fs off) ''t'' = T_SCAN_BATCH"
  "str_field (scan_end n) ''t'' = T_SCAN_END"
  "str_field (tombstone_batch es) ''t'' = T_TOMBSTONE_BATCH"
  "str_field (tombstone_end n) ''t'' = T_TOMBSTONE_END"
  "str_field (get_file p) ''t'' = T_GET_FILE"
  "str_field (file_meta p s h t) ''t'' = T_FILE_META"
  "str_field (file_done p) ''t'' = T_FILE_DONE"
  "str_field (file_error p e) ''t'' = T_FILE_ERROR"
  "str_field (put_start p s h t) ''t'' = T_PUT_START"
  "str_field (put_done p) ''t'' = T_PUT_DONE"
  "str_field (put_ack p b e) ''t'' = T_PUT_ACK"
  "str_field (delete_file p ts) ''t'' = T_DELETE_FILE"
  "str_field (delete_ack p b e) ''t'' = T_DELETE_ACK"
  "str_field (sync_complete n1 n2 n3 n4) ''t'' = T_SYNC_COMPLETE"
  by (simp_all add: msg_defs field_defs)

lemma msg_fields [simp]:
  "str_field (get_file p) ''path'' = p"
  "str_field (put_start p s h t) ''path'' = p"
  "str_field (put_start p s h t) ''hash'' = h"
  "f64_field (put_start p s h t) ''mtimeMs'' = t"
  "str_field (put_ack p b e) ''path'' = p"
  "str_field (delete_file p ts) ''path'' = p"
  "str_field (delete_ack p b e) ''path'' = p"
  "str_field (file_meta p s h t) ''hash'' = h"
  "f64_field (file_meta p s h t) ''mtimeMs'' = t"
  "ok_field (put_ack p b e) = b"
  "ok_field (delete_ack p b e) = b"
  by (simp_all add: msg_defs field_defs)

lemma msg_numbers:
  "s < 2 ^ 64 \<Longrightarrow> num_field (put_start p s h t) ''size'' = s"
  "s < 2 ^ 64 \<Longrightarrow> num_field (file_meta p s h t) ''size'' = s"
  "ts < 2 ^ 64 \<Longrightarrow> num_field (delete_file p ts) ''ts'' = ts"
  "v < 2 ^ 64 \<Longrightarrow> num_field (hello v md) ''version'' = v"
  "st < 2 ^ 64 \<Longrightarrow> num_field (hello_ack st md v) ''serverTime'' = st"
  "n < 2 ^ 64 \<Longrightarrow> num_field (scan_ready n) ''count'' = n"
  by (rule num_field_json; simp add: msg_defs)+

lemma entry_roundtrip: "fe_size f < 2 ^ 64 \<Longrightarrow> entry_of_json (json_of_entry f) = Some f"
  by (cases f) (auto simp: entry_of_json_def json_of_entry_def hash_of_json_def json_num_def unat_of_nat
      split: option.split)

end
