(* ===== verification/SyncServer.thy ===== *)
theory SyncServer
  imports SyncVocab SyncPath
begin

text \<open>
  The server side of a synchronisation session: \<open>handle_sync_server\<close>, \<open>serve_file\<close> and \<open>reject_put\<close> of
  \<open>apps/krymux-sync/src/sync/mod.rs\<close>.

  The file system maps a location (the resolved components of a path) to a file, with its time and
  content, or to something that is not a file.  Directories are not tracked: whether a directory can
  be created is one of the outcomes \<open>srv_io\<close> of the system calls made for a message, which are
  arguments of the handler, as are the clock and the result of a scan.  The SHA-1 of a byte string, in
  hex, is a parameter.  Reading a regular file fills the 64 KiB buffer until the end of the file.

  A message is handled to completion before the next one; the handler returns the new state, the
  messages written and whether the session goes on.

  Lemmas: whatever a client sends, files change only below the root, never in read-only mode, and what
  is installed was declared with its size and hash; an upload is answered exactly once, with the
  verdict, and installs the content exactly when it matches its declaration.
\<close>

section \<open>State\<close>

definition VERSION :: nat where "VERSION = 1"
definition MAX_FILE_BYTES :: nat where "MAX_FILE_BYTES = 8 * 1024 * 1024 * 1024"

datatype fnode = FFile real bytes | FNotFile

type_synonym file_system = "string list \<Rightarrow> fnode option"

record srv_env =
  se_root :: string
  se_sha :: "bytes \<Rightarrow> string"
  se_debug :: "string \<Rightarrow> string"

record srv_io =
  io_now :: nat
  io_scan :: "file_entry list option"
  io_locked :: bool
  io_mkdir :: bool
  io_create :: "string option" \<comment> \<open>the error, if any; likewise below\<close>
  io_open :: bool
  io_write :: bool
  io_flush :: "string option"
  io_rename :: bool
  io_utime :: bool
  io_remove :: "string option"
  io_unlink :: bool \<comment> \<open>removal of a staging file\<close>
  io_store :: bool

record incoming_file =
  in_rel :: string
  in_tmp :: "string list"
  in_data :: bytes \<comment> \<open>what the hasher was fed\<close>
  in_size :: nat
  in_hash :: string
  in_mtime :: real
  in_received :: nat

record srv_st =
  sv_mode :: string
  sv_files :: "file_entry list option"
  sv_incoming :: "incoming_file option"
  sv_seq :: nat
  sv_fs :: file_system
  sv_queue :: "nat btree"
  sv_store :: store_file

datatype verdict = Continue | Finished | Failed

type_synonym srv_result = "srv_st \<times> sync_message list \<times> verdict"

definition say :: "srv_st \<Rightarrow> json \<Rightarrow> srv_result" where
  "say st m = (st, [Json m], Continue)"

definition READONLY :: string where "READONLY = ''readonly''"

text \<open>
  The time \<open>filetime\<close> stores: the seconds cut off towards zero, and the nanoseconds of the remainder,
  which the conversion to \<open>u32\<close> makes zero when it is negative.
\<close>

definition stored_time :: "real \<Rightarrow> real" where
  "stored_time ms =
     (if ms < 0 then of_int \<lceil>ms / 1000\<rceil> * 1000
      else let whole = of_int \<lfloor>ms / 1000\<rfloor> in whole * 1000 + of_int \<lfloor>(ms - whole * 1000) * 1000000\<rfloor> / 1000000)"

definition srv_flush :: "srv_io \<Rightarrow> srv_st \<Rightarrow> srv_st" where
  "srv_flush io st = (case flush (io_now io) (io_store io) (sv_queue st, sv_store st) of
     (q, d) \<Rightarrow> st\<lparr>sv_queue := q, sv_store := d\<rparr>)"

definition srv_record :: "srv_io \<Rightarrow> string \<Rightarrow> srv_st \<Rightarrow> srv_st" where
  "srv_record io path st = st\<lparr>sv_store := record_tombstone (io_now io) (io_store io) path (sv_store st)\<rparr>"

definition drop_tmp :: "srv_io \<Rightarrow> string list \<Rightarrow> srv_st \<Rightarrow> srv_st" where
  "drop_tmp io k st = (if io_unlink io then st\<lparr>sv_fs := (sv_fs st)(k := None)\<rparr> else st)"

section \<open>Handshake and scan\<close>

definition srv_hello :: "srv_env \<Rightarrow> srv_io \<Rightarrow> json \<Rightarrow> srv_st \<Rightarrow> srv_result" where
  "srv_hello E io m st =
     (let client_version = num_field m ''version'' mod 2 ^ 32 in
      if client_version \<noteq> VERSION
      then (st, [Json (error_msg (''version mismatch: '' @ show_nat client_version))], Finished)
      else
        let st = (case as_str (json_index m ''mode'') of
              Some cm \<Rightarrow> if sv_mode st = ''bidir'' then st\<lparr>sv_mode := cm\<rparr> else st
            | None \<Rightarrow> st);
            ack = Json (hello_ack (io_now io) (sv_mode st) VERSION);
            st = srv_flush io st
        in case io_scan io of
             None \<Rightarrow> (st, [ack], Failed)
           | Some files \<Rightarrow> (st\<lparr>sv_files := Some files\<rparr>, [ack, Json (scan_ready (length files))], Continue))"

fun scan_batches :: "nat \<Rightarrow> file_entry list list \<Rightarrow> sync_message list" where
  "scan_batches i [] = []"
| "scan_batches i (c # cs) = Json (scan_batch c (i * 100)) # scan_batches (Suc i) cs"

text \<open>The batches of tombstones: the map is walked in order and cut at every thousandth entry.\<close>

fun tomb_batches :: "nat btree \<Rightarrow> nat btree \<Rightarrow> sync_message list" where
  "tomb_batches batch [] = (if batch = [] then [] else [Json (tombstone_batch batch)])"
| "tomb_batches batch ((p, ts) # es) =
     (let batch = btree_insert p ts batch in
      if length batch \<ge> 1000 then Json (tombstone_batch batch) # tomb_batches [] es
      else tomb_batches batch es)"

definition srv_request_scan :: "srv_io \<Rightarrow> srv_st \<Rightarrow> srv_result" where
  "srv_request_scan io st =
     (case sv_files st of
        None \<Rightarrow> (st, [], Failed)
      | Some files \<Rightarrow>
          let st = srv_flush io st;
              tombs = prune (io_now io) (load (sv_store st))
          in (st,
              scan_batches 0 (chunks 100 files) @ [Json (scan_end (length files))] @
              tomb_batches [] tombs @ [Json (tombstone_end (length tombs))],
              Continue))"

section \<open>Downloads\<close>

definition serve_file :: "srv_env \<Rightarrow> srv_io \<Rightarrow> string \<Rightarrow> string \<Rightarrow> srv_st \<Rightarrow> srv_result" where
  "serve_file E io full path st =
     (case sv_fs st (locate full) of
        Some (FFile mtime content) \<Rightarrow>
          if io_locked io then say st (file_error path ''locked'')
          else if \<not> io_open io then (st, [], Failed)
          else (st, Json (file_meta path (length content) (se_sha E content) mtime) #
                    map Bin (chunks 65536 content) @ [Json (file_done path)], Continue)
      | _ \<Rightarrow> say st (file_error path ''not found''))"

definition srv_get_file :: "srv_env \<Rightarrow> srv_io \<Rightarrow> json \<Rightarrow> srv_st \<Rightarrow> srv_result" where
  "srv_get_file E io m st =
     (let path = str_field m ''path'' in
      case safe_join (se_debug E) (se_root E) path of
        Inr full \<Rightarrow> serve_file E io full path st
      | Inl e \<Rightarrow> say st (file_error path e))"

section \<open>Deletions\<close>

definition srv_delete_file :: "srv_env \<Rightarrow> srv_io \<Rightarrow> json \<Rightarrow> srv_st \<Rightarrow> srv_result" where
  "srv_delete_file E io m st =
     (let path = str_field m ''path''; ts = num_field m ''ts'' in
      if sv_mode st = READONLY then say st (delete_ack path False ''server is readonly'')
      else case safe_join (se_debug E) (se_root E) path of
        Inl e \<Rightarrow> say st (delete_ack path False e)
      | Inr full \<Rightarrow>
          (case sv_fs st (locate full) of
             None \<Rightarrow> say (srv_record io path st) (delete_ack path True [])
           | Some FNotFile \<Rightarrow> say st (delete_ack path False ''not a file'')
           | Some (FFile mtime content) \<Rightarrow>
               if mtime > real ts then say st (delete_ack path False ''modified since delete'')
               else (case io_remove io of
                 None \<Rightarrow> say (srv_record io path (st\<lparr>sv_fs := (sv_fs st)(locate full := None)\<rparr>)) (delete_ack path True [])
               | Some e \<Rightarrow> say st (delete_ack path False e))))"

section \<open>Uploads\<close>

definition reject_put :: "srv_st \<Rightarrow> string \<Rightarrow> string \<Rightarrow> srv_result" where
  "reject_put st path err = say st (put_ack path False err)"

definition srv_put_start :: "srv_env \<Rightarrow> srv_io \<Rightarrow> json \<Rightarrow> srv_st \<Rightarrow> srv_result" where
  "srv_put_start E io m st =
     (let path = str_field m ''path'' in
      if sv_mode st = READONLY then reject_put st path ''server is readonly''
      else case safe_join (se_debug E) (se_root E) path of
        Inl e \<Rightarrow> reject_put st path e
      | Inr full \<Rightarrow>
          if io_locked io then reject_put st path ''locked''
          else
            let tmp = locate (unique_tmp (sv_seq st) full);
                st = st\<lparr>sv_seq := Suc (sv_seq st)\<rparr>;
                declared = num_field m ''size''
            in if \<not> io_mkdir io then reject_put st path ''cannot create directory''
               else if declared > MAX_FILE_BYTES then reject_put st path ''file too large''
               else case io_create io of
                 Some e \<Rightarrow> reject_put st path (''create tmp: '' @ e)
               | None \<Rightarrow>
                   (st\<lparr>sv_fs := (sv_fs st)(tmp := Some (FFile (real (io_now io)) [])),
                       sv_incoming := Some \<lparr>in_rel = path, in_tmp = tmp, in_data = [], in_size = declared,
                         in_hash = str_field m ''hash'', in_mtime = f64_field m ''mtimeMs'', in_received = 0\<rparr>\<rparr>,
                    [], Continue))"

definition srv_bin :: "srv_io \<Rightarrow> bytes \<Rightarrow> srv_st \<Rightarrow> srv_result" where
  "srv_bin io data st =
     (case sv_incoming st of
        None \<Rightarrow> (st, [], Continue)
      | Some inc \<Rightarrow>
          let inc = inc\<lparr>in_received := in_received inc + length data\<rparr>;
              (failed, inc, st) =
                (if in_received inc > MAX_FILE_BYTES then (True, inc, st)
                 else if \<not> io_write io then (True, inc, st)
                 else
                   let inc = inc\<lparr>in_data := in_data inc @ data\<rparr> in
                   (in_received inc > in_size inc, inc,
                    st\<lparr>sv_fs := (sv_fs st)(in_tmp inc := Some (FFile (real (io_now io)) (in_data inc)))\<rparr>))
          in if failed
             then (drop_tmp io (in_tmp inc) (st\<lparr>sv_incoming := None\<rparr>),
                   [Json (put_ack (in_rel inc) False ''aborted mid-transfer'')], Continue)
             else (st\<lparr>sv_incoming := Some inc\<rparr>, [], Continue))"

text \<open>The verdict of \<open>put_done\<close> before the installation: the error, if any.\<close>

definition put_error :: "srv_env \<Rightarrow> srv_io \<Rightarrow> incoming_file \<Rightarrow> string option" where
  "put_error E io inc =
     (let size_err = (if in_received inc \<noteq> in_size inc
            then Some (''size mismatch: expected '' @ show_nat (in_size inc) @ '', got '' @ show_nat (in_received inc)) else None);
          got = se_sha E (in_data inc);
          err = (if size_err = None \<and> in_hash inc \<noteq> [] \<and> got \<noteq> in_hash inc
            then Some (''hash mismatch: expected '' @ in_hash inc @ '', got '' @ got) else size_err)
      in case io_flush io of Some e \<Rightarrow> Some (''flush: '' @ e) | None \<Rightarrow> err)"

text \<open>A rename replaces a file and fails on anything else.\<close>

definition srv_put_done :: "srv_env \<Rightarrow> srv_io \<Rightarrow> srv_st \<Rightarrow> srv_result" where
  "srv_put_done E io st =
     (case sv_incoming st of
        None \<Rightarrow> (st, [], Continue)
      | Some inc \<Rightarrow>
          let st = st\<lparr>sv_incoming := None\<rparr> in
          case put_error E io inc of
            Some err \<Rightarrow> say (drop_tmp io (in_tmp inc) st) (put_ack (in_rel inc) False err)
          | None \<Rightarrow>
              (case safe_join (se_debug E) (se_root E) (in_rel inc) of
                 Inl e \<Rightarrow> say (drop_tmp io (in_tmp inc) st) (put_ack (in_rel inc) False e)
               | Inr dest \<Rightarrow>
                   if io_rename io \<and> sv_fs st (locate dest) \<noteq> Some FNotFile then
                     let t = (if io_utime io then stored_time (in_mtime inc) else real (io_now io)) in
                     say (st\<lparr>sv_fs := (sv_fs st)(in_tmp inc := None, locate dest := Some (FFile t (in_data inc)))\<rparr>)
                       (put_ack (in_rel inc) True [])
                   else say (drop_tmp io (in_tmp inc) st)
                          (put_ack (in_rel inc) False ''rename busy (held by a concurrent reader)'')))"

section \<open>The session\<close>

definition srv_json :: "srv_env \<Rightarrow> srv_io \<Rightarrow> json \<Rightarrow> srv_st \<Rightarrow> srv_result" where
  "srv_json E io m st =
     (let t = str_field m ''t'' in
      if t = T_HELLO then srv_hello E io m st
      else if t = T_REQUEST_SCAN then srv_request_scan io st
      else if t = T_GET_FILE then srv_get_file E io m st
      else if t = T_DELETE_FILE then srv_delete_file E io m st
      else if t = T_PUT_START then srv_put_start E io m st
      else if t = T_PUT_DONE then srv_put_done E io st
      else if t = T_SYNC_COMPLETE then (st, [], Finished)
      else (st, [], Continue))"

definition srv_msg :: "srv_env \<Rightarrow> srv_io \<Rightarrow> sync_message \<Rightarrow> srv_st \<Rightarrow> srv_result" where
  "srv_msg E io msg st = (case msg of Json m \<Rightarrow> srv_json E io m st | Bin data \<Rightarrow> srv_bin io data st)"

text \<open>The messages of a session one after the other, each with the outcomes of its system calls.\<close>

fun srv_run :: "srv_env \<Rightarrow> (srv_io \<times> sync_message) list \<Rightarrow> srv_st \<Rightarrow> srv_result" where
  "srv_run E [] st = (st, [], Continue)"
| "srv_run E ((io, msg) # ms) st =
     (case srv_msg E io msg st of
        (st', out, Continue) \<Rightarrow> (case srv_run E ms st' of (st'', out', v) \<Rightarrow> (st'', out @ out', v))
      | (st', out, v) \<Rightarrow> (st', out, v))"

text \<open>A session starts with the mode of the server, no scan and no upload.\<close>

definition srv_start :: "string \<Rightarrow> nat \<Rightarrow> file_system \<Rightarrow> nat btree \<Rightarrow> store_file \<Rightarrow> srv_st" where
  "srv_start mode seq fs q d = \<lparr>sv_mode = mode, sv_files = None, sv_incoming = None, sv_seq = seq, sv_fs = fs, sv_queue = q, sv_store = d\<rparr>"

section \<open>What a client can change\<close>

abbreviation at_root :: "srv_env \<Rightarrow> string \<Rightarrow> string list" where
  "at_root E rel \<equiv> locate (path_join (se_root E) rel)"

lemma at_root_safe: "safe_rel rel \<Longrightarrow> at_root E rel = locate (se_root E) @ pieces rel"
  by (rule locate_join)

lemma at_root_inject: "safe_rel a \<Longrightarrow> safe_rel b \<Longrightarrow> at_root E a = at_root E b \<longleftrightarrow> a = b"
  by (simp add: at_root_safe pieces_inject)

text \<open>The upload in progress was declared by one of the messages \<open>D\<close>.\<close>

definition incoming_ok :: "srv_env \<Rightarrow> json set \<Rightarrow> incoming_file \<Rightarrow> bool" where
  "incoming_ok E D inc \<longleftrightarrow>
     safe_rel (in_rel inc) \<and> (\<exists>n. in_tmp inc = at_root E (unique_tmp n (in_rel inc))) \<and>
     in_received inc = length (in_data inc) \<and>
     (\<exists>m \<in> D. str_field m ''t'' = T_PUT_START \<and> str_field m ''path'' = in_rel inc \<and> num_field m ''size'' = in_size inc \<and>
        str_field m ''hash'' = in_hash inc \<and> f64_field m ''mtimeMs'' = in_mtime inc)"

text \<open>
  What may stand where something changed: at a staging name anything, at any other path nothing or a
  content that was declared with its size and, if one was given, its hash.
\<close>

definition allowed_change :: "srv_env \<Rightarrow> json set \<Rightarrow> string list \<Rightarrow> fnode option \<Rightarrow> bool" where
  "allowed_change E D k new \<longleftrightarrow>
     (\<exists>rel. safe_rel rel \<and>
        ((\<exists>n. k = at_root E (unique_tmp n rel)) \<or>
         k = at_root E rel \<and>
           (new = None \<or>
            (\<exists>m \<in> D. \<exists>t c. new = Some (FFile t c) \<and> str_field m ''t'' = T_PUT_START \<and> str_field m ''path'' = rel \<and>
               num_field m ''size'' = length c \<and> (str_field m ''hash'' = [] \<or> str_field m ''hash'' = se_sha E c)))))"

definition srv_inv :: "srv_env \<Rightarrow> json set \<Rightarrow> srv_st \<Rightarrow> bool" where
  "srv_inv E D st \<longleftrightarrow> (\<forall>inc. sv_incoming st = Some inc \<longrightarrow> incoming_ok E D inc)"

definition changes_allowed :: "srv_env \<Rightarrow> json set \<Rightarrow> file_system \<Rightarrow> file_system \<Rightarrow> bool" where
  "changes_allowed E D fs fs' \<longleftrightarrow> (\<forall>k. fs' k \<noteq> fs k \<longrightarrow> allowed_change E D k (fs' k))"

lemma changes_allowed_refl [simp]: "changes_allowed E D fs fs"
  by (simp add: changes_allowed_def)

lemma changes_allowed_trans: "changes_allowed E D fs fs' \<Longrightarrow> changes_allowed E D fs' fs'' \<Longrightarrow> changes_allowed E D fs fs''"
  unfolding changes_allowed_def by metis

lemma changes_allowed_upd: "allowed_change E D k x \<Longrightarrow> changes_allowed E D fs fs' \<Longrightarrow> changes_allowed E D fs (fs'(k := x))"
  by (simp add: changes_allowed_def)

lemma allowed_staging: "incoming_ok E D inc \<Longrightarrow> allowed_change E D (in_tmp inc) x"
  unfolding allowed_change_def incoming_ok_def by blast

lemma allowed_removal: "safe_rel rel \<Longrightarrow> allowed_change E D (at_root E rel) None"
  unfolding allowed_change_def by blast

lemma allowed_install:
  assumes "incoming_ok E D inc" and "put_error E io inc = None"
  shows "allowed_change E D (at_root E (in_rel inc)) (Some (FFile t (in_data inc)))"
proof -
  have "in_received inc = in_size inc" "in_hash inc = [] \<or> in_hash inc = se_sha E (in_data inc)"
    using assms(2) by (auto simp: put_error_def Let_def split: option.splits if_splits)
  with assms(1) show ?thesis unfolding allowed_change_def incoming_ok_def by force
qed

lemma srv_flush_frame [simp]:
  "sv_fs (srv_flush io st) = sv_fs st" "sv_incoming (srv_flush io st) = sv_incoming st" "sv_mode (srv_flush io st) = sv_mode st"
  "sv_files (srv_flush io st) = sv_files st" "sv_seq (srv_flush io st) = sv_seq st"
  by (simp_all add: srv_flush_def split: prod.split)

lemma srv_record_frame [simp]:
  "sv_fs (srv_record io p st) = sv_fs st" "sv_incoming (srv_record io p st) = sv_incoming st" "sv_mode (srv_record io p st) = sv_mode st"
  "sv_files (srv_record io p st) = sv_files st" "sv_seq (srv_record io p st) = sv_seq st"
  by (simp_all add: srv_record_def)

lemma drop_tmp_frame [simp]:
  "sv_incoming (drop_tmp io k st) = sv_incoming st" "sv_mode (drop_tmp io k st) = sv_mode st" "sv_seq (drop_tmp io k st) = sv_seq st"
  by (simp_all add: drop_tmp_def)

lemma drop_tmp_allowed:
  "incoming_ok E D inc \<Longrightarrow> changes_allowed E D fs (sv_fs st) \<Longrightarrow> changes_allowed E D fs (sv_fs (drop_tmp io (in_tmp inc) st))"
  by (simp add: drop_tmp_def changes_allowed_upd allowed_staging)

text \<open>Each handler keeps the invariant and makes only such changes.\<close>

definition srv_keeps :: "srv_env \<Rightarrow> json set \<Rightarrow> srv_st \<Rightarrow> srv_result \<Rightarrow> bool" where
  "srv_keeps E D st r \<longleftrightarrow> srv_inv E D (fst r) \<and> changes_allowed E D (sv_fs st) (sv_fs (fst r))"

lemma keeps_hello: "srv_inv E D st \<Longrightarrow> srv_keeps E D st (srv_hello E io m st)"
  by (auto simp: srv_keeps_def srv_inv_def srv_hello_def Let_def split: option.split)

lemma keeps_request_scan: "srv_inv E D st \<Longrightarrow> srv_keeps E D st (srv_request_scan io st)"
  by (auto simp: srv_keeps_def srv_inv_def srv_request_scan_def Let_def split: option.split)

lemma keeps_get_file: "srv_inv E D st \<Longrightarrow> srv_keeps E D st (srv_get_file E io m st)"
  by (auto simp: srv_keeps_def srv_inv_def srv_get_file_def serve_file_def say_def Let_def
      split: option.split sum.split fnode.split)

lemma keeps_delete_file: "srv_inv E D st \<Longrightarrow> srv_keeps E D st (srv_delete_file E io m st)"
  by (auto simp: srv_keeps_def srv_inv_def srv_delete_file_def say_def Let_def safe_join_Ok_iff
      intro!: changes_allowed_upd allowed_removal split: option.split sum.split fnode.split)

lemma keeps_put_start:
  assumes "srv_inv E D st" and "m \<in> D" and "str_field m ''t'' = T_PUT_START"
  shows "srv_keeps E D st (srv_put_start E io m st)"
proof (cases "safe_join (se_debug E) (se_root E) (str_field m ''path'')")
  case (Inr full)
  then have safe: "safe_rel (str_field m ''path'')" and full: "full = path_join (se_root E) (str_field m ''path'')"
    by (auto simp: safe_join_Ok_iff)
  let ?k = "locate (unique_tmp (sv_seq st) full)"
  have k: "?k = at_root E (unique_tmp (sv_seq st) (str_field m ''path''))" by (simp add: full unique_tmp_join [OF safe])
  let ?inc = "\<lparr>in_rel = str_field m ''path'', in_tmp = ?k, in_data = [], in_size = num_field m ''size'',
      in_hash = str_field m ''hash'', in_mtime = f64_field m ''mtimeMs'', in_received = 0\<rparr>"
  have inc: "incoming_ok E D ?inc" using safe k assms(2,3) unfolding incoming_ok_def by auto
  then have ch: "changes_allowed E D (sv_fs st) ((sv_fs st)(?k := x))" for x
    using allowed_staging [OF inc] by (intro changes_allowed_upd) simp_all
  show ?thesis using assms(1) inc ch
    by (auto simp: srv_keeps_def srv_inv_def srv_put_start_def reject_put_def say_def Let_def Inr split: option.split)
qed (use assms(1) in \<open>auto simp: srv_keeps_def srv_inv_def srv_put_start_def reject_put_def say_def Let_def\<close>)

lemma incoming_ok_more:
  "incoming_ok E D inc \<Longrightarrow>
   incoming_ok E D (inc\<lparr>in_received := in_received inc + length data, in_data := in_data inc @ data\<rparr>)"
  by (simp add: incoming_ok_def)

lemma keeps_bin: "srv_inv E D st \<Longrightarrow> srv_keeps E D st (srv_bin io data st)"
proof (cases "sv_incoming st")
  case (Some inc)
  assume "srv_inv E D st"
  then have inc: "incoming_ok E D inc" using Some by (simp add: srv_inv_def)
  have ch: "changes_allowed E D (sv_fs st) ((sv_fs st)(in_tmp inc := x))" for x
    using allowed_staging [OF inc] by (intro changes_allowed_upd) simp_all
  show ?thesis using drop_tmp_allowed [OF inc] incoming_ok_more [OF inc, of data] ch
    by (auto simp: srv_keeps_def srv_inv_def srv_bin_def Some Let_def)
qed (simp add: srv_keeps_def srv_bin_def)

lemma keeps_put_done: "srv_inv E D st \<Longrightarrow> srv_keeps E D st (srv_put_done E io st)"
proof (cases "sv_incoming st")
  case (Some inc)
  assume "srv_inv E D st"
  then have inc: "incoming_ok E D inc" using Some by (simp add: srv_inv_def)
  have ch: "put_error E io inc = None \<Longrightarrow>
      changes_allowed E D (sv_fs st) ((sv_fs st)(in_tmp inc := None, at_root E (in_rel inc) := Some (FFile t (in_data inc))))" for t
    using allowed_staging [OF inc] allowed_install [OF inc] by (intro changes_allowed_upd) simp_all
  show ?thesis using drop_tmp_allowed [OF inc] ch
    by (auto simp: srv_keeps_def srv_inv_def srv_put_done_def Some say_def Let_def safe_join_Ok_iff simp del: fun_upd_apply
        split: option.split sum.split)
qed (simp add: srv_keeps_def srv_put_done_def)

lemma srv_msg_keeps:
  assumes "srv_inv E D st" and "\<And>m. msg = Json m \<Longrightarrow> m \<in> D"
  shows "srv_keeps E D st (srv_msg E io msg st)"
proof (cases msg)
  case (Json m)
  have other: "srv_keeps E D st (st, [], v)" for v using assms(1) by (simp add: srv_keeps_def)
  show ?thesis using assms(2) [OF Json] assms(1) unfolding Json srv_msg_def srv_json_def Let_def sync_message.case
    by (simp add: keeps_hello keeps_request_scan keeps_get_file keeps_delete_file keeps_put_start keeps_put_done other)
next
  case (Bin data)
  then show ?thesis using keeps_bin [OF assms(1)] by (simp add: srv_msg_def)
qed

lemma srv_run_keeps:
  assumes "srv_inv E D st" and "\<And>io m. (io, Json m) \<in> set ms \<Longrightarrow> m \<in> D"
  shows "srv_keeps E D st (srv_run E ms st)"
  using assms
proof (induction ms arbitrary: st)
  case Nil
  then show ?case by (simp add: srv_keeps_def)
next
  case (Cons e ms)
  obtain io msg where e: "e = (io, msg)" by fastforce
  obtain st' out v where r: "srv_msg E io msg st = (st', out, v)" by (metis prod_cases3)
  have k: "srv_keeps E D st (st', out, v)" using srv_msg_keeps [OF Cons.prems(1), of msg io] Cons.prems(2) r e by fastforce
  show ?case
  proof (cases v)
    case Continue
    have "srv_keeps E D st' (srv_run E ms st')" using Cons.IH [of st'] k Cons.prems(2) by (auto simp: srv_keeps_def)
    then show ?thesis using k Continue
      by (auto simp: srv_keeps_def e r split: prod.splits intro: changes_allowed_trans)
  qed (use k in \<open>simp_all add: e r srv_keeps_def\<close>)
qed

text \<open>In read-only mode, with no upload in progress, nothing changes and the mode stays.\<close>

definition readonly_idle :: "srv_st \<Rightarrow> bool" where
  "readonly_idle st \<longleftrightarrow> sv_mode st = READONLY \<and> sv_incoming st = None"

definition readonly_keeps :: "srv_st \<Rightarrow> srv_result \<Rightarrow> bool" where
  "readonly_keeps st r \<longleftrightarrow> readonly_idle (fst r) \<and> sv_fs (fst r) = sv_fs st"

lemma readonly_handlers:
  assumes "readonly_idle st"
  shows "readonly_keeps st (srv_hello E io m st)" and "readonly_keeps st (srv_request_scan io st)"
    and "readonly_keeps st (srv_get_file E io m st)" and "readonly_keeps st (srv_delete_file E io m st)"
    and "readonly_keeps st (srv_put_start E io m st)" and "readonly_keeps st (srv_put_done E io st)"
    and "readonly_keeps st (srv_bin io data st)" and "readonly_keeps st (st, [], v)"
proof -
  have "sv_mode st \<noteq> ''bidir''" using assms by (simp add: readonly_idle_def READONLY_def)
  then show "readonly_keeps st (srv_hello E io m st)" using assms
    by (auto simp: readonly_keeps_def readonly_idle_def srv_hello_def Let_def split: option.split)
  show "readonly_keeps st (srv_request_scan io st)" using assms
    by (auto simp: readonly_keeps_def readonly_idle_def srv_request_scan_def Let_def split: option.split)
  show "readonly_keeps st (srv_get_file E io m st)" using assms
    by (auto simp: readonly_keeps_def readonly_idle_def srv_get_file_def serve_file_def say_def Let_def
        split: option.split sum.split fnode.split)
qed (use assms in \<open>simp_all add: readonly_keeps_def readonly_idle_def srv_delete_file_def srv_put_start_def srv_put_done_def
    srv_bin_def reject_put_def say_def Let_def\<close>)

lemma readonly_msg: "readonly_idle st \<Longrightarrow> readonly_keeps st (srv_msg E io msg st)"
  by (simp add: srv_msg_def srv_json_def readonly_handlers Let_def split: sync_message.split)

lemma readonly_run: "readonly_idle st \<Longrightarrow> sv_fs (fst (srv_run E ms st)) = sv_fs st"
proof (induction ms arbitrary: st)
  case (Cons e ms)
  obtain io msg where e: "e = (io, msg)" by fastforce
  obtain st' out v where r: "srv_msg E io msg st = (st', out, v)" by (metis prod_cases3)
  have "readonly_idle st'" "sv_fs st' = sv_fs st" using readonly_msg [OF Cons.prems, of E io msg] r by (simp_all add: readonly_keeps_def)
  then show ?case using Cons.IH [of st'] by (cases v) (auto simp: e r split: prod.splits)
qed simp

lemma staging_last:
  assumes "safe_rel rel"
  shows "ends_with ''.sync-tmp'' (last (at_root E (unique_tmp n rel)))"
proof -
  have "pieces (unique_tmp n rel) = butlast (pieces rel) @ [last (pieces rel) @ tmp_ending n]"
    unfolding pieces_def unique_tmp_alt by (rule split_where_extend) (auto dest: tmp_ending_chars)
  then show ?thesis using at_root_safe [OF unique_tmp_safe [OF assms]] by (simp add: ends_with_iff tmp_ending_def)
qed

lemma allowed_change_below: "allowed_change E D k x \<Longrightarrow> \<exists>rest. rest \<noteq> [] \<and> k = locate (se_root E) @ rest"
  by (auto simp: allowed_change_def at_root_safe unique_tmp_safe pieces_def)

lemma allowed_change_kinds:
  assumes "allowed_change E D k x"
  shows "ends_with ''.sync-tmp'' (last k) \<or> x = None \<or>
    (\<exists>m \<in> D. \<exists>t c. x = Some (FFile t c) \<and> str_field m ''t'' = T_PUT_START \<and> k = at_root E (str_field m ''path'') \<and>
       num_field m ''size'' = length c \<and> (str_field m ''hash'' = [] \<or> str_field m ''hash'' = se_sha E c))"
  using assms staging_last unfolding allowed_change_def by blast


section \<open>Uploads\<close>

definition good_io :: "srv_io \<Rightarrow> bool" where
  "good_io io \<longleftrightarrow> \<not> io_locked io \<and> io_mkdir io \<and> io_create io = None \<and> io_open io \<and> io_write io \<and> io_flush io = None \<and>
     io_rename io \<and> io_utime io \<and> io_remove io = None \<and> io_unlink io \<and> io_store io"

text \<open>The server in the middle of an upload of which \<open>got\<close> has arrived.\<close>

definition uploading :: "srv_env \<Rightarrow> srv_st \<Rightarrow> string \<Rightarrow> string list \<Rightarrow> nat \<Rightarrow> string \<Rightarrow> real \<Rightarrow> bytes \<Rightarrow> real \<Rightarrow> srv_st" where
  "uploading E st path tmp n h t got now = st
     \<lparr>sv_fs := (sv_fs st)(tmp := Some (FFile now got)),
      sv_incoming := Some \<lparr>in_rel = path, in_tmp = tmp, in_data = got, in_size = n, in_hash = h, in_mtime = t, in_received = length got\<rparr>\<rparr>"

definition matches :: "srv_env \<Rightarrow> nat \<Rightarrow> string \<Rightarrow> bytes \<Rightarrow> bool" where
  "matches E n h content \<longleftrightarrow> length content = n \<and> (h = [] \<or> se_sha E content = h)"

definition installed :: "srv_env \<Rightarrow> srv_st \<Rightarrow> string \<Rightarrow> string list \<Rightarrow> nat \<Rightarrow> string \<Rightarrow> real \<Rightarrow> bytes \<Rightarrow> srv_st" where
  "installed E st path tmp n h t content = st
     \<lparr>sv_incoming := None,
      sv_fs := (if matches E n h content then (sv_fs st)(tmp := None, at_root E path := Some (FFile (stored_time t) content))
                else (sv_fs st)(tmp := None))\<rparr>"

lemma put_done_uploading:
  assumes "good_io io" and "safe_rel path" and "sv_fs st (at_root E path) \<noteq> Some FNotFile"
    and "tmp \<noteq> at_root E path"
  shows "\<exists>err. srv_put_done E io (uploading E st path tmp n h t got now) =
    (installed E st path tmp n h t got, [Json (put_ack path (matches E n h got) err)], Continue)"
proof -
  have sj: "safe_join (se_debug E) (se_root E) path = Ok (path_join (se_root E) path)"
    using assms(2) by (simp add: safe_join_Ok_iff)
  show ?thesis using assms
    by (auto simp: srv_put_done_def uploading_def installed_def put_error_def matches_def good_io_def drop_tmp_def say_def sj Let_def)
qed

lemma bins_uploading:
  assumes "good_io io" and "n \<le> MAX_FILE_BYTES" and "length got \<le> n" and "safe_rel path"
    and "sv_fs st (at_root E path) \<noteq> Some FNotFile" and "tmp \<noteq> at_root E path"
  shows "\<exists>err. srv_run E (map (\<lambda>b. (io, Bin b)) bs @ [(io, Json (put_done path))]) (uploading E st path tmp n h t got now) =
    (installed E st path tmp n h t (got @ concat bs),
     [Json (put_ack path (matches E n h (got @ concat bs)) err)], Continue)"
  using assms(3)
proof (induction bs arbitrary: got now)
  case Nil
  obtain err where "srv_put_done E io (uploading E st path tmp n h t got now) =
      (installed E st path tmp n h t got, [Json (put_ack path (matches E n h got) err)], Continue)"
    using put_done_uploading [OF assms(1,4,5,6)] by blast
  then show ?case by (auto simp: srv_msg_def srv_json_def T_defs)
next
  case (Cons b bs)
  show ?case
  proof (cases "length got + length b \<le> n")
    case True
    have "srv_bin io b (uploading E st path tmp n h t got now) =
        (uploading E st path tmp n h t (got @ b) (real (io_now io)), [], Continue)"
      using assms(1,2) True by (simp add: srv_bin_def uploading_def good_io_def Let_def)
    then show ?thesis using Cons.IH [of "got @ b" "real (io_now io)"] True by (auto simp: srv_msg_def)
  next
    case False
    have nomatch: "\<not> matches E n h (got @ b @ concat bs)" using False by (simp add: matches_def)
    let ?st = "installed E st path tmp n h t (got @ b @ concat bs)"
    have aborted: "srv_bin io b (uploading E st path tmp n h t got now) =
        (?st, [Json (put_ack path False ''aborted mid-transfer'')], Continue)"
      using assms(1,2) False nomatch by (simp add: srv_bin_def uploading_def installed_def good_io_def drop_tmp_def Let_def)
    have rest: "srv_run E (map (\<lambda>b. (io, Bin b)) cs @ [(io, Json (put_done path))]) ?st = (?st, [], Continue)" for cs
      by (induction cs) (simp_all add: srv_msg_def srv_bin_def srv_json_def srv_put_done_def installed_def T_defs)
    show ?thesis using aborted rest [of bs] nomatch by (auto simp: srv_msg_def)
  qed
qed

text \<open>The messages of one upload.\<close>

definition upload_msgs :: "string \<Rightarrow> nat \<Rightarrow> string \<Rightarrow> real \<Rightarrow> bytes list \<Rightarrow> sync_message list" where
  "upload_msgs path n h t bs = Json (put_start path n h t) # map Bin bs @ [Json (put_done path)]"

lemma unique_tmp_differs: "safe_rel path \<Longrightarrow> at_root E (unique_tmp n path) \<noteq> at_root E path"
  using at_root_inject [OF unique_tmp_safe [of path n], of path E] by (simp add: unique_tmp_alt tmp_ending_def)

lemma upload_run:
  assumes "good_io io" and "sv_mode st \<noteq> READONLY" and "safe_rel path" and "n \<le> MAX_FILE_BYTES"
    and "sv_fs st (at_root E path) \<noteq> Some FNotFile"
  shows "\<exists>err. srv_run E (map (\<lambda>m. (io, m)) (upload_msgs path n h t bs)) st =
    (installed E (st\<lparr>sv_seq := Suc (sv_seq st)\<rparr>) path (at_root E (unique_tmp (sv_seq st) path)) n h t (concat bs),
     [Json (put_ack path (matches E n h (concat bs)) err)], Continue)"
proof -
  let ?tmp = "at_root E (unique_tmp (sv_seq st) path)"
  let ?st = "st\<lparr>sv_seq := Suc (sv_seq st)\<rparr>"
  have sj: "safe_join (se_debug E) (se_root E) path = Ok (path_join (se_root E) path)"
    using assms(3) by (simp add: safe_join_Ok_iff)
  have n: "num_field (put_start path n h t) ''size'' = n" using assms(4) by (intro msg_numbers) (simp add: MAX_FILE_BYTES_def)
  have "locate (unique_tmp (sv_seq st) (path_join (se_root E) path)) = ?tmp"
    by (simp add: unique_tmp_join [OF assms(3)])
  then have start: "srv_msg E io (Json (put_start path n h t)) st = (uploading E ?st path ?tmp n h t [] (real (io_now io)), [], Continue)"
    using assms(1,2,4) by (simp add: srv_msg_def srv_json_def T_defs srv_put_start_def sj n good_io_def uploading_def Let_def)
  have tmp: "?tmp \<noteq> at_root E path" by (rule unique_tmp_differs [OF assms(3)])
  obtain err where run: "srv_run E (map (\<lambda>b. (io, Bin b)) bs @ [(io, Json (put_done path))])
      (uploading E ?st path ?tmp n h t [] (real (io_now io))) =
      (installed E ?st path ?tmp n h t (concat bs), [Json (put_ack path (matches E n h (concat bs)) err)], Continue)"
    using bins_uploading [OF assms(1,4) _ assms(3) _ tmp, of "[]" ?st bs h t "real (io_now io)"] assms(5) by auto
  show ?thesis using start run by (auto simp: upload_msgs_def comp_def)
qed

text \<open>
  C16.  An upload gets its verdict.  To a server that is not read-only, with a safe path at which
  nothing but a file stands and system calls that succeed, the messages of an upload, however the
  content is cut, produce exactly one answer, the acknowledgement, which is positive exactly when the
  content has the declared size and, if one was given, the declared hash.  Then the file is installed with
  the content and the declared time; otherwise the file at the path is as before.  The staging file
  is gone in both cases.
\<close>

theorem upload_verdict:
  assumes "good_io io" and "sv_mode st \<noteq> READONLY" and "safe_rel path" and "n \<le> MAX_FILE_BYTES"
    and "sv_fs st (at_root E path) \<noteq> Some FNotFile"
  shows "\<exists>err st'. srv_run E (map (\<lambda>m. (io, m)) (upload_msgs path n h t bs)) st =
      (st', [Json (put_ack path (matches E n h (concat bs)) err)], Continue) \<and>
    sv_incoming st' = None \<and> sv_mode st' = sv_mode st \<and>
    sv_fs st' (at_root E (unique_tmp (sv_seq st) path)) = None \<and>
    sv_fs st' (at_root E path) =
      (if matches E n h (concat bs) then Some (FFile (stored_time t) (concat bs)) else sv_fs st (at_root E path)) \<and>
    (\<forall>k. k \<noteq> at_root E path \<and> k \<noteq> at_root E (unique_tmp (sv_seq st) path) \<longrightarrow> sv_fs st' k = sv_fs st k)"
  using upload_run [OF assms, of h t bs] unique_tmp_differs [OF assms(3), of E "sv_seq st"] by (fastforce simp: installed_def)

text \<open>A session for the examples.\<close>

definition demo_srv :: srv_env where
  "demo_srv = \<lparr>se_root = ''/r'', se_sha = (\<lambda>_. ''5a''), se_debug = id\<rparr>"

definition demo_io :: srv_io where
  "demo_io = \<lparr>io_now = 9000, io_scan = None, io_locked = False, io_mkdir = True, io_create = None, io_open = True, io_write = True,
     io_flush = None, io_rename = True, io_utime = True, io_remove = None, io_unlink = True, io_store = True\<rparr>"

abbreviation demo_st :: srv_st where
  "demo_st \<equiv> srv_start ''bidir'' 0 Map.empty [] NoStore"

lemma demo_good: "good_io demo_io"
  by (simp add: good_io_def demo_io_def)

lemma demo_safe: "safe_rel ''d/x''"
  by (simp add: safe_rel_def unsafe_component_def)

lemma demo_location: "at_root demo_srv ''d/x'' = [''/'', ''r'', ''d'', ''x'']"
  using at_root_safe [OF demo_safe, of demo_srv] by (simp add: demo_srv_def locate_def path_components_def pieces_def plain_piece_def)

theorem upload_verdict_witness:
  "\<exists>err st'. srv_run demo_srv (map (\<lambda>m. (demo_io, m)) (upload_msgs ''d/x'' 3 ''5a'' 5000 [[1], [2, 3]])) demo_st =
      (st', [Json (put_ack ''d/x'' True err)], Continue) \<and>
    sv_fs st' [''/'', ''r'', ''d'', ''x''] = Some (FFile (stored_time 5000) [1, 2, 3])"
proof -
  have "matches demo_srv 3 ''5a'' [1, 2, 3]" by (simp add: matches_def demo_srv_def)
  then show ?thesis
    using upload_verdict [OF demo_good _ demo_safe, of demo_st 3 demo_srv "''5a''" 5000 "[[1], [2, 3]]"]
    by (fastforce simp: srv_start_def READONLY_def MAX_FILE_BYTES_def demo_location)
qed


text \<open>The names of the engine's own files are ordinary paths to the server: it accepts an upload to them.\<close>

lemma store_upload_accepted:
  assumes "good_io io" and "sv_mode st \<noteq> READONLY" and "n \<le> MAX_FILE_BYTES"
  shows "is_sync_metadata STORE_FILE \<and> snd (srv_msg E io (Json (put_start STORE_FILE n h t)) st) = ([], Continue) \<and>
    (\<exists>inc. sv_incoming (fst (srv_msg E io (Json (put_start STORE_FILE n h t)) st)) = Some inc \<and> in_rel inc = STORE_FILE)"
proof -
  have "safe_rel STORE_FILE" by (simp add: safe_rel_def unsafe_component_def STORE_FILE_def)
  then have sj: "safe_join (se_debug E) (se_root E) STORE_FILE = Ok (path_join (se_root E) STORE_FILE)" by (simp add: safe_join_Ok_iff)
  have "num_field (put_start STORE_FILE n h t) ''size'' = n" using assms(3) by (intro msg_numbers) (simp add: MAX_FILE_BYTES_def)
  then show ?thesis using assms
    by (simp add: is_sync_metadata_def srv_msg_def srv_json_def T_defs srv_put_start_def sj good_io_def Let_def)
qed

end
