(* ===== verification/SyncDiff.thy ===== *)
theory SyncDiff
  imports SyncServer
begin

text \<open>
  The client's view of a synchronisation pass up to its plan: \<open>run_sync_client\<close> of
  \<open>apps/krymux-sync/src/sync/mod.rs\<close> from the handshake to the race guard.

  A \<open>HashMap\<close> from text is represented as the ordered maps are, or, where it is only looked up, as a map;
  collecting pairs into one keeps the last.  Conversions of times to \<open>u64\<close> cut off towards zero.  The model is that of a Unix
  build, in which every path is representable.

  Lemmas: the client rebuilds exactly the file list and tombstones the server streamed; what is in
  a plan and why, that its parts do not overlap, and that a deletion the client asks for is one the
  server grants.
\<close>

section \<open>Collecting the server's list\<close>

definition MAX_SCAN_FILES :: nat where "MAX_SCAN_FILES = 1000000"

record collected =
  co_files :: "file_entry list"
  co_tombs :: "nat btree"
  co_knows :: bool
  co_scan_done :: bool
  co_tombs_done :: bool

text \<open>The entries of a JSON object that are \<open>u64\<close> numbers, inserted into the map.\<close>

definition insert_tomb :: "string \<times> json \<Rightarrow> nat btree \<Rightarrow> nat btree" where
  "insert_tomb e tombs = (case as_u64 (snd e) of Some ms \<Rightarrow> btree_insert (fst e) (unat ms) tombs | None \<Rightarrow> tombs)"

text \<open>What \<open>scan_ready\<close> says: the legacy inline map, the promise of a \<open>tombstone_end\<close>, the count.\<close>

definition read_scan_ready :: "json \<Rightarrow> (string, collected) result" where
  "read_scan_ready m =
     (let inline = Option.bind (json_get m ''tombstones'') as_object;
          tombs = (case inline of Some es \<Rightarrow> fold insert_tomb es [] | None \<Rightarrow> []);
          await_end = (case json_get m ''tombstones'' of Some v \<Rightarrow> as_object v = None | None \<Rightarrow> False)
      in if num_field m ''count'' > MAX_SCAN_FILES then Err ''server file list exceeds cap (1000000)''
         else Ok \<lparr>co_files = [], co_tombs = tombs, co_knows = (inline \<noteq> None), co_scan_done = False, co_tombs_done = \<not> await_end\<rparr>)"

fun collect_files :: "json list \<Rightarrow> file_entry list \<Rightarrow> file_entry list option" where
  "collect_files [] files = Some files"
| "collect_files (f # fs) files =
     (if length files \<ge> MAX_SCAN_FILES then None
      else collect_files fs (case entry_of_json f of Some e \<Rightarrow> files @ [e] | None \<Rightarrow> files))"

fun collect_tombs :: "(string \<times> json) list \<Rightarrow> nat btree \<Rightarrow> nat btree option" where
  "collect_tombs [] tombs = Some tombs"
| "collect_tombs (e # es) tombs =
     (let tombs = insert_tomb e tombs in
      if length tombs > MAX_SCAN_FILES then None else collect_tombs es tombs)"

definition collect_msg :: "json \<Rightarrow> collected \<Rightarrow> collected option" where
  "collect_msg m c =
     (let t = str_field m ''t'' in
      if t = T_SCAN_BATCH then
        (case as_array (json_index m ''files'') of
           Some fs \<Rightarrow> map_option (\<lambda>files. c\<lparr>co_files := files\<rparr>) (collect_files fs (co_files c))
         | None \<Rightarrow> Some c)
      else if t = T_SCAN_END then Some (c\<lparr>co_scan_done := True\<rparr>)
      else if t = T_TOMBSTONE_BATCH then
        (case Option.bind (json_get m ''entries'') as_object of
           Some es \<Rightarrow> map_option (\<lambda>tombs. c\<lparr>co_tombs := tombs\<rparr>) (collect_tombs es (co_tombs c))
         | None \<Rightarrow> Some c)
      else if t = T_TOMBSTONE_END then Some (c\<lparr>co_tombs_done := True, co_knows := True\<rparr>)
      else Some c)"

text \<open>
  The loop: \<open>None\<close> when the pass fails (a binary message, a list beyond the cap, or the messages end
  before both terminators); otherwise what was collected and the messages not yet read.
\<close>

fun collect :: "sync_message list \<Rightarrow> collected \<Rightarrow> (collected \<times> sync_message list) option" where
  "collect [] c = None"
| "collect (Bin b # ms) c = None"
| "collect (Json m # ms) c =
     (case collect_msg m c of
        None \<Rightarrow> None
      | Some c' \<Rightarrow> if co_scan_done c' \<and> co_tombs_done c' then Some (c', ms) else collect ms c')"

section \<open>The diff\<close>

record diff_in =
  di_mode :: string
  di_knows :: bool
  di_offset :: real \<comment> \<open>server clock minus client clock\<close>
  di_server :: "file_entry list"
  di_client :: "file_entry list"
  di_local_tombs :: "nat btree"
  di_server_tombs :: "nat btree"

record plan =
  pl_downloads :: "file_entry list"
  pl_uploads :: "file_entry list"
  pl_server_deletes :: "(string \<times> nat) list"
  pl_local_deletes :: "string list"
  pl_conflicts :: nat

definition entry_map :: "file_entry list \<Rightarrow> string \<rightharpoonup> file_entry" where
  "entry_map fs = map_of (rev (map (\<lambda>f. (fe_path f, f)) fs))"

definition no_plan :: plan where
  "no_plan = \<lparr>pl_downloads = [], pl_uploads = [], pl_server_deletes = [], pl_local_deletes = [], pl_conflicts = 0\<rparr>"

text \<open>One entry of the server's list.\<close>

definition diff_server :: "diff_in \<Rightarrow> file_entry \<Rightarrow> plan \<Rightarrow> plan" where
  "diff_server d sf p =
     (case fe_hash sf of
        None \<Rightarrow> p
      | Some sh \<Rightarrow>
          (case entry_map (di_client d) (fe_path sf) of
             None \<Rightarrow>
               (case (if di_knows d \<and> di_mode d \<noteq> READONLY then map_of (di_local_tombs d) (fe_path sf) else None) of
                  Some ts \<Rightarrow>
                    if real ts > fe_mtime sf - di_offset d
                    then p\<lparr>pl_server_deletes := pl_server_deletes p @ [(fe_path sf, ts)]\<rparr>
                    else p\<lparr>pl_downloads := pl_downloads p @ [sf]\<rparr>
                | None \<Rightarrow> p\<lparr>pl_downloads := pl_downloads p @ [sf]\<rparr>)
           | Some cf \<Rightarrow>
               (case fe_hash cf of
                  None \<Rightarrow> p
                | Some ch \<Rightarrow>
                    if sh = ch then p
                    else
                      let adj = fe_mtime sf - di_offset d in
                      if di_mode d = READONLY \<or> adj > fe_mtime cf + 1 then p\<lparr>pl_downloads := pl_downloads p @ [sf]\<rparr>
                      else if fe_mtime cf > adj + 1 then p\<lparr>pl_uploads := pl_uploads p @ [cf]\<rparr>
                      else p\<lparr>pl_conflicts := Suc (pl_conflicts p)\<rparr>)))"

text \<open>One entry of the client's list.\<close>

definition diff_client :: "diff_in \<Rightarrow> file_entry \<Rightarrow> plan \<Rightarrow> plan" where
  "diff_client d cf p =
     (if entry_map (di_server d) (fe_path cf) \<noteq> None then p
      else
        case map_of (di_server_tombs d) (fe_path cf) of
          Some sts \<Rightarrow>
            if real sts - di_offset d > fe_mtime cf
            then p\<lparr>pl_local_deletes := pl_local_deletes p @ [fe_path cf]\<rparr>
            else if fe_hash cf \<noteq> None then p\<lparr>pl_uploads := pl_uploads p @ [cf]\<rparr> else p
        | None \<Rightarrow> if fe_hash cf \<noteq> None then p\<lparr>pl_uploads := pl_uploads p @ [cf]\<rparr> else p)"

definition diff :: "diff_in \<Rightarrow> plan" where
  "diff d =
     (let p = fold (diff_server d) (di_server d) no_plan in
      if di_mode d \<noteq> READONLY then fold (diff_client d) (di_client d) p else p)"

text \<open>The guard against deletions since the diff.\<close>

definition race_guard :: "real \<Rightarrow> nat btree \<Rightarrow> file_entry list \<Rightarrow> file_entry list" where
  "race_guard off fresh downloads =
     filter (\<lambda>dl. case map_of fresh (fe_path dl) of Some ts \<Rightarrow> \<not> real ts > fe_mtime dl - off | None \<Rightarrow> True) downloads"

text \<open>The time sent with a deletion, in the server's clock; the time recorded for a local one.\<close>

definition ts_to_server :: "real \<Rightarrow> nat \<Rightarrow> nat" where
  "ts_to_server off ts = nat \<lfloor>max (real ts + off) 0\<rfloor>"

definition ts_to_client :: "real \<Rightarrow> nat \<Rightarrow> nat" where
  "ts_to_client off sts = nat \<lfloor>max (real sts - off) 0\<rfloor>"

section \<open>The rule a plan implements\<close>

text \<open>
  Last writer wins, path by path: what to do with a path given the two entries, if any, the time the
  client remembers deleting it and the time the server does.
\<close>

datatype decision = DLeave | DDownload | DUpload | DServerDelete nat | DLocalDelete | DConflict

definition decide_server_only :: "diff_in \<Rightarrow> file_entry \<Rightarrow> nat option \<Rightarrow> decision" where
  "decide_server_only d sf lt =
     (if fe_hash sf = None then DLeave
      else case lt of
        Some ts \<Rightarrow> if di_knows d \<and> di_mode d \<noteq> READONLY \<and> real ts + di_offset d > fe_mtime sf then DServerDelete ts else DDownload
      | None \<Rightarrow> DDownload)"

definition decide_client_only :: "diff_in \<Rightarrow> file_entry \<Rightarrow> nat option \<Rightarrow> decision" where
  "decide_client_only d cf st =
     (if di_mode d = READONLY then DLeave
      else if (\<exists>sts \<in> set_option st. real sts > fe_mtime cf + di_offset d) then DLocalDelete
      else if fe_hash cf = None then DLeave else DUpload)"

definition decide_both :: "diff_in \<Rightarrow> file_entry \<Rightarrow> file_entry \<Rightarrow> decision" where
  "decide_both d sf cf =
     (if fe_hash sf = None \<or> fe_hash cf = None \<or> fe_hash sf = fe_hash cf then DLeave
      else if di_mode d = READONLY \<or> fe_mtime sf > fe_mtime cf + di_offset d + 1 then DDownload
      else if fe_mtime cf + di_offset d > fe_mtime sf + 1 then DUpload
      else DConflict)"

definition decide :: "diff_in \<Rightarrow> string \<Rightarrow> decision" where
  "decide d p =
     (case (entry_map (di_server d) p, entry_map (di_client d) p) of
        (None, None) \<Rightarrow> DLeave
      | (Some sf, None) \<Rightarrow> decide_server_only d sf (map_of (di_local_tombs d) p)
      | (None, Some cf) \<Rightarrow> decide_client_only d cf (map_of (di_server_tombs d) p)
      | (Some sf, Some cf) \<Rightarrow> decide_both d sf cf)"

lemma entry_map_mem: "distinct (map fe_path fs) \<Longrightarrow> f \<in> set fs \<Longrightarrow> entry_map fs (fe_path f) = Some f"
  by (simp add: entry_map_def rev_map map_of_eq_Some_iff distinct_map inj_on_def comp_def rev_swap)

lemma entry_map_Some: "entry_map fs p = Some f \<Longrightarrow> f \<in> set fs \<and> fe_path f = p"
  by (auto simp: entry_map_def dest: map_of_SomeD)

text \<open>What the two loops do with an entry is what is decided for its path.\<close>

definition act_server :: "diff_in \<Rightarrow> file_entry \<Rightarrow> plan \<Rightarrow> plan" where
  "act_server d sf p =
     (case decide d (fe_path sf) of
        DDownload \<Rightarrow> p\<lparr>pl_downloads := pl_downloads p @ [sf]\<rparr>
      | DUpload \<Rightarrow> p\<lparr>pl_uploads := pl_uploads p @ [the (entry_map (di_client d) (fe_path sf))]\<rparr>
      | DServerDelete ts \<Rightarrow> p\<lparr>pl_server_deletes := pl_server_deletes p @ [(fe_path sf, ts)]\<rparr>
      | DConflict \<Rightarrow> p\<lparr>pl_conflicts := Suc (pl_conflicts p)\<rparr>
      | _ \<Rightarrow> p)"

definition act_client :: "diff_in \<Rightarrow> file_entry \<Rightarrow> plan \<Rightarrow> plan" where
  "act_client d cf p =
     (if entry_map (di_server d) (fe_path cf) \<noteq> None then p
      else case decide d (fe_path cf) of
        DUpload \<Rightarrow> p\<lparr>pl_uploads := pl_uploads p @ [cf]\<rparr>
      | DLocalDelete \<Rightarrow> p\<lparr>pl_local_deletes := pl_local_deletes p @ [fe_path cf]\<rparr>
      | _ \<Rightarrow> p)"

lemma diff_server_act:
  assumes "distinct (map fe_path (di_server d))" and "sf \<in> set (di_server d)"
  shows "diff_server d sf p = act_server d sf p"
proof -
  have s: "entry_map (di_server d) (fe_path sf) = Some sf" by (rule entry_map_mem [OF assms])
  show ?thesis
  proof (cases "entry_map (di_client d) (fe_path sf)")
    case None
    then show ?thesis by (auto simp: diff_server_def act_server_def decide_def s decide_server_only_def algebra_simps split: option.split)
  next
    case (Some cf)
    then show ?thesis by (auto simp: diff_server_def act_server_def decide_def s decide_both_def algebra_simps Let_def split: option.split)
  qed
qed

lemma diff_client_act:
  assumes "distinct (map fe_path (di_client d))" and "cf \<in> set (di_client d)" and "di_mode d \<noteq> READONLY"
  shows "diff_client d cf p = act_client d cf p"
proof -
  have c: "entry_map (di_client d) (fe_path cf) = Some cf" by (rule entry_map_mem [OF assms(1,2)])
  show ?thesis using assms(3)
    by (auto simp: diff_client_def act_client_def decide_def c decide_client_only_def algebra_simps split: option.split)
qed

text \<open>The lists of a plan, as selections from the two file lists.\<close>

abbreviation decided :: "diff_in \<Rightarrow> decision \<Rightarrow> file_entry \<Rightarrow> bool" where
  "decided d a f \<equiv> decide d (fe_path f) = a"

abbreviation only_here :: "diff_in \<Rightarrow> file_entry \<Rightarrow> bool" where
  "only_here d f \<equiv> entry_map (di_server d) (fe_path f) = None"

definition server_delete_of :: "diff_in \<Rightarrow> file_entry \<Rightarrow> (string \<times> nat) option" where
  "server_delete_of d f = (case decide d (fe_path f) of DServerDelete ts \<Rightarrow> Some (fe_path f, ts) | _ \<Rightarrow> None)"

lemma fold_act_server:
  "fold (act_server d) fs p =
     p\<lparr>pl_downloads := pl_downloads p @ filter (decided d DDownload) fs,
       pl_uploads := pl_uploads p @ map (\<lambda>f. the (entry_map (di_client d) (fe_path f))) (filter (decided d DUpload) fs),
       pl_server_deletes := pl_server_deletes p @ filter_map (server_delete_of d) fs,
       pl_conflicts := pl_conflicts p + length (filter (decided d DConflict) fs)\<rparr>"
  by (induction fs arbitrary: p) (simp_all add: act_server_def server_delete_of_def split: decision.split)

lemma fold_act_client:
  "fold (act_client d) fs p =
     p\<lparr>pl_uploads := pl_uploads p @ filter (\<lambda>f. only_here d f \<and> decided d DUpload f) fs,
       pl_local_deletes := pl_local_deletes p @ map fe_path (filter (\<lambda>f. only_here d f \<and> decided d DLocalDelete f) fs)\<rparr>"
  by (induction fs arbitrary: p) (simp_all add: act_client_def split: decision.split)

lemma fold_cong_set: "(\<And>x p. x \<in> set xs \<Longrightarrow> f x p = g x p) \<Longrightarrow> fold f xs p = fold g xs p"
  by (induction xs arbitrary: p) auto

definition lists_ok :: "diff_in \<Rightarrow> bool" where
  "lists_ok d \<longleftrightarrow> distinct (map fe_path (di_server d)) \<and> distinct (map fe_path (di_client d))"

lemma decide_readonly: "di_mode d = READONLY \<Longrightarrow> only_here d f \<Longrightarrow> decide d (fe_path f) = DLeave"
  by (simp add: decide_def decide_client_only_def split: option.split)

lemma diff_lists:
  assumes "lists_ok d"
  shows "pl_downloads (diff d) = filter (decided d DDownload) (di_server d)"
    and "pl_uploads (diff d) = map (\<lambda>f. the (entry_map (di_client d) (fe_path f))) (filter (decided d DUpload) (di_server d)) @
      filter (\<lambda>f. only_here d f \<and> decided d DUpload f) (di_client d)"
    and "pl_server_deletes (diff d) = filter_map (server_delete_of d) (di_server d)"
    and "pl_local_deletes (diff d) = map fe_path (filter (\<lambda>f. only_here d f \<and> decided d DLocalDelete f) (di_client d))"
    and "pl_conflicts (diff d) = length (filter (decided d DConflict) (di_server d))"
proof -
  have s: "fold (diff_server d) (di_server d) p = fold (act_server d) (di_server d) p" for p
    using assms by (intro fold_cong_set diff_server_act) (auto simp: lists_ok_def)
  have c: "di_mode d \<noteq> READONLY \<Longrightarrow> fold (diff_client d) (di_client d) p = fold (act_client d) (di_client d) p" for p
    using assms by (intro fold_cong_set diff_client_act) (auto simp: lists_ok_def)
  have ro: "filter (\<lambda>f. only_here d f \<and> decided d a f) (di_client d) = []" if "di_mode d = READONLY" "a \<noteq> DLeave" for a
    using that decide_readonly by (auto simp: filter_empty_conv)
  note parts = diff_def Let_def s c fold_act_server fold_act_client no_plan_def ro
  show "pl_downloads (diff d) = filter (decided d DDownload) (di_server d)" by (simp add: parts)
  show "pl_uploads (diff d) = map (\<lambda>f. the (entry_map (di_client d) (fe_path f))) (filter (decided d DUpload) (di_server d)) @
      filter (\<lambda>f. only_here d f \<and> decided d DUpload f) (di_client d)"
    by (simp add: parts)
  show "pl_server_deletes (diff d) = filter_map (server_delete_of d) (di_server d)" by (simp add: parts)
  show "pl_local_deletes (diff d) = map fe_path (filter (\<lambda>f. only_here d f \<and> decided d DLocalDelete f) (di_client d))"
    by (simp add: parts)
  show "pl_conflicts (diff d) = length (filter (decided d DConflict) (di_server d))" by (simp add: parts)
qed

lemma decide_sides:
  "decide d p = DDownload \<Longrightarrow> entry_map (di_server d) p \<noteq> None"
  "decide d p = DServerDelete ts \<Longrightarrow> entry_map (di_server d) p \<noteq> None \<and> entry_map (di_client d) p = None"
  "decide d p = DConflict \<Longrightarrow> entry_map (di_server d) p \<noteq> None \<and> entry_map (di_client d) p \<noteq> None"
  "decide d p = DUpload \<Longrightarrow> entry_map (di_client d) p \<noteq> None"
  "decide d p = DLocalDelete \<Longrightarrow> entry_map (di_client d) p \<noteq> None \<and> entry_map (di_server d) p = None"
  by (auto simp: decide_def decide_server_only_def decide_client_only_def decide_both_def split: option.splits if_splits)

lemma paths_decided:
  assumes "distinct (map fe_path fs)" and "\<And>p. decide d p = a \<Longrightarrow> entry_map fs p \<noteq> None"
  shows "fe_path ` set (filter (decided d a) fs) = {p. decide d p = a}"
  using assms(2) entry_map_Some by fastforce

lemma entry_map_iff: "distinct (map fe_path fs) \<Longrightarrow> entry_map fs (fe_path f) = Some f \<longleftrightarrow> f \<in> set fs"
  using entry_map_mem entry_map_Some by blast

lemma distinct_filter_map_fst:
  assumes "distinct (map g xs)" and "\<And>x y. h x = Some y \<Longrightarrow> fst y = g x"
  shows "distinct (map fst (filter_map h xs))"
  using assms(1)
proof (induction xs)
  case (Cons x xs)
  show ?case
  proof (cases "h x")
    case (Some y)
    have "fst z \<noteq> fst y" if "z \<in> set (filter_map h xs)" for z
    proof -
      from that obtain x' where "x' \<in> set xs" "h x' = Some z" by (auto simp: set_filter_map)
      then have "fst z = g x'" "g x' \<in> g ` set xs" using assms(2) by blast+
      then have "fst z = g x'" "g x' \<noteq> g x" using Cons.prems by auto
      then show ?thesis using assms(2) [OF Some] by simp
    qed
    then show ?thesis using Cons Some by force
  qed (use Cons in simp)
qed simp

lemma upload_paths:
  assumes "lists_ok d"
  shows "map fe_path (pl_uploads (diff d)) =
    map fe_path (filter (decided d DUpload) (di_server d)) @ map fe_path (filter (\<lambda>f. only_here d f \<and> decided d DUpload f) (di_client d))"
  using decide_sides(4) entry_map_Some by (fastforce simp: diff_lists [OF assms])

lemma upload_entries:
  assumes "lists_ok d"
  shows "set (pl_uploads (diff d)) = {f. decide d (fe_path f) = DUpload \<and> entry_map (di_client d) (fe_path f) = Some f}"
proof (intro set_eqI iffI)
  fix f
  assume "f \<in> set (pl_uploads (diff d))"
  then consider sf where "sf \<in> set (di_server d)" "decide d (fe_path sf) = DUpload" "f = the (entry_map (di_client d) (fe_path sf))"
    | "f \<in> set (di_client d)" "decide d (fe_path f) = DUpload"
    by (auto simp: diff_lists [OF assms])
  then show "f \<in> {f. decide d (fe_path f) = DUpload \<and> entry_map (di_client d) (fe_path f) = Some f}"
  proof cases
    case 1
    then obtain cf where "entry_map (di_client d) (fe_path sf) = Some cf" using decide_sides(4) by blast
    then show ?thesis using 1 entry_map_Some by fastforce
  next
    case 2
    then show ?thesis using assms entry_map_mem by (simp add: lists_ok_def)
  qed
next
  fix f
  assume f: "f \<in> {f. decide d (fe_path f) = DUpload \<and> entry_map (di_client d) (fe_path f) = Some f}"
  show "f \<in> set (pl_uploads (diff d))"
  proof (cases "entry_map (di_server d) (fe_path f)")
    case None
    moreover have "f \<in> set (di_client d)" using f entry_map_Some by blast
    ultimately have "f \<in> set (filter (\<lambda>f. only_here d f \<and> decided d DUpload f) (di_client d))" using f by simp
    then show ?thesis unfolding diff_lists [OF assms] by simp
  next
    case (Some sf)
    then have sf: "sf \<in> set (di_server d)" "fe_path sf = fe_path f" using entry_map_Some by blast+
    then have "f = the (entry_map (di_client d) (fe_path sf))" "sf \<in> set (filter (decided d DUpload) (di_server d))" using f by simp_all
    then show ?thesis unfolding diff_lists [OF assms] set_append set_map by blast
  qed
qed

lemma server_deletes_decided: "set (filter_map (server_delete_of d) (di_server d)) = {(p, ts). decide d p = DServerDelete ts}"
proof (intro set_eqI iffI)
  fix e
  assume "e \<in> set (filter_map (server_delete_of d) (di_server d))"
  then obtain f where "server_delete_of d f = Some e" by (auto simp: set_filter_map)
  then show "e \<in> {(p, ts). decide d p = DServerDelete ts}"
    by (cases "decide d (fe_path f)") (auto simp: server_delete_of_def)
next
  fix e
  assume "e \<in> {(p, ts). decide d p = DServerDelete ts}"
  then obtain p ts where e: "e = (p, ts)" "decide d p = DServerDelete ts" by blast
  then obtain sf where "sf \<in> set (di_server d)" "fe_path sf = p" using decide_sides(2) entry_map_Some by blast
  then show "e \<in> set (filter_map (server_delete_of d) (di_server d))"
    using e by (auto simp: set_filter_map server_delete_of_def intro: bexI [of _ sf])
qed

lemma conflict_count:
  assumes "lists_ok d"
  shows "pl_conflicts (diff d) = card {p. decide d p = DConflict}"
proof -
  let ?l = "filter (decided d DConflict) (di_server d)"
  have "fe_path ` set ?l = {p. decide d p = DConflict}"
    using assms decide_sides(3) by (intro paths_decided) (auto simp: lists_ok_def)
  moreover have "distinct (map fe_path ?l)" using assms by (simp add: lists_ok_def distinct_map_filter)
  ultimately show ?thesis by (metis diff_lists(5) [OF assms] distinct_card length_map set_map)
qed

lemma plan_entries:
  assumes "lists_ok d"
  shows "set (pl_downloads (diff d)) = {f. decide d (fe_path f) = DDownload \<and> entry_map (di_server d) (fe_path f) = Some f}"
    and "set (pl_uploads (diff d)) = {f. decide d (fe_path f) = DUpload \<and> entry_map (di_client d) (fe_path f) = Some f}"
    and "set (pl_server_deletes (diff d)) = {(p, ts). decide d p = DServerDelete ts}"
    and "set (pl_local_deletes (diff d)) = {p. decide d p = DLocalDelete}"
    and "pl_conflicts (diff d) = card {p. decide d p = DConflict}"
    and "distinct (map fe_path (pl_downloads (diff d)))"
    and "distinct (map fe_path (pl_uploads (diff d)))"
    and "distinct (map fst (pl_server_deletes (diff d)))"
    and "distinct (pl_local_deletes (diff d))"
proof -
  have ds: "distinct (map fe_path (di_server d))" and dc: "distinct (map fe_path (di_client d))"
    using assms by (simp_all add: lists_ok_def)
  show "set (pl_downloads (diff d)) = {f. decide d (fe_path f) = DDownload \<and> entry_map (di_server d) (fe_path f) = Some f}"
    using entry_map_iff [OF ds] by (auto simp: diff_lists [OF assms])
  show "set (pl_server_deletes (diff d)) = {(p, ts). decide d p = DServerDelete ts}"
    unfolding diff_lists [OF assms] by (rule server_deletes_decided)
  show "set (pl_local_deletes (diff d)) = {p. decide d p = DLocalDelete}"
    using decide_sides(5) entry_map_Some by (fastforce simp: diff_lists [OF assms])
  show "distinct (map fe_path (pl_downloads (diff d)))" using ds by (simp add: diff_lists [OF assms] distinct_map_filter)
  show "distinct (map fe_path (pl_uploads (diff d)))"
    using ds dc entry_map_iff [OF ds] by (auto simp: upload_paths [OF assms] distinct_map_filter) (metis entry_map_mem option.distinct(1))
  show "distinct (map fst (pl_server_deletes (diff d)))"
    unfolding diff_lists [OF assms] by (rule distinct_filter_map_fst [OF ds]) (auto simp: server_delete_of_def split: decision.splits)
  show "distinct (pl_local_deletes (diff d))" using dc by (simp add: diff_lists [OF assms] distinct_map_filter)
qed (rule upload_entries [OF assms], rule conflict_count [OF assms])

text \<open>
  C15.  A plan does what the rule says.  If no path is listed twice, then for every path: it is in the
  downloads exactly if the rule says to download it, with the server's entry; in the uploads
  exactly if the rule says to upload it, with the client's entry; in the deletions on the server, with
  the time remembered, and in the local deletions likewise; and the conflicts are the paths
  for which the rule finds one.  No list has a path twice; since a path has one decision, the lists
  do not overlap.
\<close>

theorem diff_refines_rule:
  assumes "lists_ok d"
  shows "set (pl_downloads (diff d)) = {f. decide d (fe_path f) = DDownload \<and> entry_map (di_server d) (fe_path f) = Some f} \<and>
    set (pl_uploads (diff d)) = {f. decide d (fe_path f) = DUpload \<and> entry_map (di_client d) (fe_path f) = Some f} \<and>
    set (pl_server_deletes (diff d)) = {(p, ts). decide d p = DServerDelete ts} \<and>
    set (pl_local_deletes (diff d)) = {p. decide d p = DLocalDelete} \<and>
    pl_conflicts (diff d) = card {p. decide d p = DConflict} \<and>
    distinct (map fe_path (pl_downloads (diff d))) \<and> distinct (map fe_path (pl_uploads (diff d))) \<and>
    distinct (map fst (pl_server_deletes (diff d))) \<and> distinct (pl_local_deletes (diff d))"
  by (intro conjI plan_entries [OF assms])

definition demo_entry :: "string \<Rightarrow> real \<Rightarrow> string \<Rightarrow> file_entry" where
  "demo_entry p t h = \<lparr>fe_path = p, fe_size = 1, fe_mtime = t, fe_hash = Some h\<rparr>"

definition demo_diff :: diff_in where
  "demo_diff = \<lparr>di_mode = ''bidir'', di_knows = True, di_offset = 0, di_server = [demo_entry ''a'' 10 ''1'', demo_entry ''b'' 10 ''2''],
     di_client = [demo_entry ''b'' 20 ''3'', demo_entry ''c'' 5 ''4''], di_local_tombs = [(''a'', 15)], di_server_tombs = [(''c'', 7)]\<rparr>"

theorem diff_refines_rule_witness:
  "(''a'', 15) \<in> set (pl_server_deletes (diff demo_diff)) \<and> ''c'' \<in> set (pl_local_deletes (diff demo_diff)) \<and>
   set (pl_downloads (diff demo_diff)) = {}"
proof -
  have "lists_ok demo_diff" by (simp add: lists_ok_def demo_diff_def demo_entry_def)
  note r = diff_refines_rule [OF this]
  have "decide demo_diff ''a'' = DServerDelete 15" "decide demo_diff ''c'' = DLocalDelete"
    by (simp_all add: decide_def decide_server_only_def decide_client_only_def demo_diff_def demo_entry_def entry_map_def READONLY_def)
  moreover have "pl_downloads (diff demo_diff) = []"
    by (simp add: diff_def diff_server_def diff_client_def demo_diff_def demo_entry_def entry_map_def READONLY_def no_plan_def)
  ultimately show ?thesis using r by auto
qed

text \<open>
  The race guard looks at the tombstones as they are stored, the diff at those not yet aged out: a file
  with an expired tombstone is planned as a download and then dropped.
\<close>

lemma expired_tombstone_blocks:
  assumes "map_of fresh (fe_path f) = Some ts" and "real ts > fe_mtime f - off"
  shows "f \<notin> set (race_guard off fresh fs)"
  using assms by (simp add: race_guard_def)

section \<open>Deletions are granted\<close>

text \<open>
  The offset is a difference of millisecond counts.  A deletion the rule decides on carries a time
  at which the server's guard lets it through, as long as the file has the time it was listed with.
\<close>

lemma planned_delete_granted:
  assumes "decide d p = DServerDelete ts" and "entry_map (di_server d) p = Some sf" and "di_offset d = of_int i"
  shows "\<not> fe_mtime sf > real (ts_to_server (di_offset d) ts)"
proof -
  have "real ts + di_offset d > fe_mtime sf"
    using assms(1,2) by (auto simp: decide_def decide_server_only_def decide_both_def split: option.splits if_splits)
  moreover have "real ts + of_int i \<le> real (nat \<lfloor>max (real ts + of_int i) (0 :: real)\<rfloor>)"
  proof -
    have "real ts + of_int i = (of_int (int ts + i) :: real)" by simp
    also have "\<dots> \<le> real (nat \<lfloor>of_int (max (int ts + i) 0) :: real\<rfloor>)" unfolding floor_of_int by simp
    also have "(of_int (max (int ts + i) 0) :: real) = max (of_int (int ts + i)) 0" by (simp add: max_def)
    finally show ?thesis by simp
  qed
  ultimately show ?thesis by (simp add: ts_to_server_def assms(3))
qed

section \<open>The list arrives\<close>

lemma collect_files_append:
  assumes "length files + length fs \<le> MAX_SCAN_FILES" and "\<forall>f \<in> set fs. fe_size f < 2 ^ 64"
  shows "collect_files (map json_of_entry fs) files = Some (files @ fs)"
  using assms by (induction fs arbitrary: files) (simp_all add: entry_roundtrip)

lemma collect_scan_batches:
  assumes "length (co_files c) + length (concat cs) \<le> MAX_SCAN_FILES" and "\<forall>f \<in> set (concat cs). fe_size f < 2 ^ 64"
    and "\<not> co_scan_done c"
  shows "collect (scan_batches i cs @ rest) c = collect rest (c\<lparr>co_files := co_files c @ concat cs\<rparr>)"
  using assms
proof (induction cs arbitrary: i c)
  case (Cons fs cs)
  have "collect_msg (scan_batch fs (i * 100)) c = Some (c\<lparr>co_files := co_files c @ fs\<rparr>)"
    using Cons.prems collect_files_append [of "co_files c" fs]
    by (simp add: collect_msg_def) (simp add: scan_batch_def json_index_def)
  then show ?case using Cons.prems Cons.IH [of "c\<lparr>co_files := co_files c @ fs\<rparr>" "Suc i"] by (simp add: ball_Un)
qed simp

lemma btree_insert_last: "btree_ok (m @ [(k, v)]) \<Longrightarrow> btree_insert k v m = m @ [(k, v)]"
  by (induction m) (auto simp: btree_ok_def)

lemma btree_ok_prefix: "btree_ok (a @ b) \<Longrightarrow> btree_ok a"
  by (simp add: btree_ok_def sorted_wrt_append)

lemma btree_ok_suffix: "btree_ok (a @ b) \<Longrightarrow> btree_ok b"
  by (simp add: btree_ok_def sorted_wrt_append)

lemma collect_tombs_append:
  assumes "btree_ok (acc @ es)" and "length (acc @ es) \<le> MAX_SCAN_FILES" and "\<forall>(p, ts) \<in> set es. ts < 2 ^ 64"
  shows "collect_tombs (map (\<lambda>(p, ts). (p, json_num ts)) es) acc = Some (acc @ es)"
  using assms
proof (induction es arbitrary: acc)
  case (Cons e es)
  obtain p ts where e: "e = (p, ts)" by fastforce
  have "btree_ok (acc @ [(p, ts)])" using Cons.prems(1) btree_ok_prefix [of "acc @ [e]" es] by (simp add: e)
  then have "insert_tomb (p, json_num ts) acc = acc @ [(p, ts)]"
    using Cons.prems(3) json_num_u64 [of ts] by (simp add: insert_tomb_def btree_insert_last e)
  then show ?case using Cons.IH [of "acc @ [(p, ts)]"] Cons.prems by (simp add: e)
qed simp

lemma collect_tomb_batch:
  assumes "btree_ok (co_tombs c @ es)" and "length (co_tombs c @ es) \<le> MAX_SCAN_FILES" and "\<forall>(p, ts) \<in> set es. ts < 2 ^ 64"
    and "\<not> co_tombs_done c"
  shows "collect (Json (tombstone_batch es) # rest) c = collect rest (c\<lparr>co_tombs := co_tombs c @ es\<rparr>)"
proof -
  have "collect_msg (tombstone_batch es) c = Some (c\<lparr>co_tombs := co_tombs c @ es\<rparr>)"
    using collect_tombs_append [OF assms(1-3)] by (simp add: collect_msg_def T_defs) (simp add: tombstone_batch_def)
  then show ?thesis using assms(4) by simp
qed

lemma collect_tomb_batches:
  assumes "btree_ok (co_tombs c @ batch @ es)" and "length (co_tombs c @ batch @ es) \<le> MAX_SCAN_FILES"
    and "\<forall>(p, ts) \<in> set (batch @ es). ts < 2 ^ 64" and "\<not> co_tombs_done c"
  shows "collect (tomb_batches batch es @ rest) c = collect rest (c\<lparr>co_tombs := co_tombs c @ batch @ es\<rparr>)"
  using assms
proof (induction batch es arbitrary: c rule: tomb_batches.induct)
  case (1 batch)
  then show ?case using collect_tomb_batch [of c batch rest] by auto
next
  case (2 batch p ts es)
  have "btree_ok (batch @ [(p, ts)])"
    using 2(3) btree_ok_suffix [of "co_tombs c" "batch @ (p, ts) # es"] btree_ok_prefix [of "batch @ [(p, ts)]" es] by simp
  then have ins: "btree_insert p ts batch = batch @ [(p, ts)]" by (rule btree_insert_last)
  show ?case
  proof (cases "length (batch @ [(p, ts)]) \<ge> 1000")
    case True
    let ?c = "c\<lparr>co_tombs := co_tombs c @ batch @ [(p, ts)]\<rparr>"
    have "btree_ok (co_tombs c @ batch @ [(p, ts)])" using 2(3) btree_ok_prefix [of "co_tombs c @ batch @ [(p, ts)]" es] by simp
    then have "collect (tomb_batches batch ((p, ts) # es) @ rest) c = collect (tomb_batches [] es @ rest) ?c"
      using True 2(4-6) collect_tomb_batch [of c "batch @ [(p, ts)]" "tomb_batches [] es @ rest"] by (simp add: ins Let_def)
    also have "\<dots> = collect rest (?c\<lparr>co_tombs := co_tombs ?c @ [] @ es\<rparr>)"
      using 2(1) [OF refl, of ?c] True ins 2(3-6) by simp
    finally show ?thesis by simp
  next
    case False
    then have "collect (tomb_batches batch ((p, ts) # es) @ rest) c = collect (tomb_batches (batch @ [(p, ts)]) es @ rest) c"
      by (simp add: ins Let_def)
    also have "\<dots> = collect rest (c\<lparr>co_tombs := co_tombs c @ (batch @ [(p, ts)]) @ es\<rparr>)"
      using 2(2) [OF refl, of c] False ins 2(3-6) by simp
    finally show ?thesis by simp
  qed
qed

text \<open>
  The list arrives.  After the answer \<open>scan_ready\<close> of the server, its answer to a request for the
  list makes the client collect exactly the server's file list and its tombstones that have not
  aged out, marks the server as tombstone-aware, and leaves later messages unread; for any number of
  entries within the cap.
\<close>

theorem scan_reaches_client:
  assumes "sv_files st = Some files" and "tombs = prune (io_now io) (load (sv_store (srv_flush io st)))"
    and "length files \<le> MAX_SCAN_FILES" and "\<forall>f \<in> set files. fe_size f < 2 ^ 64"
    and "btree_ok tombs" and "length tombs \<le> MAX_SCAN_FILES" and "\<forall>(p, ts) \<in> set tombs. ts < 2 ^ 64"
  shows "\<exists>st' out c0 c. srv_msg E io (Json request_scan) st = (st', out, Continue) \<and>
    read_scan_ready (scan_ready (length files)) = Ok c0 \<and> collect (out @ rest) c0 = Some (c, rest) \<and>
    co_files c = files \<and> co_tombs c = tombs \<and> co_knows c"
proof -
  let ?c0 = "\<lparr>co_files = [], co_tombs = [], co_knows = False, co_scan_done = False, co_tombs_done = False\<rparr>"
  let ?out = "scan_batches 0 (chunks 100 files) @ [Json (scan_end (length files))] @ tomb_batches [] tombs @ [Json (tombstone_end (length tombs))]"
  have out: "srv_msg E io (Json request_scan) st = (srv_flush io st, ?out, Continue)"
    using assms(1,2) by (simp add: srv_msg_def srv_json_def T_defs srv_request_scan_def Let_def)
  have "num_field (scan_ready (length files)) ''count'' = length files"
    using assms(3) by (intro msg_numbers) (simp add: MAX_SCAN_FILES_def)
  then have c0: "read_scan_ready (scan_ready (length files)) = Ok ?c0"
    using assms(3) by (simp add: read_scan_ready_def Let_def) (simp add: scan_ready_def)
  have "collect (?out @ rest) ?c0 = collect ((Json (scan_end (length files)) # tomb_batches [] tombs @ [Json (tombstone_end (length tombs))]) @ rest)
      (?c0\<lparr>co_files := files\<rparr>)"
    using collect_scan_batches [of ?c0 "chunks 100 files" 0] assms(3,4) by (simp add: concat_chunks)
  also have "\<dots> = collect (tomb_batches [] tombs @ (Json (tombstone_end (length tombs)) # rest)) (?c0\<lparr>co_files := files, co_scan_done := True\<rparr>)"
    by (simp add: collect_msg_def T_defs)
  also have "\<dots> = collect (Json (tombstone_end (length tombs)) # rest) (?c0\<lparr>co_files := files, co_scan_done := True, co_tombs := tombs\<rparr>)"
    using collect_tomb_batches [of "?c0\<lparr>co_files := files, co_scan_done := True\<rparr>" "[]" tombs] assms(5-7) by simp
  also have "\<dots> = Some (?c0\<lparr>co_files := files, co_scan_done := True, co_tombs := tombs, co_tombs_done := True, co_knows := True\<rparr>, rest)"
    by (simp add: collect_msg_def T_defs)
  finally show ?thesis using out c0 by auto
qed

theorem scan_reaches_client_witness:
  "\<exists>st' out c0 c. srv_msg demo_srv demo_io (Json request_scan)
      ((srv_start ''bidir'' 0 Map.empty [] (Store [(''z'', 8000)]))\<lparr>sv_files := Some [demo_entry ''a'' 10 ''1'']\<rparr>) = (st', out, Continue) \<and>
    collect (out @ []) c0 = Some (c, []) \<and> co_files c = [demo_entry ''a'' 10 ''1''] \<and> co_tombs c = [(''z'', 8000)]"
proof -
  let ?st = "(srv_start ''bidir'' 0 Map.empty [] (Store [(''z'', 8000)]))\<lparr>sv_files := Some [demo_entry ''a'' 10 ''1'']\<rparr>"
  have t: "[(''z'', 8000)] = prune (io_now demo_io) (load (sv_store (srv_flush demo_io ?st)))"
    by (simp add: srv_start_def srv_flush_def flush_def load_def prune_def MAX_AGE_def demo_io_def btree_retain_def)
  show ?thesis
    using scan_reaches_client [OF _ t, of "[demo_entry ''a'' 10 ''1'']" demo_srv "[]"]
    by (auto simp: srv_start_def MAX_SCAN_FILES_def btree_ok_def demo_entry_def)
qed

end
