(* ===== verification/SyncPass.thy ===== *)
theory SyncPass
  imports SyncDiff
begin

text \<open>
  The client's execution of a plan: the second half of \<open>run_sync_client\<close> of
  \<open>apps/krymux-sync/src/sync/mod.rs\<close>, against the server of \<open>SyncServer\<close>.

  Requests and answers travel in order and without loss (\<open>SyncProtocol\<close>), so a request is handled at once
  and its answers join the messages the client has not read yet.  A client that finds no message left
  fails the pass, as it does after a minute of silence or when the stream ends: the result is then
  \<open>None\<close>.  The outcomes of the client's system calls are arguments, one record for each file and attempt;
  \<open>sio\<close> gives the server's.

  Lemmas: what each operation does to both trees when all system calls succeed; that a whole pass
  leaves both trees as the rule of \<open>SyncDiff\<close> decides, and that the pass after it has nothing to do;
  and what happens when a directory cannot be created for one file.
\<close>

section \<open>State\<close>

record cli_env =
  cl_root :: string
  cl_sha :: "bytes \<Rightarrow> string"

record cli_io =
  ci_now :: nat
  ci_locked :: bool
  ci_mkdir :: bool
  ci_create :: bool
  ci_write :: bool
  ci_hash :: bool \<comment> \<open>the staging file can be read back\<close>
  ci_rename :: bool
  ci_utime :: bool
  ci_unlink :: bool \<comment> \<open>removal of a staging file\<close>
  ci_remove :: bool
  ci_open :: bool
  ci_store :: bool

record pass_st =
  ps_srv :: srv_st
  ps_up :: bool
  ps_in :: "sync_message list"
  ps_fs :: file_system
  ps_seq :: nat
  ps_store :: store_file
  ps_local_tombs :: "nat btree"
  ps_downloaded :: nat
  ps_uploaded :: nat
  ps_locked :: nat

definition send :: "srv_env \<Rightarrow> srv_io \<Rightarrow> sync_message \<Rightarrow> pass_st \<Rightarrow> pass_st" where
  "send E io msg st =
     (if ps_up st then
        case srv_msg E io msg (ps_srv st) of
          (srv, out, v) \<Rightarrow> st\<lparr>ps_srv := srv, ps_in := ps_in st @ out, ps_up := (v = Continue)\<rparr>
      else st)"

text \<open>Messages are read until one of the type looked for.\<close>

fun wait_ack :: "string \<Rightarrow> sync_message list \<Rightarrow> (json \<times> sync_message list) option" where
  "wait_ack t [] = None"
| "wait_ack t (Bin b # ms) = wait_ack t ms"
| "wait_ack t (Json m # ms) = (if str_field m ''t'' = t then Some (m, ms) else wait_ack t ms)"

definition at_client :: "cli_env \<Rightarrow> string \<Rightarrow> string list" where
  "at_client C path = locate (path_join (cl_root C) path)"

definition cli_unlink :: "cli_io \<Rightarrow> string list \<Rightarrow> bytes \<Rightarrow> pass_st \<Rightarrow> pass_st" where
  "cli_unlink io tmp data st =
     st\<lparr>ps_fs := (ps_fs st)(tmp := (if ci_unlink io then None else Some (FFile (real (ci_now io)) data)))\<rparr>"

section \<open>Local deletions\<close>

definition local_delete :: "cli_env \<Rightarrow> (string \<Rightarrow> cli_io) \<Rightarrow> real \<Rightarrow> nat btree \<Rightarrow> string \<Rightarrow> pass_st \<Rightarrow> pass_st" where
  "local_delete C cio off server_tombs path st =
     (let io = cio path; k = at_client C path in
      if ci_locked io then st\<lparr>ps_locked := Suc (ps_locked st)\<rparr>
      else case ps_fs st k of
        Some (FFile t c) \<Rightarrow>
          if ci_remove io then
            let ts = (case map_of server_tombs path of Some sts \<Rightarrow> ts_to_client off sts | None \<Rightarrow> ci_now io) in
            st\<lparr>ps_fs := (ps_fs st)(k := None),
               ps_store := record_with (ci_now io) (ci_store io) [(path, ts)] (ps_store st),
               ps_local_tombs := btree_insert path ts (ps_local_tombs st)\<rparr>
          else st
      | _ \<Rightarrow> st)"

section \<open>Downloads\<close>

record dl_st =
  dl_size :: nat
  dl_hash :: string
  dl_mtime :: real
  dl_received :: nat
  dl_data :: bytes
  dl_failed :: bool

definition dl_init :: dl_st where
  "dl_init = \<lparr>dl_size = 0, dl_hash = [], dl_mtime = 0, dl_received = 0, dl_data = [], dl_failed = False\<rparr>"

fun recv_file :: "cli_io \<Rightarrow> sync_message list \<Rightarrow> dl_st \<Rightarrow> (dl_st \<times> sync_message list) option" where
  "recv_file io [] d = None"
| "recv_file io (Json m # ms) d =
     (let t = str_field m ''t'' in
      if t = T_FILE_META then
        recv_file io ms (d\<lparr>dl_size := num_field m ''size'', dl_hash := str_field m ''hash'', dl_mtime := f64_field m ''mtimeMs''\<rparr>)
      else if t = T_FILE_DONE then Some (d, ms)
      else if t = T_FILE_ERROR then Some (d\<lparr>dl_failed := True\<rparr>, ms)
      else recv_file io ms d)"
| "recv_file io (Bin b # ms) d =
     (if dl_failed d then recv_file io ms d
      else
        let d = d\<lparr>dl_received := dl_received d + length b\<rparr> in
        if dl_received d > dl_size d \<or> dl_received d > MAX_FILE_BYTES \<or> \<not> ci_write io
        then recv_file io ms (d\<lparr>dl_failed := True\<rparr>)
        else recv_file io ms (d\<lparr>dl_data := dl_data d @ b\<rparr>))"

text \<open>One attempt: whether the file was installed.\<close>

definition install_file :: "cli_env \<Rightarrow> cli_io \<Rightarrow> string \<Rightarrow> string list \<Rightarrow> dl_st \<Rightarrow> pass_st \<Rightarrow> bool \<times> pass_st" where
  "install_file C io path tmp d st =
     (let k = at_client C path;
          got_hash = (if ci_hash io then cl_sha C (dl_data d) else []) in
      if dl_failed d \<or> dl_received d \<noteq> dl_size d then (False, cli_unlink io tmp (dl_data d) st)
      else if dl_hash d \<noteq> [] \<and> got_hash \<noteq> dl_hash d then (False, cli_unlink io tmp (dl_data d) st)
      else if \<not> ci_rename io \<or> ps_fs st k = Some FNotFile then (False, cli_unlink io tmp (dl_data d) st)
      else
        let t = (if ci_utime io then stored_time (dl_mtime d) else real (ci_now io)) in
        (True, st\<lparr>ps_fs := (ps_fs st)(tmp := None, k := Some (FFile t (dl_data d)))\<rparr>))"

definition download_attempt ::
    "srv_env \<Rightarrow> srv_io \<Rightarrow> cli_env \<Rightarrow> cli_io \<Rightarrow> string \<Rightarrow> pass_st \<Rightarrow> (bool \<times> pass_st) option" where
  "download_attempt E sio C io path st =
     (let st = send E sio (Json (get_file path)) st;
          tmp = locate (unique_tmp (ps_seq st) (path_join (cl_root C) path));
          st = st\<lparr>ps_seq := Suc (ps_seq st)\<rparr>
      in if \<not> ci_mkdir io \<or> \<not> ci_create io then Some (False, st)
         else case recv_file io (ps_in st) dl_init of
           None \<Rightarrow> None
         | Some (d, rest) \<Rightarrow> Some (install_file C io path tmp d (st\<lparr>ps_in := rest\<rparr>)))"

definition download_one ::
    "srv_env \<Rightarrow> (string \<Rightarrow> srv_io) \<Rightarrow> cli_env \<Rightarrow> (string \<Rightarrow> nat \<Rightarrow> cli_io) \<Rightarrow> file_entry \<Rightarrow> pass_st \<Rightarrow> pass_st option" where
  "download_one E sio C cio dl st =
     (let path = fe_path dl; count = (\<lambda>st. st\<lparr>ps_downloaded := Suc (ps_downloaded st)\<rparr>) in
      if ci_locked (cio path 0) then Some (st\<lparr>ps_locked := Suc (ps_locked st)\<rparr>)
      else case download_attempt E (sio path) C (cio path 0) path st of
        None \<Rightarrow> None
      | Some (True, st) \<Rightarrow> Some (count st)
      | Some (False, st) \<Rightarrow>
          (case download_attempt E (sio path) C (cio path 1) path st of
             None \<Rightarrow> None
           | Some (True, st) \<Rightarrow> Some (count st)
           | Some (False, st) \<Rightarrow> Some st))"

section \<open>Deletions on the server\<close>

definition server_delete ::
    "srv_env \<Rightarrow> (string \<Rightarrow> srv_io) \<Rightarrow> (string \<Rightarrow> cli_io) \<Rightarrow> real \<Rightarrow> string \<times> nat \<Rightarrow> pass_st \<Rightarrow> pass_st option" where
  "server_delete E sio cio off e st =
     (case e of (path, ts) \<Rightarrow>
        let st = send E (sio path) (Json (delete_file path (ts_to_server off ts))) st in
        case wait_ack T_DELETE_ACK (ps_in st) of
          None \<Rightarrow> None
        | Some (m, rest) \<Rightarrow>
            let st = st\<lparr>ps_in := rest\<rparr> in
            Some (if ok_field m then
                    let keep = (case map_of (ps_local_tombs st) path of Some t \<Rightarrow> t | None \<Rightarrow> ci_now (cio path)) in
                    st\<lparr>ps_store := record_with (ci_now (cio path)) (ci_store (cio path)) [(path, keep)] (ps_store st),
                       ps_local_tombs := btree_insert path keep (ps_local_tombs st)\<rparr>
                  else st))"

section \<open>Uploads\<close>

definition upload_one ::
    "srv_env \<Rightarrow> (string \<Rightarrow> srv_io) \<Rightarrow> cli_env \<Rightarrow> (string \<Rightarrow> cli_io) \<Rightarrow> file_entry \<Rightarrow> pass_st \<Rightarrow> pass_st option" where
  "upload_one E sio C cio ul st =
     (let path = fe_path ul; io = cio path; hash = unwrap_or (fe_hash ul) [];
          start = put_start path (fe_size ul) hash (fe_mtime ul)
      in if ci_locked io then Some (st\<lparr>ps_locked := Suc (ps_locked st)\<rparr>)
         else
           let st = send E (sio path) (Json start) st in
           case (if ci_open io then ps_fs st (at_client C path) else None) of
             Some (FFile t content) \<Rightarrow>
               let st = fold (\<lambda>b. send E (sio path) (Bin b)) (chunks 65536 content) st;
                   st = send E (sio path) (Json (put_done path)) st
               in (case wait_ack T_PUT_ACK (ps_in st) of
                     None \<Rightarrow> None
                   | Some (m, rest) \<Rightarrow>
                       Some (let st = st\<lparr>ps_in := rest\<rparr> in if ok_field m then st\<lparr>ps_uploaded := Suc (ps_uploaded st)\<rparr> else st))
           | _ \<Rightarrow>
               let st = send E (sio path) (Json (put_done path)) st in
               map_option (\<lambda>(m, rest). st\<lparr>ps_in := rest\<rparr>) (wait_ack T_PUT_ACK (ps_in st)))"

section \<open>The plan\<close>

fun fold_opt :: "('a \<Rightarrow> 's \<Rightarrow> 's option) \<Rightarrow> 'a list \<Rightarrow> 's \<Rightarrow> 's option" where
  "fold_opt f [] s = Some s"
| "fold_opt f (x # xs) s = (case f x s of None \<Rightarrow> None | Some s' \<Rightarrow> fold_opt f xs s')"

text \<open>The deletions of a plan are not executed in read-only mode; the last message carries the counts.\<close>

definition run_plan ::
    "srv_env \<Rightarrow> (string \<Rightarrow> srv_io) \<Rightarrow> cli_env \<Rightarrow> (string \<Rightarrow> nat \<Rightarrow> cli_io) \<Rightarrow> diff_in \<Rightarrow> nat btree \<Rightarrow> plan \<Rightarrow> pass_st \<Rightarrow> pass_st option" where
  "run_plan E sio C cio d fresh_tombs p st =
     (let io = (\<lambda>path. cio path 0);
          writable = (di_mode d \<noteq> READONLY);
          downloads = race_guard (di_offset d) fresh_tombs (pl_downloads p);
          st = (if writable then fold (local_delete C io (di_offset d) (di_server_tombs d)) (pl_local_deletes p) st else st)
      in Option.bind (fold_opt (download_one E sio C cio) downloads st) (\<lambda>st.
         Option.bind (if writable then fold_opt (server_delete E sio io (di_offset d)) (pl_server_deletes p) st else Some st) (\<lambda>st.
         Option.bind (fold_opt (upload_one E sio C io) (pl_uploads p) st) (\<lambda>st.
         Some (send E (sio []) (Json (sync_complete (ps_downloaded st) (ps_uploaded st) (pl_conflicts p) (ps_locked st))) st)))))"

section \<open>Both trees\<close>

definition good_cio :: "cli_io \<Rightarrow> bool" where
  "good_cio io \<longleftrightarrow> \<not> ci_locked io \<and> ci_mkdir io \<and> ci_create io \<and> ci_write io \<and> ci_hash io \<and> ci_rename io \<and> ci_utime io \<and>
     ci_unlink io \<and> ci_remove io \<and> ci_open io \<and> ci_store io"

text \<open>What stands at a path on the server and on the client.\<close>

definition trees :: "srv_env \<Rightarrow> cli_env \<Rightarrow> pass_st \<Rightarrow> string \<Rightarrow> fnode option \<times> fnode option" where
  "trees E C st rel = (sv_fs (ps_srv st) (at_root E rel), ps_fs st (at_client C rel))"

definition idle :: "string \<Rightarrow> pass_st \<Rightarrow> bool" where
  "idle mode st \<longleftrightarrow> ps_up st \<and> ps_in st = [] \<and> sv_incoming (ps_srv st) = None \<and> sv_mode (ps_srv st) = mode"

text \<open>The paths the scanner lists: no component has the name of a file of the engine.\<close>

definition clean :: "string \<Rightarrow> bool" where
  "clean rel \<longleftrightarrow> safe_rel rel \<and> \<not> list_ex is_sync_metadata (pieces rel)"

text \<open>An operation at a path: both trees change there only, among the paths that are listed.\<close>

definition moves :: "srv_env \<Rightarrow> cli_env \<Rightarrow> string \<Rightarrow> string \<Rightarrow> fnode option \<times> fnode option \<Rightarrow> pass_st \<Rightarrow> pass_st \<Rightarrow> bool" where
  "moves E C mode path new st st' \<longleftrightarrow>
     idle mode st' \<and> trees E C st' path = new \<and> (\<forall>rel. clean rel \<and> rel \<noteq> path \<longrightarrow> trees E C st' rel = trees E C st rel)"

lemma at_client_safe: "safe_rel rel \<Longrightarrow> at_client C rel = locate (cl_root C) @ pieces rel"
  by (simp add: at_client_def locate_join)

lemma at_client_inject: "safe_rel a \<Longrightarrow> safe_rel b \<Longrightarrow> at_client C a = at_client C b \<longleftrightarrow> a = b"
  by (simp add: at_client_safe pieces_inject)

lemma tmp_not_clean: "clean rel \<Longrightarrow> unique_tmp n p \<noteq> rel"
proof
  assume "clean rel" "unique_tmp n p = rel"
  moreover have "pieces (unique_tmp n p) = butlast (pieces p) @ [last (pieces p) @ tmp_ending n]"
    unfolding pieces_def unique_tmp_alt by (rule split_where_extend) (auto dest: tmp_ending_chars)
  moreover have "is_sync_metadata (last (pieces p) @ tmp_ending n)" by (simp add: is_sync_metadata_def ends_with_iff tmp_ending_def)
  ultimately show False by (simp add: clean_def list_ex_iff)
qed

lemma clean_safe [simp]: "clean rel \<Longrightarrow> safe_rel rel"
  by (simp add: clean_def)

lemma at_root_clean: "clean rel \<Longrightarrow> safe_rel p \<Longrightarrow> at_root E rel \<noteq> at_root E (unique_tmp n p)"
  using tmp_not_clean at_root_inject [OF unique_tmp_safe [of p n], of rel E] by fastforce

lemma at_client_clean: "clean rel \<Longrightarrow> safe_rel p \<Longrightarrow> at_client C rel \<noteq> at_client C (unique_tmp n p)"
  using tmp_not_clean at_client_inject [OF unique_tmp_safe [of p n], of rel C] by fastforce

lemma client_tmp: "safe_rel p \<Longrightarrow> locate (unique_tmp n (path_join (cl_root C) p)) = at_client C (unique_tmp n p)"
  by (simp add: at_client_def unique_tmp_join)

lemma fold_send_run:
  assumes "srv_run E (map (Pair io) ms) (ps_srv st) = (srv, out, Continue)" and "ps_up st"
  shows "fold (send E io) ms st = st\<lparr>ps_srv := srv, ps_in := ps_in st @ out\<rparr>"
  using assms
proof (induction ms arbitrary: st out)
  case Nil
  then show ?case by simp
next
  case (Cons m ms)
  obtain s1 o1 v where r: "srv_msg E io m (ps_srv st) = (s1, o1, v)" by (metis prod_cases3)
  with Cons.prems obtain o2 where v: "v = Continue" "srv_run E (map (Pair io) ms) s1 = (srv, o2, Continue)" "out = o1 @ o2"
    by (auto split: verdict.splits prod.splits)
  let ?st = "st\<lparr>ps_srv := s1, ps_in := ps_in st @ o1\<rparr>"
  have "send E io m st = ?st" using r v(1) Cons.prems(2) by (simp add: send_def)
  then show ?case using Cons.IH [of ?st o2] v Cons.prems(2) by simp
qed

subsection \<open>Downloads\<close>

lemma recv_bins:
  assumes "ci_write io" and "dl_size d \<le> MAX_FILE_BYTES" and "\<not> dl_failed d" and "dl_received d + length (concat bs) \<le> dl_size d"
  shows "recv_file io (map Bin bs @ Json (file_done p) # rest) d =
    Some (d\<lparr>dl_received := dl_received d + length (concat bs), dl_data := dl_data d @ concat bs\<rparr>, rest)"
  using assms
proof (induction bs arbitrary: d)
  case Nil
  then show ?case by (simp add: T_defs)
next
  case (Cons b bs)
  then show ?case using Cons.IH [of "d\<lparr>dl_received := dl_received d + length b, dl_data := dl_data d @ b\<rparr>"] by (simp add: Let_def)
qed

lemma recv_served:
  assumes "ci_write io" and "length c \<le> MAX_FILE_BYTES"
  shows "recv_file io (Json (file_meta p (length c) h t) # map Bin (chunks 65536 c) @ Json (file_done p) # rest) dl_init =
    Some (\<lparr>dl_size = length c, dl_hash = h, dl_mtime = t, dl_received = length c, dl_data = c, dl_failed = False\<rparr>, rest)"
proof -
  have "num_field (file_meta p (length c) h t) ''size'' = length c"
    using assms(2) by (intro msg_numbers) (simp add: MAX_FILE_BYTES_def)
  then show ?thesis
    using recv_bins [OF assms(1), of "dl_init\<lparr>dl_size := length c, dl_hash := h, dl_mtime := t\<rparr>" "chunks 65536 c" p rest] assms(2)
    by (simp add: concat_chunks dl_init_def)
qed

definition served :: "srv_env \<Rightarrow> string \<Rightarrow> real \<Rightarrow> bytes \<Rightarrow> sync_message list" where
  "served E path t c = Json (file_meta path (length c) (se_sha E c) t) # map Bin (chunks 65536 c) @ [Json (file_done path)]"

lemma send_get_file:
  assumes "ps_up st" and "good_io io" and "safe_rel path" and "sv_fs (ps_srv st) (at_root E path) = Some (FFile t c)"
  shows "send E io (Json (get_file path)) st = st\<lparr>ps_in := ps_in st @ served E path t c\<rparr>"
proof -
  have "safe_join (se_debug E) (se_root E) path = Ok (path_join (se_root E) path)" using assms(3) by (simp add: safe_join_Ok_iff)
  then show ?thesis using assms
    by (simp add: send_def srv_msg_def srv_json_def T_defs srv_get_file_def serve_file_def good_io_def served_def)
qed

lemma download_attempt_reads:
  assumes "ps_up st" and "good_io sio" and "good_cio io" and "safe_rel path"
    and "sv_fs (ps_srv st) (at_root E path) = Some (FFile t c)"
    and "ps_in st @ served E path t c = served E p t' c' @ rest" and "length c' \<le> MAX_FILE_BYTES"
    and "ps_fs st (at_client C path) \<noteq> Some FNotFile" and "cl_sha C = se_sha E" and "clean path"
  shows "download_attempt E sio C io path st =
    Some (True, st\<lparr>ps_seq := Suc (ps_seq st), ps_in := rest,
      ps_fs := (ps_fs st)(at_client C (unique_tmp (ps_seq st) path) := None, at_client C path := Some (FFile (stored_time t') c'))\<rparr>)"
proof -
  have "ci_write io" using assms(3) by (simp add: good_cio_def)
  from recv_served [OF this assms(7), of p "se_sha E c'" t' rest] show ?thesis
    using assms send_get_file [OF assms(1,2,4,5)]
    by (simp add: download_attempt_def Let_def install_file_def good_cio_def client_tmp served_def)
qed

lemma download_moves:
  assumes "idle mode st" and "clean (fe_path f)" and "good_io (sio (fe_path f))" and "good_cio (cio (fe_path f) 0)" and "cl_sha C = se_sha E"
    and "trees E C st (fe_path f) = (Some (FFile t c), old)" and "old \<noteq> Some FNotFile" and "length c \<le> MAX_FILE_BYTES" and "stored_time t = t"
  shows "\<exists>st'. download_one E sio C cio f st = Some st' \<and> moves E C mode (fe_path f) (Some (FFile t c), Some (FFile t c)) st st'"
proof -
  let ?st = "st\<lparr>ps_seq := Suc (ps_seq st), ps_in := [],
      ps_fs := (ps_fs st)(at_client C (unique_tmp (ps_seq st) (fe_path f)) := None, at_client C (fe_path f) := Some (FFile t c))\<rparr>"
  have "download_attempt E (sio (fe_path f)) C (cio (fe_path f) 0) (fe_path f) st = Some (True, ?st)"
    using download_attempt_reads [where st = st and sio = "sio (fe_path f)" and io = "cio (fe_path f) 0" and path = "fe_path f" and
        t = t and c = c and p = "fe_path f" and t' = t and c' = c and rest = "[]" and E = E and C = C] assms
    by (simp add: idle_def trees_def)
  then have "download_one E sio C cio f st = Some (?st\<lparr>ps_downloaded := Suc (ps_downloaded st)\<rparr>)"
    using assms(4) by (simp add: download_one_def good_cio_def Let_def)
  moreover have "moves E C mode (fe_path f) (Some (FFile t c), Some (FFile t c)) st (?st\<lparr>ps_downloaded := Suc (ps_downloaded st)\<rparr>)"
    using assms(1,2,6) at_client_clean [of _ "fe_path f" C "ps_seq st"] at_client_inject [of _ "fe_path f" C]
    by (auto simp: moves_def idle_def trees_def)
  ultimately show ?thesis by blast
qed

subsection \<open>Deletions and uploads\<close>

lemma local_delete_moves:
  assumes "idle mode st" and "clean path" and "good_cio (cio path)" and "trees E C st path = (None, Some (FFile t c))"
  shows "moves E C mode path (None, None) st (local_delete C cio off stombs path st)"
  using assms at_client_inject [of _ path C]
  by (auto simp: moves_def idle_def trees_def local_delete_def good_cio_def Let_def)

lemma server_delete_moves:
  assumes "idle mode st" and "mode \<noteq> READONLY" and "clean path" and "good_io (sio path)"
    and "trees E C st path = (Some (FFile t c), None)" and "\<not> t > real (ts_to_server off ts)" and "ts_to_server off ts < 2 ^ 64"
  shows "\<exists>st'. server_delete E sio cio off (path, ts) st = Some st' \<and> moves E C mode path (None, None) st st'"
proof -
  have sj: "safe_join (se_debug E) (se_root E) path = Ok (path_join (se_root E) path)" using assms(3) by (simp add: safe_join_Ok_iff)
  have n: "num_field (delete_file path (ts_to_server off ts)) ''ts'' = ts_to_server off ts" using assms(7) by (rule msg_numbers)
  let ?srv = "srv_record (sio path) path ((ps_srv st)\<lparr>sv_fs := (sv_fs (ps_srv st))(at_root E path := None)\<rparr>)"
  have "srv_msg E (sio path) (Json (delete_file path (ts_to_server off ts))) (ps_srv st) = (?srv, [Json (delete_ack path True [])], Continue)"
    using assms(1,2,4-6) by (simp add: srv_msg_def srv_json_def T_defs srv_delete_file_def sj n say_def good_io_def idle_def trees_def Let_def)
  then have s: "send E (sio path) (Json (delete_file path (ts_to_server off ts))) st = st\<lparr>ps_srv := ?srv, ps_in := [Json (delete_ack path True [])]\<rparr>"
    using assms(1) by (simp add: send_def idle_def)
  have w: "wait_ack T_DELETE_ACK [Json (delete_ack path True [])] = Some (delete_ack path True [], [])" by (simp add: T_defs)
  show ?thesis using assms(1,3,5) at_root_inject [of _ path E]
    by (auto simp: server_delete_def s w moves_def idle_def trees_def Let_def)
qed

lemma upload_moves:
  assumes "idle mode st" and "mode \<noteq> READONLY" and "clean (fe_path f)" and "good_io (sio (fe_path f))" and "good_cio (cio (fe_path f))"
    and "trees E C st (fe_path f) = (old, Some (FFile t c))" and "old \<noteq> Some FNotFile" and "length c \<le> MAX_FILE_BYTES"
    and "stored_time t = t" and "fe_size f = length c" and "fe_hash f = Some (se_sha E c)" and "fe_mtime f = t"
  shows "\<exists>st'. upload_one E sio C cio f st = Some st' \<and> moves E C mode (fe_path f) (Some (FFile t c), Some (FFile t c)) st st'"
proof -
  let ?p = "fe_path f" and ?io = "sio (fe_path f)" and ?srv = "ps_srv st"
  let ?new = "installed E (?srv\<lparr>sv_seq := Suc (sv_seq ?srv)\<rparr>) ?p (at_root E (unique_tmp (sv_seq ?srv) ?p)) (length c) (se_sha E c) t c"
  have ok: "matches E (length c) (se_sha E c) c" by (simp add: matches_def)
  obtain err where run: "srv_run E (map (Pair ?io) (upload_msgs ?p (length c) (se_sha E c) t (chunks 65536 c))) ?srv =
      (?new, [Json (put_ack ?p True err)], Continue)"
    using upload_run [OF assms(4) _ _ assms(8), of ?srv ?p E "se_sha E c" t "chunks 65536 c"] assms(1-3,6,7) ok
    by (auto simp: idle_def trees_def concat_chunks)
  let ?st = "st\<lparr>ps_srv := ?new, ps_in := [Json (put_ack ?p True err)]\<rparr>"
  have "fold (send E ?io) (upload_msgs ?p (length c) (se_sha E c) t (chunks 65536 c)) st = ?st"
    using fold_send_run [OF run] assms(1) by (simp add: idle_def)
  then have sent: "send E ?io (Json (put_done ?p)) (fold (\<lambda>b. send E ?io (Bin b)) (chunks 65536 c)
      (send E ?io (Json (put_start ?p (length c) (se_sha E c) t)) st)) = ?st"
    by (simp add: upload_msgs_def fold_map comp_def)
  have fs: "ps_fs (send E ?io m st) = ps_fs st" for m by (simp add: send_def split: prod.split)
  have "upload_one E sio C cio f st = Some (?st\<lparr>ps_in := [], ps_uploaded := Suc (ps_uploaded st)\<rparr>)"
    using assms(5,6,10-12) sent fs by (simp add: upload_one_def good_cio_def trees_def Let_def T_defs)
  moreover have "moves E C mode ?p (Some (FFile t c), Some (FFile t c)) st (?st\<lparr>ps_in := [], ps_uploaded := Suc (ps_uploaded st)\<rparr>)"
    using assms(1,3,6,9) at_root_clean [of _ ?p E "sv_seq ?srv"] at_root_inject [of _ ?p E] ok
    by (auto simp: moves_def idle_def trees_def installed_def)
  ultimately show ?thesis by blast
qed

subsection \<open>Lists of operations\<close>

text \<open>
  If every operation of a list moves its own path from what it was at the start to what it should be,
  and no path comes twice, the list does so for all of them and leaves the others.
\<close>

lemma fold_moves:
  assumes "\<And>x st. x \<in> set xs \<Longrightarrow> idle mode st \<Longrightarrow> trees E C st (key x) = V (key x) \<Longrightarrow>
      \<exists>st'. f x st = Some st' \<and> moves E C mode (key x) (W (key x)) st st'"
    and "distinct (map key xs)" and "\<And>x. x \<in> set xs \<Longrightarrow> clean (key x)"
    and "idle mode st" and "\<And>rel. clean rel \<Longrightarrow> trees E C st rel = V rel"
  shows "\<exists>st'. fold_opt f xs st = Some st' \<and> idle mode st' \<and>
    (\<forall>rel. clean rel \<longrightarrow> trees E C st' rel = (if rel \<in> key ` set xs then W rel else V rel))"
  using assms
proof (induction xs arbitrary: st V)
  case Nil
  then show ?case by simp
next
  case (Cons x xs)
  have "trees E C st (key x) = V (key x)" using Cons.prems(3,5) by simp
  then obtain st1 where st1: "f x st = Some st1" "moves E C mode (key x) (W (key x)) st st1"
    using Cons.prems(1) [of x st] Cons.prems(4) by auto
  let ?V = "V(key x := W (key x))"
  have idle1: "idle mode st1" and trees1: "trees E C st1 rel = ?V rel" if "clean rel" for rel
    using st1(2) Cons.prems(5) that by (auto simp: moves_def)
  have "\<exists>st'. fold_opt f xs st1 = Some st' \<and> idle mode st' \<and>
      (\<forall>rel. clean rel \<longrightarrow> trees E C st' rel = (if rel \<in> key ` set xs then W rel else ?V rel))"
  proof (rule Cons.IH)
    fix y s
    assume y: "y \<in> set xs" and s: "idle mode s" "trees E C s (key y) = ?V (key y)"
    have "key y \<in> key ` set xs" using y by (rule imageI)
    then have "key y \<noteq> key x" using Cons.prems(2) by auto
    then show "\<exists>st'. f y s = Some st' \<and> moves E C mode (key y) (W (key y)) s st'"
      using Cons.prems(1) [of y s] y s by simp
  qed (use Cons.prems(2,3) st1(2) trees1 in \<open>auto simp: moves_def\<close>)
  then show ?case using st1(1) Cons.prems(2) by fastforce
qed

lemma fold_opt_Some: "fold_opt (\<lambda>x s. Some (f x s)) xs s = Some (fold f xs s)"
  by (induction xs arbitrary: s) auto

section \<open>A whole pass\<close>

text \<open>A list describes a tree: its files with their times, sizes and hashes, and no others.\<close>

definition listing :: "(bytes \<Rightarrow> string) \<Rightarrow> (string \<Rightarrow> fnode option) \<Rightarrow> file_entry list \<Rightarrow> bool" where
  "listing sha tree files \<longleftrightarrow>
     distinct (map fe_path files) \<and>
     (\<forall>f \<in> set files. clean (fe_path f) \<and>
        (\<exists>c. tree (fe_path f) = Some (FFile (fe_mtime f) c) \<and> fe_size f = length c \<and> fe_hash f = Some (sha c) \<and>
           length c \<le> MAX_FILE_BYTES \<and> stored_time (fe_mtime f) = fe_mtime f)) \<and>
     (\<forall>rel. clean rel \<and> rel \<notin> fe_path ` set files \<longrightarrow> (\<forall>t c. tree rel \<noteq> Some (FFile t c)))"

text \<open>
  The situation in which a plan is executed: the lists describe the trees, no path is a file on
  one side and something else on the other, the system calls succeed, both sides use the same hash, and
  the clock offset is a whole number of milliseconds.
\<close>

definition pass_setup ::
    "srv_env \<Rightarrow> (string \<Rightarrow> srv_io) \<Rightarrow> cli_env \<Rightarrow> (string \<Rightarrow> nat \<Rightarrow> cli_io) \<Rightarrow> diff_in \<Rightarrow> (string \<Rightarrow> fnode option \<times> fnode option) \<Rightarrow> bool" where
  "pass_setup E sio C cio d V \<longleftrightarrow>
     listing (se_sha E) (\<lambda>rel. fst (V rel)) (di_server d) \<and> listing (se_sha E) (\<lambda>rel. snd (V rel)) (di_client d) \<and>
     (\<forall>rel t c. V rel \<noteq> (Some (FFile t c), Some FNotFile) \<and> V rel \<noteq> (Some FNotFile, Some (FFile t c))) \<and>
     (\<forall>p. good_io (sio p)) \<and> (\<forall>p n. good_cio (cio p n)) \<and> cl_sha C = se_sha E \<and> di_offset d \<in> \<int> \<and>
     (\<forall>(p, ts) \<in> set (di_local_tombs d). ts_to_server (di_offset d) ts < 2 ^ 64)"

text \<open>What the trees should be afterwards.\<close>

definition pass_result :: "diff_in \<Rightarrow> (string \<Rightarrow> fnode option \<times> fnode option) \<Rightarrow> string \<Rightarrow> fnode option \<times> fnode option" where
  "pass_result d V rel =
     (case decide d rel of
        DDownload \<Rightarrow> (fst (V rel), fst (V rel))
      | DUpload \<Rightarrow> (snd (V rel), snd (V rel))
      | DServerDelete ts \<Rightarrow> (None, None)
      | DLocalDelete \<Rightarrow> (None, None)
      | _ \<Rightarrow> V rel)"

lemma listing_entry:
  assumes "listing sha tree files" and "entry_map files p = Some f"
  shows "fe_path f = p" and "clean p" and "\<exists>c. tree p = Some (FFile (fe_mtime f) c) \<and> fe_size f = length c \<and> fe_hash f = Some (sha c) \<and>
    length c \<le> MAX_FILE_BYTES \<and> stored_time (fe_mtime f) = fe_mtime f"
  using assms entry_map_Some [OF assms(2)] by (auto simp: listing_def)

lemma listing_none:
  assumes "listing sha tree files" and "entry_map files p = None" and "clean p"
  shows "tree p \<noteq> Some (FFile t c)"
proof -
  have "p \<notin> fe_path ` set files" using assms(2) by (auto simp: entry_map_def map_of_eq_None_iff image_image)
  with assms(1,3) show ?thesis by (simp add: listing_def)
qed

lemma setup_lists: "pass_setup E sio C cio d V \<Longrightarrow> lists_ok d"
  by (simp add: pass_setup_def lists_ok_def listing_def)

lemma setup_server:
  assumes "pass_setup E sio C cio d V" and "entry_map (di_server d) p = Some f"
  shows "fe_path f = p" and "clean p" and "\<exists>c. fst (V p) = Some (FFile (fe_mtime f) c) \<and> fe_size f = length c \<and> fe_hash f = Some (se_sha E c) \<and>
    length c \<le> MAX_FILE_BYTES \<and> stored_time (fe_mtime f) = fe_mtime f"
  using listing_entry [of "se_sha E" "\<lambda>rel. fst (V rel)" "di_server d" p f] assms by (simp_all add: pass_setup_def)

lemma setup_client:
  assumes "pass_setup E sio C cio d V" and "entry_map (di_client d) p = Some f"
  shows "fe_path f = p" and "clean p" and "\<exists>c. snd (V p) = Some (FFile (fe_mtime f) c) \<and> fe_size f = length c \<and> fe_hash f = Some (se_sha E c) \<and>
    length c \<le> MAX_FILE_BYTES \<and> stored_time (fe_mtime f) = fe_mtime f"
  using listing_entry [of "se_sha E" "\<lambda>rel. snd (V rel)" "di_client d" p f] assms by (simp_all add: pass_setup_def)

lemma setup_other_side:
  assumes "pass_setup E sio C cio d V"
  shows "fst (V p) = Some (FFile t c) \<Longrightarrow> snd (V p) \<noteq> Some FNotFile" and "snd (V p) = Some (FFile t c) \<Longrightarrow> fst (V p) \<noteq> Some FNotFile"
  using assms by (auto simp: pass_setup_def) (metis prod.collapse)+

lemma setup_absent:
  assumes "pass_setup E sio C cio d V" and "clean p"
  shows "entry_map (di_server d) p = None \<Longrightarrow> snd (V p) = Some (FFile t c) \<Longrightarrow> fst (V p) = None"
    and "entry_map (di_client d) p = None \<Longrightarrow> fst (V p) = Some (FFile t c) \<Longrightarrow> snd (V p) = None"
proof -
  have ls: "listing (se_sha E) (\<lambda>rel. fst (V rel)) (di_server d)" and lc: "listing (se_sha E) (\<lambda>rel. snd (V rel)) (di_client d)"
    using assms(1) by (simp_all add: pass_setup_def)
  show "fst (V p) = None" if "entry_map (di_server d) p = None" "snd (V p) = Some (FFile t c)"
    using listing_none [OF ls that(1) assms(2)] setup_other_side(2) [OF assms(1) that(2)] fnode.exhaust by (metis not_None_eq)
  show "snd (V p) = None" if "entry_map (di_client d) p = None" "fst (V p) = Some (FFile t c)"
    using listing_none [OF lc that(1) assms(2)] setup_other_side(1) [OF assms(1) that(2)] fnode.exhaust by (metis not_None_eq)
qed

lemma decide_writable:
  "decide d p = DUpload \<or> decide d p = DLocalDelete \<or> decide d p = DServerDelete ts \<Longrightarrow> di_mode d \<noteq> READONLY"
  by (auto simp: decide_def decide_server_only_def decide_client_only_def decide_both_def split: option.splits if_splits)

lemma decide_clean: "pass_setup E sio C cio d V \<Longrightarrow> decide d p \<noteq> DLeave \<Longrightarrow> clean p"
  using setup_server(2) setup_client(2) by (auto simp: decide_def split: option.splits)

lemma step_local:
  assumes "pass_setup E sio C cio d V" and "decide d p = DLocalDelete" and "idle mode st" and "trees E C st p = V p"
  shows "moves E C mode p (pass_result d V p) st (local_delete C (\<lambda>p. cio p 0) off stombs p st)"
proof -
  obtain cf where cf: "entry_map (di_client d) p = Some cf" and s: "entry_map (di_server d) p = None"
    using decide_sides(5) [OF assms(2)] by auto
  obtain c where c: "snd (V p) = Some (FFile (fe_mtime cf) c)" using setup_client(3) [OF assms(1) cf] by blast
  have cl: "clean p" by (rule setup_client(2) [OF assms(1) cf])
  have "V p = (None, Some (FFile (fe_mtime cf) c))" using setup_absent(1) [OF assms(1) cl s c] c by (simp add: prod_eq_iff)
  then show ?thesis
    using local_delete_moves [OF assms(3) cl, of "\<lambda>p. cio p 0" E C] assms by (simp add: pass_setup_def pass_result_def)
qed

lemma step_download:
  assumes "pass_setup E sio C cio d V" and "decide d (fe_path f) = DDownload" and "entry_map (di_server d) (fe_path f) = Some f"
    and "idle mode st" and "trees E C st (fe_path f) = V (fe_path f)"
  shows "\<exists>st'. download_one E sio C cio f st = Some st' \<and> moves E C mode (fe_path f) (pass_result d V (fe_path f)) st st'"
proof -
  obtain c where c: "fst (V (fe_path f)) = Some (FFile (fe_mtime f) c)" "length c \<le> MAX_FILE_BYTES" "stored_time (fe_mtime f) = fe_mtime f"
    using setup_server(3) [OF assms(1,3)] by blast
  have "trees E C st (fe_path f) = (Some (FFile (fe_mtime f) c), snd (V (fe_path f)))" using assms(5) c(1) by (simp add: prod_eq_iff)
  moreover have "pass_result d V (fe_path f) = (Some (FFile (fe_mtime f) c), Some (FFile (fe_mtime f) c))"
    using assms(2) c(1) by (simp add: pass_result_def)
  ultimately show ?thesis
    using download_moves [OF assms(4) setup_server(2) [OF assms(1,3)], of sio cio C E "fe_mtime f" c "snd (V (fe_path f))"]
      setup_other_side(1) [OF assms(1) c(1)] c(2,3) assms(1) by (simp add: pass_setup_def)
qed

lemma step_server_delete:
  assumes "pass_setup E sio C cio d V" and "decide d p = DServerDelete ts" and "idle (di_mode d) st" and "trees E C st p = V p"
  shows "\<exists>st'. server_delete E sio (\<lambda>p. cio p 0) (di_offset d) (p, ts) st = Some st' \<and> moves E C (di_mode d) p (pass_result d V p) st st'"
proof -
  obtain sf where sf: "entry_map (di_server d) p = Some sf" and c: "entry_map (di_client d) p = None"
    using decide_sides(2) [OF assms(2)] by auto
  obtain x where x: "fst (V p) = Some (FFile (fe_mtime sf) x)" using setup_server(3) [OF assms(1) sf] by blast
  have cl: "clean p" by (rule setup_server(2) [OF assms(1) sf])
  have v: "trees E C st p = (Some (FFile (fe_mtime sf) x), None)"
    using setup_absent(2) [OF assms(1) cl c x] x assms(4) by (simp add: prod_eq_iff)
  obtain i where i: "di_offset d = of_int i" using assms(1) by (auto simp: pass_setup_def Ints_def)
  have "map_of (di_local_tombs d) p = Some ts"
    using assms(2) sf c by (auto simp: decide_def decide_server_only_def split: option.splits if_splits)
  then have "ts_to_server (di_offset d) ts < 2 ^ 64" using assms(1) map_of_SomeD by (fastforce simp: pass_setup_def)
  moreover have "good_io (sio p)" "pass_result d V p = (None, None)" using assms(1,2) by (simp_all add: pass_setup_def pass_result_def)
  moreover have "di_mode d \<noteq> READONLY" using decide_writable assms(2) by blast
  ultimately show ?thesis
    using server_delete_moves [OF assms(3) _ cl _ v planned_delete_granted [OF assms(2) sf i]] by simp
qed

lemma step_upload:
  assumes "pass_setup E sio C cio d V" and "decide d (fe_path f) = DUpload" and "entry_map (di_client d) (fe_path f) = Some f"
    and "idle (di_mode d) st" and "trees E C st (fe_path f) = V (fe_path f)"
  shows "\<exists>st'. upload_one E sio C (\<lambda>p. cio p 0) f st = Some st' \<and> moves E C (di_mode d) (fe_path f) (pass_result d V (fe_path f)) st st'"
proof -
  obtain c where c: "snd (V (fe_path f)) = Some (FFile (fe_mtime f) c)" "fe_size f = length c" "fe_hash f = Some (se_sha E c)"
      "length c \<le> MAX_FILE_BYTES" "stored_time (fe_mtime f) = fe_mtime f"
    using setup_client(3) [OF assms(1,3)] by blast
  have "trees E C st (fe_path f) = (fst (V (fe_path f)), Some (FFile (fe_mtime f) c))" using assms(5) c(1) by (simp add: prod_eq_iff)
  moreover have "pass_result d V (fe_path f) = (Some (FFile (fe_mtime f) c), Some (FFile (fe_mtime f) c))"
    using assms(2) c(1) by (simp add: pass_result_def)
  moreover have wr: "di_mode d \<noteq> READONLY" using decide_writable assms(2) by blast
  ultimately show ?thesis
    using upload_moves [OF assms(4) wr setup_client(2) [OF assms(1,3)], of sio "\<lambda>p. cio p 0" E C "fst (V (fe_path f))" "fe_mtime f" c]
      setup_other_side(2) [OF assms(1) c(1)] c(2-5) assms(1,2) by (simp add: pass_setup_def)
qed

text \<open>The trees when the paths of some decisions are done.\<close>

definition done_for :: "diff_in \<Rightarrow> (string \<Rightarrow> fnode option \<times> fnode option) \<Rightarrow> (decision \<Rightarrow> bool) \<Rightarrow> string \<Rightarrow> fnode option \<times> fnode option" where
  "done_for d V P rel = (if P (decide d rel) then pass_result d V rel else V rel)"

lemma phase:
  assumes "\<And>x st. x \<in> set xs \<Longrightarrow> idle mode st \<Longrightarrow> trees E C st (key x) = V (key x) \<Longrightarrow>
      \<exists>st'. f x st = Some st' \<and> moves E C mode (key x) (pass_result d V (key x)) st st'"
    and "distinct (map key xs)" and "\<And>rel. rel \<in> key ` set xs \<longleftrightarrow> Q (decide d rel)" and "\<And>rel. Q (decide d rel) \<Longrightarrow> clean rel"
    and "\<And>a. P a \<Longrightarrow> \<not> Q a"
    and "idle mode st" and "\<And>rel. clean rel \<Longrightarrow> trees E C st rel = done_for d V P rel"
  shows "\<exists>st'. fold_opt f xs st = Some st' \<and> idle mode st' \<and>
    (\<forall>rel. clean rel \<longrightarrow> trees E C st' rel = done_for d V (\<lambda>a. P a \<or> Q a) rel)"
proof -
  have "\<exists>st'. fold_opt f xs st = Some st' \<and> idle mode st' \<and>
      (\<forall>rel. clean rel \<longrightarrow> trees E C st' rel = (if rel \<in> key ` set xs then pass_result d V rel else done_for d V P rel))"
  proof (rule fold_moves [OF _ assms(2) _ assms(6,7)])
    fix x st
    assume x: "x \<in> set xs" "idle mode st" "trees E C st (key x) = done_for d V P (key x)"
    have "\<not> P (decide d (key x))" using assms(3,5) x(1) by blast
    then show "\<exists>st'. f x st = Some st' \<and> moves E C mode (key x) (pass_result d V (key x)) st st'"
      using assms(1) [OF x(1,2)] x(3) by (simp add: done_for_def)
  qed (use assms(3,4) in blast)
  then show ?thesis using assms(3) by (auto simp: done_for_def)
qed

lemma trees_send: "sv_fs (ps_srv (send E io (Json (sync_complete a b c l)) st)) = sv_fs (ps_srv st) \<and> ps_fs (send E io m st) = ps_fs st"
  by (auto simp: send_def srv_msg_def srv_json_def T_defs split: prod.split)

lemma plan_paths:
  assumes "lists_ok d"
  shows "rel \<in> fe_path ` set (pl_downloads (diff d)) \<longleftrightarrow> decide d rel = DDownload"
    and "rel \<in> fe_path ` set (pl_uploads (diff d)) \<longleftrightarrow> decide d rel = DUpload"
proof -
  have "\<exists>f. fe_path f = rel \<and> entry_map (di_server d) rel = Some f" if "decide d rel = DDownload"
    using decide_sides(1) [OF that] entry_map_Some by blast
  then show "rel \<in> fe_path ` set (pl_downloads (diff d)) \<longleftrightarrow> decide d rel = DDownload"
    unfolding plan_entries(1) [OF assms] by blast
  have "\<exists>f. fe_path f = rel \<and> entry_map (di_client d) rel = Some f" if "decide d rel = DUpload"
    using decide_sides(4) [OF that] entry_map_Some by blast
  then show "rel \<in> fe_path ` set (pl_uploads (diff d)) \<longleftrightarrow> decide d rel = DUpload"
    unfolding plan_entries(2) [OF assms] by blast
qed

lemma pass_executes_rule:
  assumes "pass_setup E sio C cio d (trees E C st)" and "idle (di_mode d) st"
    and "race_guard (di_offset d) fresh (pl_downloads (diff d)) = pl_downloads (diff d)"
  shows "\<exists>st'. run_plan E sio C cio d fresh (diff d) st = Some st' \<and>
    (\<forall>rel. clean rel \<longrightarrow> trees E C st' rel = pass_result d (trees E C st) rel)"
proof -
  let ?V = "trees E C st" and ?io = "\<lambda>p. cio p 0" and ?off = "di_offset d" and ?m = "di_mode d"
  have ok: "lists_ok d" by (rule setup_lists [OF assms(1)])
  note plan = plan_entries [OF ok]
  have clean: "decide d rel \<noteq> DLeave \<Longrightarrow> clean rel" for rel using decide_clean [OF assms(1)] by blast
  have ro: "pl_local_deletes (diff d) = [] \<and> pl_server_deletes (diff d) = []" if "?m = READONLY"
  proof -
    have "set (pl_local_deletes (diff d)) = {}" "set (pl_server_deletes (diff d)) = {}"
      unfolding plan(3,4) using decide_writable that by blast+
    then show ?thesis by simp
  qed
  have "\<exists>st1. fold_opt (\<lambda>p s. Some (local_delete C ?io ?off (di_server_tombs d) p s)) (pl_local_deletes (diff d)) st = Some st1 \<and>
      idle ?m st1 \<and> (\<forall>rel. clean rel \<longrightarrow> trees E C st1 rel = done_for d ?V (\<lambda>a. False \<or> a = DLocalDelete) rel)"
    by (rule phase [where key = id, OF _ _ _ _ _ assms(2)])
      (use plan step_local [OF assms(1)] clean in \<open>auto simp: done_for_def\<close>)
  then obtain st1 where st1: "fold (local_delete C ?io ?off (di_server_tombs d)) (pl_local_deletes (diff d)) st = st1" "idle ?m st1"
      "\<And>rel. clean rel \<Longrightarrow> trees E C st1 rel = done_for d ?V (\<lambda>a. a = DLocalDelete) rel"
    by (auto simp: fold_opt_Some)
  have "\<exists>st2. fold_opt (download_one E sio C cio) (pl_downloads (diff d)) st1 = Some st2 \<and> idle ?m st2 \<and>
      (\<forall>rel. clean rel \<longrightarrow> trees E C st2 rel = done_for d ?V (\<lambda>a. a = DLocalDelete \<or> a = DDownload) rel)"
    by (rule phase [where key = fe_path, OF _ plan(6) plan_paths(1) [OF ok] _ _ st1(2,3)])
      (use plan(1) step_download [OF assms(1)] clean in auto)
  then obtain st2 where st2: "fold_opt (download_one E sio C cio) (pl_downloads (diff d)) st1 = Some st2" "idle ?m st2"
      "\<And>rel. clean rel \<Longrightarrow> trees E C st2 rel = done_for d ?V (\<lambda>a. a = DLocalDelete \<or> a = DDownload) rel"
    by blast
  have "\<exists>st3. fold_opt (server_delete E sio ?io ?off) (pl_server_deletes (diff d)) st2 = Some st3 \<and> idle ?m st3 \<and>
      (\<forall>rel. clean rel \<longrightarrow> trees E C st3 rel = done_for d ?V (\<lambda>a. (a = DLocalDelete \<or> a = DDownload) \<or> (\<exists>ts. a = DServerDelete ts)) rel)"
    by (rule phase [where key = fst, OF _ _ _ _ _ st2(2,3)])
      (use plan step_server_delete [OF assms(1)] clean in \<open>auto simp: image_iff\<close>)
  then obtain st3 where st3: "fold_opt (server_delete E sio ?io ?off) (pl_server_deletes (diff d)) st2 = Some st3" "idle ?m st3"
      "\<And>rel. clean rel \<Longrightarrow> trees E C st3 rel =
        done_for d ?V (\<lambda>a. (a = DLocalDelete \<or> a = DDownload) \<or> (\<exists>ts. a = DServerDelete ts)) rel"
    by blast
  have "\<exists>st4. fold_opt (upload_one E sio C ?io) (pl_uploads (diff d)) st3 = Some st4 \<and> idle ?m st4 \<and>
      (\<forall>rel. clean rel \<longrightarrow> trees E C st4 rel =
        done_for d ?V (\<lambda>a. ((a = DLocalDelete \<or> a = DDownload) \<or> (\<exists>ts. a = DServerDelete ts)) \<or> a = DUpload) rel)"
    by (rule phase [where key = fe_path, OF _ plan(7) plan_paths(2) [OF ok] _ _ st3(2,3)])
      (use plan(2) step_upload [OF assms(1)] clean in auto)
  then obtain st4 where st4: "fold_opt (upload_one E sio C ?io) (pl_uploads (diff d)) st3 = Some st4"
      "\<And>rel. clean rel \<Longrightarrow> trees E C st4 rel =
        done_for d ?V (\<lambda>a. ((a = DLocalDelete \<or> a = DDownload) \<or> (\<exists>ts. a = DServerDelete ts)) \<or> a = DUpload) rel"
    by blast
  have final: "trees E C st4 rel = pass_result d ?V rel" if "clean rel" for rel
    using st4(2) [OF that] by (auto simp: done_for_def pass_result_def split: decision.splits)
  have run: "run_plan E sio C cio d fresh (diff d) st =
      Some (send E (sio []) (Json (sync_complete (ps_downloaded st4) (ps_uploaded st4) (pl_conflicts (diff d)) (ps_locked st4))) st4)"
    using st1(1) st2(1) st3(1) st4(1) ro by (auto simp: run_plan_def Let_def assms(3))
  show ?thesis using final trees_send by (simp add: run trees_def)
qed

section \<open>The pass after it\<close>

lemma decide_cases:
  assumes "pass_setup E sio C cio d V"
  shows "entry_map (di_server d) p = Some sf \<Longrightarrow> entry_map (di_client d) p = None \<Longrightarrow> decide d p = DDownload \<or> (\<exists>ts. decide d p = DServerDelete ts)"
    and "entry_map (di_server d) p = None \<Longrightarrow> entry_map (di_client d) p = Some cf \<Longrightarrow> di_mode d \<noteq> READONLY \<Longrightarrow> decide d p = DUpload \<or> decide d p = DLocalDelete"
    and "entry_map (di_server d) p = Some sf \<Longrightarrow> entry_map (di_client d) p = Some cf \<Longrightarrow> decide d p = decide_both d sf cf"
  using setup_server(3) [OF assms, of p] setup_client(3) [OF assms, of p]
  by (auto simp: decide_def decide_server_only_def decide_client_only_def split: option.split)

text \<open>Lists that describe trees which agree at a path have the same entry there.\<close>

lemma entries_agree:
  assumes "listing sha t fs" and "listing sha t' fs'" and "clean p" and "t p = t' p"
  shows "map_option (\<lambda>f. (fe_mtime f, fe_hash f)) (entry_map fs p) = map_option (\<lambda>f. (fe_mtime f, fe_hash f)) (entry_map fs' p)"
proof (cases "entry_map fs p")
  case None
  then have "entry_map fs' p = None"
    using listing_none [OF assms(1) None assms(3)] listing_entry(3) [OF assms(2)] assms(4) by (metis not_None_eq)
  with None show ?thesis by simp
next
  case (Some f)
  from listing_entry(3) [OF assms(1) Some] obtain c where c: "t p = Some (FFile (fe_mtime f) c)" "fe_hash f = Some (sha c)" by blast
  then obtain f' where f': "entry_map fs' p = Some f'"
    using listing_none [OF assms(2) _ assms(3)] assms(4) by (metis not_None_eq)
  from listing_entry(3) [OF assms(2) f'] c assms(4) Some f' show ?thesis by auto
qed

lemma decide_both_agree:
  assumes "map_option (\<lambda>f. (fe_mtime f, fe_hash f)) (Some sf') = map_option (\<lambda>f. (fe_mtime f, fe_hash f)) (Some sf)"
    and "map_option (\<lambda>f. (fe_mtime f, fe_hash f)) (Some cf') = map_option (\<lambda>f. (fe_mtime f, fe_hash f)) (Some cf)"
    and "di_mode d' = di_mode d" and "di_offset d' = di_offset d"
  shows "decide_both d' sf' cf' = decide_both d sf cf"
  using assms by (simp add: decide_both_def)

lemma decide_after:
  assumes "pass_setup E sio C cio d V" and "\<And>rel. clean rel \<Longrightarrow> W rel = pass_result d V rel"
    and "listing (se_sha E) (\<lambda>rel. fst (W rel)) (di_server d')" and "listing (se_sha E) (\<lambda>rel. snd (W rel)) (di_client d')"
    and "di_mode d' = di_mode d" and "di_offset d' = di_offset d"
  shows "decide d' p = (if decide d p = DConflict then DConflict else DLeave)"
proof (cases "clean p")
  case False
  then have "entry_map (di_server d') p = None" "entry_map (di_client d') p = None"
    using listing_entry(2) [OF assms(3)] listing_entry(2) [OF assms(4)] by (meson not_Some_eq)+
  then have "decide d' p = DLeave" by (simp add: decide_def)
  then show ?thesis using decide_clean [OF assms(1)] False by force
next
  case True
  have ls: "listing (se_sha E) (\<lambda>rel. fst (V rel)) (di_server d)" and lc: "listing (se_sha E) (\<lambda>rel. snd (V rel)) (di_client d)"
    using assms(1) by (simp_all add: pass_setup_def)
  show ?thesis
  proof (cases "decide d p = DLeave \<or> decide d p = DConflict")
    case False
    then have "fst (W p) = snd (W p)" using assms(2) [OF True] by (auto simp: pass_result_def split: decision.splits)
    with entries_agree [OF assms(3,4) True] have "decide d' p = DLeave"
      by (auto simp: decide_def decide_both_def split: option.splits)
    with False show ?thesis by simp
  next
    case same: True
    then have "W p = V p" using assms(2) [OF True] by (auto simp: pass_result_def)
    then have s: "map_option (\<lambda>f. (fe_mtime f, fe_hash f)) (entry_map (di_server d') p) = map_option (\<lambda>f. (fe_mtime f, fe_hash f)) (entry_map (di_server d) p)"
      and c: "map_option (\<lambda>f. (fe_mtime f, fe_hash f)) (entry_map (di_client d') p) = map_option (\<lambda>f. (fe_mtime f, fe_hash f)) (entry_map (di_client d) p)"
      using entries_agree [OF assms(3) ls True] entries_agree [OF assms(4) lc True] by simp_all
    consider (both) sf cf sf' cf' where "entry_map (di_server d) p = Some sf" "entry_map (di_client d) p = Some cf"
        "entry_map (di_server d') p = Some sf'" "entry_map (di_client d') p = Some cf'"
      | (none) "entry_map (di_server d') p = None" "entry_map (di_client d') p = None" "entry_map (di_server d) p = None"
      | (readonly) cf' where "entry_map (di_server d') p = None" "entry_map (di_client d') p = Some cf'" "di_mode d = READONLY" "entry_map (di_server d) p = None"
      using s c same decide_cases(1,2) [OF assms(1), of p]
      by (cases "entry_map (di_server d) p"; cases "entry_map (di_client d) p") fastforce+
    then show ?thesis
    proof cases
      case both
      then have "decide d' p = decide_both d sf cf"
        using decide_both_agree [of sf' sf cf' cf d' d] s c assms(5,6) by (simp add: decide_def)
      then show ?thesis using decide_cases(3) [OF assms(1) both(1,2)] same by auto
    next
      case none
      then show ?thesis using same decide_sides(3) [of d p] by (auto simp: decide_def)
    next
      case readonly
      then show ?thesis using same decide_sides(3) [of d p] assms(5) by (auto simp: decide_def decide_client_only_def)
    qed
  qed
qed

text \<open>
  A pass converges.  Let both lists describe the trees, no path be a file on one side and
  something else on the other, all system calls succeed, and no stored tombstone stop a planned
  download.  Then the execution of the plan against the server succeeds, and at every listed path
  both trees are as the rule decided: a downloaded or uploaded file stands on both sides
  with its content and time, a deleted one on neither, and all others are untouched.  A pass that follows,
  on lists of the resulting trees and whatever tombstones, has nothing to transfer or delete, and finds
  exactly the conflicts of the first.
\<close>

theorem pass_converges:
  assumes "pass_setup E sio C cio d (trees E C st)" and "idle (di_mode d) st"
    and "race_guard (di_offset d) fresh (pl_downloads (diff d)) = pl_downloads (diff d)"
  shows "\<exists>st'. run_plan E sio C cio d fresh (diff d) st = Some st' \<and>
    (\<forall>rel. clean rel \<longrightarrow> trees E C st' rel = pass_result d (trees E C st) rel) \<and>
    (\<forall>d'. di_mode d' = di_mode d \<and> di_offset d' = di_offset d \<and>
       listing (se_sha E) (\<lambda>rel. fst (trees E C st' rel)) (di_server d') \<and>
       listing (se_sha E) (\<lambda>rel. snd (trees E C st' rel)) (di_client d') \<longrightarrow>
       diff d' = no_plan\<lparr>pl_conflicts := pl_conflicts (diff d)\<rparr>)"
proof -
  obtain st' where st': "run_plan E sio C cio d fresh (diff d) st = Some st'"
    and t: "\<And>rel. clean rel \<Longrightarrow> trees E C st' rel = pass_result d (trees E C st) rel"
    using pass_executes_rule [OF assms] by blast
  have "diff d' = no_plan\<lparr>pl_conflicts := pl_conflicts (diff d)\<rparr>"
    if "di_mode d' = di_mode d" "di_offset d' = di_offset d" "listing (se_sha E) (\<lambda>rel. fst (trees E C st' rel)) (di_server d')"
      "listing (se_sha E) (\<lambda>rel. snd (trees E C st' rel)) (di_client d')" for d'
  proof -
    have dec: "decide d' p = (if decide d p = DConflict then DConflict else DLeave)" for p
      by (rule decide_after [OF assms(1) t that(3,4,1,2)])
    have ok: "lists_ok d'" using that(3,4) by (simp add: lists_ok_def listing_def)
    note plan = plan_entries [OF ok] plan_entries [OF setup_lists [OF assms(1)]]
    have "set (pl_server_deletes (diff d')) = {}" using plan(3) by (auto simp: dec split: if_splits)
    moreover have "pl_downloads (diff d') = []" "pl_uploads (diff d') = []" "pl_local_deletes (diff d') = []"
      using plan(1,2,4) by (simp_all add: dec split: if_splits)
    moreover have "pl_conflicts (diff d') = pl_conflicts (diff d)" using plan(5) plan_entries(5) [OF setup_lists [OF assms(1)]] by (simp add: dec)
    ultimately show ?thesis by (cases "diff d'") (simp add: no_plan_def)
  qed
  then show ?thesis using st' t by blast
qed

text \<open>A server with one file, a client with none.\<close>

definition demo_cli :: cli_env where
  "demo_cli = \<lparr>cl_root = ''/c'', cl_sha = (\<lambda>_. ''5a'')\<rparr>"

definition demo_cio :: cli_io where
  "demo_cio = \<lparr>ci_now = 9000, ci_locked = False, ci_mkdir = True, ci_create = True, ci_write = True, ci_hash = True, ci_rename = True,
     ci_utime = True, ci_unlink = True, ci_remove = True, ci_open = True, ci_store = True\<rparr>"

definition demo_pass :: "file_system \<Rightarrow> pass_st" where
  "demo_pass fs = \<lparr>ps_srv = srv_start ''bidir'' 0 fs [] NoStore, ps_up = True, ps_in = [], ps_fs = Map.empty, ps_seq = 0,
     ps_store = NoStore, ps_local_tombs = [], ps_downloaded = 0, ps_uploaded = 0, ps_locked = 0\<rparr>"

definition demo_lists :: diff_in where
  "demo_lists = \<lparr>di_mode = ''bidir'', di_knows = True, di_offset = 0,
     di_server = [\<lparr>fe_path = ''d/x'', fe_size = 1, fe_mtime = 5000, fe_hash = Some ''5a''\<rparr>],
     di_client = [], di_local_tombs = [], di_server_tombs = []\<rparr>"

abbreviation demo_tree :: file_system where
  "demo_tree \<equiv> [at_root demo_srv ''d/x'' \<mapsto> FFile 5000 [7]]"

lemma demo_clean: "clean ''d/x''"
  using demo_safe by (simp add: clean_def pieces_def is_sync_metadata_def ends_with_def STORE_FILE_def CACHE_FILE_def)

lemma demo_trees: "clean rel \<Longrightarrow> trees demo_srv demo_cli (demo_pass demo_tree) rel = (if rel = ''d/x'' then Some (FFile 5000 [7]) else None, None)"
  using at_root_inject [of rel "''d/x''" demo_srv] demo_safe by (auto simp: trees_def demo_pass_def srv_start_def)

lemma demo_setup: "pass_setup demo_srv (\<lambda>_. demo_io) demo_cli (\<lambda>_ _. demo_cio) demo_lists (trees demo_srv demo_cli (demo_pass demo_tree))"
proof -
  have sha: "se_sha demo_srv x = ''5a''" for x by (simp add: demo_srv_def)
  have "listing (se_sha demo_srv) (\<lambda>rel. fst (trees demo_srv demo_cli (demo_pass demo_tree) rel)) (di_server demo_lists)"
    using demo_clean sha by (auto simp: listing_def demo_trees demo_lists_def MAX_FILE_BYTES_def stored_time_def Let_def)
  moreover have "trees demo_srv demo_cli (demo_pass demo_tree) rel \<noteq> (Some FNotFile, x)" "snd (trees demo_srv demo_cli (demo_pass demo_tree) rel) = None" for rel x
    by (simp_all add: trees_def demo_pass_def srv_start_def)
  then have "trees demo_srv demo_cli (demo_pass demo_tree) rel \<noteq> (Some (FFile t c), Some FNotFile) \<and>
      trees demo_srv demo_cli (demo_pass demo_tree) rel \<noteq> (Some FNotFile, Some (FFile t c))" for rel t c
    by (metis option.distinct(1) snd_conv)
  moreover have "listing (se_sha demo_srv) (\<lambda>rel. snd (trees demo_srv demo_cli (demo_pass demo_tree) rel)) (di_client demo_lists)"
    by (simp add: listing_def demo_lists_def trees_def demo_pass_def)
  ultimately show ?thesis
    using demo_good by (simp add: pass_setup_def demo_lists_def good_cio_def demo_cio_def demo_cli_def demo_srv_def)
qed

theorem pass_converges_witness:
  "\<exists>st'. run_plan demo_srv (\<lambda>_. demo_io) demo_cli (\<lambda>_ _. demo_cio) demo_lists [] (diff demo_lists) (demo_pass demo_tree) = Some st' \<and>
     trees demo_srv demo_cli st' ''d/x'' = (Some (FFile 5000 [7]), Some (FFile 5000 [7]))"
proof -
  have "idle (di_mode demo_lists) (demo_pass demo_tree)" by (simp add: idle_def demo_lists_def demo_pass_def srv_start_def)
  moreover have "race_guard (di_offset demo_lists) [] (pl_downloads (diff demo_lists)) = pl_downloads (diff demo_lists)" by (simp add: race_guard_def)
  moreover have "decide demo_lists ''d/x'' = DDownload" by (simp add: decide_def decide_server_only_def demo_lists_def entry_map_def)
  then have "pass_result demo_lists (trees demo_srv demo_cli (demo_pass demo_tree)) ''d/x'' = (Some (FFile 5000 [7]), Some (FFile 5000 [7]))"
    by (simp add: pass_result_def demo_trees demo_clean)
  ultimately show ?thesis using pass_converges [OF demo_setup, of "[]"] demo_clean by metis
qed

section \<open>Answers left unread\<close>

text \<open>
  The request for a file is sent before its directory is created.  When that fails, both attempts leave
  the server's answers unread, and the next download takes them for its own: the file is installed
  with the content and time of another one.  The hash check passes, since it compares with the hash
  that came with that content.
\<close>

lemma stale_answer_installed:
  assumes "idle mode st" and "cl_sha C = se_sha E"
    and "clean (fe_path a)" and "good_io (sio (fe_path a))" and "sv_fs (ps_srv st) (at_root E (fe_path a)) = Some (FFile ta ca)"
    and "\<not> ci_locked (cio (fe_path a) 0)" and "\<not> ci_mkdir (cio (fe_path a) 0)" and "\<not> ci_mkdir (cio (fe_path a) 1)"
    and "clean (fe_path b)" and "good_io (sio (fe_path b))" and "sv_fs (ps_srv st) (at_root E (fe_path b)) = Some (FFile tb cb)"
    and "good_cio (cio (fe_path b) 0)" and "ps_fs st (at_client C (fe_path b)) \<noteq> Some FNotFile" and "length ca \<le> MAX_FILE_BYTES"
  shows "\<exists>st'. fold_opt (download_one E sio C cio) [a, b] st = Some st' \<and>
    ps_fs st' (at_client C (fe_path b)) = Some (FFile (stored_time ta) ca)"
proof -
  let ?A = "served E (fe_path a) ta ca"
  let ?st1 = "st\<lparr>ps_in := ?A @ ?A, ps_seq := Suc (Suc (ps_seq st))\<rparr>"
  have up: "ps_up st" "ps_in st = []" using assms(1) by (simp_all add: idle_def)
  have "download_attempt E (sio (fe_path a)) C (cio (fe_path a) n) (fe_path a) s =
      Some (False, s\<lparr>ps_in := ps_in s @ ?A, ps_seq := Suc (ps_seq s)\<rparr>)"
    if "ps_up s" "ps_srv s = ps_srv st" "\<not> ci_mkdir (cio (fe_path a) n)" for s n
    using that send_get_file [of s "sio (fe_path a)" "fe_path a" E ta ca] assms(3-5) by (simp add: download_attempt_def Let_def)
  then have one: "download_one E sio C cio a st = Some ?st1"
    using up assms(6-8) by (simp add: download_one_def Let_def)
  have "download_attempt E (sio (fe_path b)) C (cio (fe_path b) 0) (fe_path b) ?st1 =
      Some (True, ?st1\<lparr>ps_seq := Suc (ps_seq ?st1), ps_in := ?A @ served E (fe_path b) tb cb,
        ps_fs := (ps_fs ?st1)(at_client C (unique_tmp (ps_seq ?st1) (fe_path b)) := None,
          at_client C (fe_path b) := Some (FFile (stored_time ta) ca))\<rparr>)"
    by (rule download_attempt_reads) (use up assms in simp_all)
  then show ?thesis using one assms(12) by (simp add: download_one_def good_cio_def Let_def)
qed

end
