(* ===== verification/SyncNotify.thy ===== *)
theory SyncNotify
  imports SyncScan
begin

text \<open>
  The change watchers and the notification hub: \<open>apps/krymux-sync/src/sync/notify.rs\<close>, and the watcher,
  the quiet window and the reconnection delay of \<open>apps/krymux-sync/src/sync/daemon.rs\<close>.

  The two watcher callbacks share \<open>remember_dirs\<close>, \<open>queue_removed\<close> and \<open>relevant\<close>.  The hub is a transition system:
  the operations on its atomics are single steps, so a callback and the end of a session interleave.

  Lemmas: what the callbacks queue; every change deferred while a session is on is announced when the
  last session ends; the interleaving in which a deferred change is announced by nobody; the quiet
  window outlasts the suppression of bursts; the reconnection delay doubles up to a minute.
\<close>

section \<open>Events\<close>

datatype ev_kind = EvCreate | EvModify | EvRemoveFile | EvRemoveFolder | EvRemoveAny | EvRemoveOther | EvOther

text \<open>A path of an event: itself, its last component, whether it is a directory now, and its part below the
  watched root.\<close>

record ev_path =
  ep_path :: string
  ep_name :: "string option"
  ep_is_dir :: bool
  ep_rel :: "string option"

definition mutated :: "ev_kind \<Rightarrow> bool" where
  "mutated k \<longleftrightarrow> k \<noteq> EvOther"

definition sync_metadata :: "ev_path \<Rightarrow> bool" where
  "sync_metadata p = (case ep_name p of Some n \<Rightarrow> is_sync_metadata n | None \<Rightarrow> True)"

definition MAX_DIRS :: nat where "MAX_DIRS = 4096"

definition remember_dir :: "ev_path \<Rightarrow> string list \<Rightarrow> string list" where
  "remember_dir p dirs =
     (if ep_is_dir p then
        let dirs = (if length dirs \<ge> MAX_DIRS then [] else dirs) in
        if ep_path p \<in> set dirs then dirs else ep_path p # dirs
      else dirs)"

definition remember_dirs :: "ev_kind \<Rightarrow> ev_path list \<Rightarrow> string list \<Rightarrow> string list" where
  "remember_dirs k ps dirs = (if k = EvCreate \<or> k = EvModify then fold remember_dir ps dirs else dirs)"

definition removed_one :: "nat \<Rightarrow> ev_path \<Rightarrow> string list \<times> nat btree \<Rightarrow> string list \<times> nat btree" where
  "removed_one now p s =
     (case s of (dirs, q) \<Rightarrow>
        if sync_metadata p then (dirs, q)
        else if ep_path p \<in> set dirs then (removeAll (ep_path p) dirs, q)
        else case ep_rel p of
          None \<Rightarrow> (dirs, q)
        | Some r \<Rightarrow> if slashes r = [] then (dirs, q) else (dirs, queue now (slashes r) q))"

definition queue_removed :: "nat \<Rightarrow> ev_kind \<Rightarrow> ev_path list \<Rightarrow> string list \<times> nat btree \<Rightarrow> string list \<times> nat btree" where
  "queue_removed now k ps s =
     (if k = EvRemoveFile \<or> k = EvRemoveAny \<or> k = EvRemoveOther then fold (removed_one now) ps s else s)"

definition relevant :: "ev_kind \<Rightarrow> ev_path list \<Rightarrow> bool" where
  "relevant k ps \<longleftrightarrow> mutated k \<and> list_ex (\<lambda>p. \<not> sync_metadata p) ps"

text \<open>The part of a callback before it triggers: the known directories and the queue of deletions.\<close>

definition watch_event :: "nat \<Rightarrow> ev_kind \<Rightarrow> ev_path list \<Rightarrow> string list \<times> nat btree \<Rightarrow> string list \<times> nat btree" where
  "watch_event now k ps s = (case s of (dirs, q) \<Rightarrow> queue_removed now k ps (remember_dirs k ps dirs, q))"

lemma length_remember_dirs: "length dirs \<le> MAX_DIRS \<Longrightarrow> length (fold remember_dir ps dirs) \<le> MAX_DIRS"
proof (induction ps arbitrary: dirs)
  case (Cons p ps)
  have "length (remember_dir p dirs) \<le> MAX_DIRS" using Cons.prems by (auto simp: remember_dir_def MAX_DIRS_def Let_def)
  then show ?case using Cons.IH by simp
qed simp

lemma length_removed: "length (fst s) \<le> MAX_DIRS \<Longrightarrow> length (fst (fold (removed_one now) ps s)) \<le> MAX_DIRS"
proof (induction ps arbitrary: s)
  case (Cons p ps)
  have "length (fst (removed_one now p s)) \<le> MAX_DIRS"
    using Cons.prems le_trans [OF length_removeAll_less_eq] by (auto simp: removed_one_def split: prod.splits option.splits)
  then show ?case using Cons.IH by simp
qed simp

text \<open>The set of known directories is bounded.\<close>

lemma known_dirs_bounded: "length dirs \<le> MAX_DIRS \<Longrightarrow> length (fst (watch_event now k ps (dirs, q))) \<le> MAX_DIRS"
  using length_remember_dirs length_removed by (simp add: watch_event_def queue_removed_def remember_dirs_def)

text \<open>The removal of a single file that is not one of the engine's own is queued.\<close>

lemma removed_file_queued:
  assumes "k = EvRemoveFile \<or> k = EvRemoveAny \<or> k = EvRemoveOther" and "\<not> sync_metadata p" and "ep_path p \<notin> set dirs"
    and "ep_rel p = Some r" and "slashes r \<noteq> []"
  shows "map_of (snd (watch_event now k [p] (dirs, q))) (slashes r) \<noteq> None"
  using assms by (auto simp: watch_event_def queue_removed_def remember_dirs_def removed_one_def queue_def btree.look_ins)

section \<open>The hub\<close>

definition SUPPRESS_WINDOW :: nat where "SUPPRESS_WINDOW = 400"

datatype watcher_pc = WIdle | WStore \<comment> \<open>saw an active session, has not set the flag yet\<close>

text \<open>
  The hub with the time, the sessions between their decrement and their swap, the hints sent, and, for
  the statements only, whether a change was deferred while a session could still see it.
\<close>

record hub =
  hb_active :: nat
  hb_pending :: bool
  hb_last :: "nat option"
  hb_now :: nat
  hb_watcher :: watcher_pc
  hb_swaps :: nat
  hb_sent :: nat
  hb_owed :: bool

definition hub_init :: hub where
  "hub_init = \<lparr>hb_active = 0, hb_pending = False, hb_last = None, hb_now = 0, hb_watcher = WIdle, hb_swaps = 0, hb_sent = 0, hb_owed = False\<rparr>"

definition suppressed :: "hub \<Rightarrow> bool" where
  "suppressed h \<longleftrightarrow> (case hb_last h of Some t \<Rightarrow> hb_now h - t < SUPPRESS_WINDOW | None \<Rightarrow> False)"

definition active_guard :: "hub \<Rightarrow> hub" where
  "active_guard h = h\<lparr>hb_active := Suc (hb_active h)\<rparr>"

text \<open>The two atomic operations of \<open>session_ended\<close>.\<close>

definition session_sub :: "hub \<Rightarrow> hub" where
  "session_sub h = h\<lparr>hb_active := hb_active h - 1, hb_swaps := (if hb_active h = 1 then Suc (hb_swaps h) else hb_swaps h)\<rparr>"

definition session_swap :: "hub \<Rightarrow> hub" where
  "session_swap h =
     (let h' = h\<lparr>hb_swaps := hb_swaps h - 1\<rparr> in
      if hb_pending h then h'\<lparr>hb_pending := False, hb_sent := Suc (hb_sent h), hb_owed := False\<rparr> else h')"

inductive end_step :: "hub \<Rightarrow> hub \<Rightarrow> bool" where
  sub: "hb_active h > 0 \<Longrightarrow> end_step h (session_sub h)"
| swap: "hb_swaps h > 0 \<Longrightarrow> end_step h (session_swap h)"

inductive hub_step :: "hub \<Rightarrow> hub \<Rightarrow> bool" where
  tick: "t \<ge> hb_now h \<Longrightarrow> hub_step h (h\<lparr>hb_now := t\<rparr>)"
| start: "hub_step h (active_guard h)"
| ended: "end_step h h' \<Longrightarrow> hub_step h h'"
| see_active: "hb_watcher h = WIdle \<Longrightarrow> hb_active h > 0 \<Longrightarrow> hub_step h (h\<lparr>hb_watcher := WStore\<rparr>)"
| store: "hb_watcher h = WStore \<Longrightarrow>
    hub_step h (h\<lparr>hb_watcher := WIdle, hb_pending := True, hb_owed := (hb_owed h \<or> hb_active h > 0 \<or> hb_swaps h > 0)\<rparr>)"
| fire: "hb_watcher h = WIdle \<Longrightarrow> hb_active h = 0 \<Longrightarrow> \<not> suppressed h \<Longrightarrow>
    hub_step h (h\<lparr>hb_last := Some (hb_now h), hb_sent := Suc (hb_sent h)\<rparr>)"
| burst: "hb_watcher h = WIdle \<Longrightarrow> hb_active h = 0 \<Longrightarrow> suppressed h \<Longrightarrow> hub_step h h"

inductive hub_reachable :: "hub \<Rightarrow> bool" where
  init: "hub_reachable hub_init"
| step: "hub_reachable h \<Longrightarrow> hub_step h h' \<Longrightarrow> hub_reachable h'"

inductive_cases end_stepE: "end_step h h'"

definition hub_inv :: "hub \<Rightarrow> bool" where
  "hub_inv h \<longleftrightarrow> (hb_owed h \<longrightarrow> hb_pending h \<and> (hb_active h > 0 \<or> hb_swaps h > 0))"

lemma end_step_inv: "end_step h h' \<Longrightarrow> hub_inv h \<Longrightarrow> hub_inv h'"
  by (erule end_stepE) (auto simp: hub_inv_def session_sub_def session_swap_def Let_def)

lemma hub_step_inv: "hub_step h h' \<Longrightarrow> hub_inv h \<Longrightarrow> hub_inv h'"
  by (induction rule: hub_step.induct) (auto simp: hub_inv_def active_guard_def dest: end_step_inv [unfolded hub_inv_def])

lemma hub_reachable_inv: "hub_reachable h \<Longrightarrow> hub_inv h"
  by (induction rule: hub_reachable.induct) (auto simp: hub_init_def hub_inv_def dest: hub_step_inv [unfolded hub_inv_def])

text \<open>Once sessions only end, they end: every such step lowers this measure.\<close>

definition end_measure :: "hub \<Rightarrow> nat" where
  "end_measure h = 2 * hb_active h + hb_swaps h"

lemma end_step_measure: "end_step h h' \<Longrightarrow> end_measure h' < end_measure h"
  by (erule end_stepE) (auto simp: end_measure_def session_sub_def session_swap_def Let_def)

lemma end_steps_owed:
  "end_step\<^sup>*\<^sup>* h h' \<Longrightarrow> hub_inv h \<Longrightarrow> hub_inv h' \<and> hb_sent h \<le> hb_sent h' \<and> (hb_owed h \<and> hb_sent h' = hb_sent h \<longrightarrow> hb_owed h')"
proof (induction rule: rtranclp_induct)
  case (step y z)
  have "hub_inv z" using step end_step_inv by blast
  moreover have "hb_sent y \<le> hb_sent z \<and> (hb_owed y \<and> hb_sent z = hb_sent y \<longrightarrow> hb_owed z)"
    using step.hyps(2) by (auto elim!: end_stepE simp: session_sub_def session_swap_def Let_def)
  ultimately show ?case using step.IH [OF step.prems] by auto
qed simp

lemma no_end_step: "(\<nexists>h'. end_step h h') \<longleftrightarrow> hb_active h = 0 \<and> hb_swaps h = 0"
  using end_step.intros [of h] by (auto elim!: end_stepE intro: ccontr)

text \<open>
  C29.  Deferred changes are announced.  In every reachable state of the hub in which a change was deferred
  while a session could still see it, and has not been announced: however the sessions then end
  (each decrements the counter and, the last one, swaps the flag), they end after finitely many steps, and
  when none is left at least one hint has been sent.  In particular no such change is left when no
  session is on.
\<close>

theorem deferred_change_announced:
  assumes "hub_reachable h"
  shows "(hb_owed h \<longrightarrow> hb_active h > 0 \<or> hb_swaps h > 0) \<and>
    (\<exists>h'. end_step\<^sup>*\<^sup>* h h' \<and> (\<nexists>h''. end_step h' h'')) \<and>
    (\<forall>h'. end_step\<^sup>*\<^sup>* h h' \<and> (\<nexists>h''. end_step h' h'') \<longrightarrow> (hb_owed h \<longrightarrow> hb_sent h' > hb_sent h))"
proof -
  have inv: "hub_inv h" by (rule hub_reachable_inv [OF assms])
  have ends: "\<exists>h'. end_step\<^sup>*\<^sup>* g h' \<and> (\<nexists>h''. end_step h' h'')" for g
  proof (induction "end_measure g" arbitrary: g rule: less_induct)
    case less
    then show ?case by (metis converse_rtranclp_into_rtranclp end_step_measure rtranclp.rtrancl_refl)
  qed
  have sent: "hb_sent h' > hb_sent h" if "end_step\<^sup>*\<^sup>* h h'" "\<nexists>h''. end_step h' h''" "hb_owed h" for h'
  proof -
    have e: "hub_inv h'" "hb_sent h \<le> hb_sent h'" "hb_sent h' = hb_sent h \<Longrightarrow> hb_owed h'"
      using end_steps_owed [OF that(1) inv] that(3) by auto
    have "hb_active h' = 0 \<and> hb_swaps h' = 0" using that(2) no_end_step by blast
    then have "\<not> hb_owed h'" using e(1) by (auto simp: hub_inv_def)
    with e(2,3) show ?thesis by force
  qed
  show ?thesis using inv ends [of h] sent by (auto simp: hub_inv_def)
qed

theorem deferred_change_announced_witness:
  "\<exists>h h'. hub_reachable h \<and> hb_owed h \<and> end_step\<^sup>*\<^sup>* h h' \<and> hb_sent h' > hb_sent h"
proof -
  let ?a = "active_guard hub_init"
  let ?h = "(?a\<lparr>hb_watcher := WStore\<rparr>)\<lparr>hb_watcher := WIdle, hb_pending := True, hb_owed := True\<rparr>"
  have a: "hub_reachable ?a" by (rule hub_reachable.step [OF hub_reachable.init hub_step.start])
  have b: "hub_reachable (?a\<lparr>hb_watcher := WStore\<rparr>)"
    by (rule hub_reachable.step [OF a hub_step.see_active]) (simp_all add: active_guard_def hub_init_def)
  have "hub_step (?a\<lparr>hb_watcher := WStore\<rparr>) ?h"
    using hub_step.store [of "?a\<lparr>hb_watcher := WStore\<rparr>"] by (simp add: active_guard_def hub_init_def)
  with b have h: "hub_reachable ?h" by (rule hub_reachable.step)
  from deferred_change_announced [OF h] show ?thesis using h by force
qed

text \<open>
  The callback's look at the counter and its setting of the flag are two operations: a session that ends
  completely between them leaves a flag that no session will look at.  No hint is sent, and none will be
  until another session starts and ends.
\<close>

lemma hint_lost:
  "\<exists>h. hub_reachable h \<and> hb_pending h \<and> hb_active h = 0 \<and> hb_swaps h = 0 \<and> hb_watcher h = WIdle \<and> hb_sent h = 0"
proof -
  let ?h1 = "active_guard hub_init"
  let ?h2 = "?h1\<lparr>hb_watcher := WStore\<rparr>"
  let ?h3 = "session_sub ?h2"
  let ?h4 = "session_swap ?h3"
  let ?h5 = "?h4\<lparr>hb_watcher := WIdle, hb_pending := True, hb_owed := (hb_owed ?h4 \<or> hb_active ?h4 > 0 \<or> hb_swaps ?h4 > 0)\<rparr>"
  note defs = active_guard_def hub_init_def session_sub_def session_swap_def
  have "hub_reachable ?h1" by (rule hub_reachable.step [OF hub_reachable.init hub_step.start])
  then have "hub_reachable ?h2" by (rule hub_reachable.step [OF _ hub_step.see_active]) (simp_all add: defs)
  then have "hub_reachable ?h3" by (rule hub_reachable.step [OF _ hub_step.ended [OF end_step.sub]]) (simp add: defs)
  then have "hub_reachable ?h4" by (rule hub_reachable.step [OF _ hub_step.ended [OF end_step.swap]]) (simp add: defs)
  then have "hub_reachable ?h5" by (rule hub_reachable.step [OF _ hub_step.store]) (simp add: defs)
  then show ?thesis by (intro exI [of _ ?h5]) (simp add: defs)
qed

section \<open>The daemon\<close>

text \<open>
  \<open>settle\<close>: from a time on, the triggers that arrive in order; the time at which 700 ms have passed without
  one.
\<close>

definition QUIET :: nat where "QUIET = 700"

fun settle :: "nat \<Rightarrow> nat list \<Rightarrow> nat" where
  "settle now [] = now + QUIET"
| "settle now (t # ts) = (if t < now + QUIET then settle (max now t) ts else now + QUIET)"

lemma settle_after: "now + QUIET \<le> settle now ts"
  by (induction now ts rule: settle.induct) auto

text \<open>A change the hub suppressed happened before the scan that its hint triggers.\<close>

lemma suppressed_change_scanned:
  assumes "suppressed h" and "hb_last h = Some t" and "hint \<ge> t"
  shows "hb_now h < settle hint ts"
  using assms settle_after [of hint ts] by (simp add: suppressed_def SUPPRESS_WINDOW_def QUIET_def)

text \<open>The reconnection delay: the delays slept after passes with the given outcomes.\<close>

fun daemon_delays :: "nat \<Rightarrow> bool list \<Rightarrow> nat list" where
  "daemon_delays backoff [] = []"
| "daemon_delays backoff (ok # rs) =
     (if ok then daemon_delays 1 rs else backoff # daemon_delays (min (backoff * 2) 60) rs)"

lemma daemon_delays_bounded: "1 \<le> b \<Longrightarrow> b \<le> 60 \<Longrightarrow> d \<in> set (daemon_delays b rs) \<Longrightarrow> 1 \<le> d \<and> d \<le> 60"
  by (induction b rs rule: daemon_delays.induct) (auto split: if_splits)

lemma daemon_delays_double: "daemon_delays (min (2 ^ k) 60) (replicate n False) = map (\<lambda>i. min (2 ^ (k + i)) 60) [0..<n]"
proof (induction n arbitrary: k)
  case (Suc n)
  have "min (min (2 ^ k) 60 * 2) 60 = (min (2 ^ Suc k) 60 :: nat)" by (simp add: min_def)
  then show ?case using Suc [of "Suc k"] by (simp add: upt_conv_Cons map_Suc_upt [symmetric] del: upt_Suc)
qed simp

end
