(* ===== verification/SyncDaemon.thy ===== *)
theory SyncDaemon
  imports SyncNotify
begin

text \<open>
  The daemon of the synchroniser and the path of a change hint to it: the loop of \<open>run\<close> and the task of
  \<open>open_notify\<close> in \<open>apps/krymux-sync/src/sync/daemon.rs\<close>, and \<open>handle_notify_session\<close> of
  \<open>apps/krymux-sync/src/sync/mod.rs\<close>.

  The state has the server's channel of hints with the position of the listener's receiver, the hints on
  the wire, the listener task, both channels of triggers and the point the loop is at.  What goes on
  between two awaits is one step.  \<open>env_step\<close> has what happens to the daemon (changes, the loss of a
  stream, the interval), \<open>work_step\<close> what the programs then do by themselves; the outcome of a pass is one
  of these, for a pass ends.

  Lemmas: a change that is announced, on either side, is never forgotten on its way: until a pass starts
  there is always something to do, and whatever is done, in any order, a pass starts after finitely many
  steps; the channels stay within their capacity; a failed pass leaves its listener running.
\<close>

section \<open>State\<close>

definition HUB_CAP :: nat where "HUB_CAP = 16"
definition TRIGGER_CAP :: nat where "TRIGGER_CAP = 256"

datatype listener = NoListener | Running | Ended

text \<open>Where the loop is: in a pass, sleeping after a failed one, waiting (and whether it listens to hints), or in
  the quiet window.\<close>

datatype daemon_pc = InPass | Sleeping | Waiting bool | Settling

record daemon =
  dm_sent :: nat \<comment> \<open>hints sent through the server's channel\<close>
  dm_pos :: "nat option" \<comment> \<open>the position of the listener's receiver, once subscribed\<close>
  dm_wire :: nat \<comment> \<open>hint frames written and not yet read\<close>
  dm_task :: listener
  dm_orphans :: nat \<comment> \<open>listener tasks that were let go while running\<close>
  dm_hints :: nat
  dm_triggers :: nat
  dm_pc :: daemon_pc
  dm_client :: bool
  dm_backoff :: nat
  dm_passes :: nat
  dm_owed_hint :: bool \<comment> \<open>for the statements: announced since the last pass began\<close>
  dm_owed_local :: bool

definition daemon_init :: daemon where
  "daemon_init = \<lparr>dm_sent = 0, dm_pos = None, dm_wire = 0, dm_task = NoListener, dm_orphans = 0, dm_hints = 0, dm_triggers = 0,
     dm_pc = InPass, dm_client = False, dm_backoff = 1, dm_passes = 1, dm_owed_hint = False, dm_owed_local = False\<rparr>"

section \<open>Steps\<close>

definition start_pass :: "daemon \<Rightarrow> daemon" where
  "start_pass s = s\<lparr>dm_pc := InPass, dm_passes := Suc (dm_passes s), dm_owed_hint := False, dm_owed_local := False\<rparr>"

text \<open>The receiver of the notify session: the next hint, or, when it fell behind, a report of that and the oldest one kept.\<close>

definition hub_recv :: "nat \<Rightarrow> nat \<Rightarrow> nat" where
  "hub_recv sent pos = (if sent - pos > HUB_CAP then sent - HUB_CAP else Suc pos)"

definition notify_forward :: "daemon \<Rightarrow> daemon" where
  "notify_forward s =
     (case dm_pos s of
        Some p \<Rightarrow> s\<lparr>dm_pos := Some (hub_recv (dm_sent s) p), dm_wire := Suc (dm_wire s)\<rparr>
      | None \<Rightarrow> s)"

text \<open>The end of a pass; \<open>opened\<close> says whether a missing listener could be opened.\<close>

definition pass_succeeded :: "bool \<Rightarrow> daemon \<Rightarrow> daemon" where
  "pass_succeeded opened s =
     (let s = s\<lparr>dm_client := True, dm_backoff := 1\<rparr>;
          s = (if dm_task s = Running then s
               else if opened then s\<lparr>dm_task := Running, dm_pos := None, dm_wire := 0\<rparr>
               else s\<lparr>dm_task := NoListener\<rparr>)
      in s\<lparr>dm_pc := Waiting (dm_task s = Running)\<rparr>)"

definition pass_failed :: "daemon \<Rightarrow> daemon" where
  "pass_failed s = s\<lparr>dm_client := False, dm_orphans := dm_orphans s + (if dm_task s = Running then 1 else 0), dm_task := NoListener,
     dm_pos := None, dm_wire := 0, dm_pc := Sleeping\<rparr>"

definition wake_up :: "daemon \<Rightarrow> daemon" where
  "wake_up s = start_pass (s\<lparr>dm_backoff := min (dm_backoff s * 2) 60\<rparr>)"

inductive work_step :: "daemon \<Rightarrow> daemon \<Rightarrow> bool" where
  subscribe: "dm_task s = Running \<Longrightarrow> dm_pos s = None \<Longrightarrow> work_step s (s\<lparr>dm_pos := Some (dm_sent s)\<rparr>)"
| forward: "dm_task s = Running \<Longrightarrow> dm_pos s = Some p \<Longrightarrow> p < dm_sent s \<Longrightarrow> work_step s (notify_forward s)"
| deliver: "dm_task s = Running \<Longrightarrow> 0 < k \<Longrightarrow> k \<le> dm_wire s \<Longrightarrow> dm_hints s < TRIGGER_CAP \<Longrightarrow>
    work_step s (s\<lparr>dm_wire := dm_wire s - k, dm_hints := Suc (dm_hints s)\<rparr>)"
| succeed: "dm_pc s = InPass \<Longrightarrow> work_step s (pass_succeeded opened s)"
| fail: "dm_pc s = InPass \<Longrightarrow> work_step s (pass_failed s)"
| wake: "dm_pc s = Sleeping \<Longrightarrow> work_step s (wake_up s)"
| local_trigger: "dm_pc s = Waiting ho \<Longrightarrow> dm_triggers s > 0 \<Longrightarrow>
    work_step s (s\<lparr>dm_triggers := dm_triggers s - 1, dm_pc := Settling\<rparr>)"
| hint_trigger: "dm_pc s = Waiting True \<Longrightarrow> dm_hints s > 0 \<Longrightarrow>
    work_step s (s\<lparr>dm_hints := dm_hints s - 1, dm_pc := Settling\<rparr>)"
| stream_ended: "dm_pc s = Waiting ho \<Longrightarrow> dm_task s = Ended \<Longrightarrow> work_step s (start_pass (s\<lparr>dm_task := NoListener\<rparr>))"
| absorb_local: "dm_pc s = Settling \<Longrightarrow> dm_triggers s > 0 \<Longrightarrow> work_step s (s\<lparr>dm_triggers := dm_triggers s - 1\<rparr>)"
| absorb_hint: "dm_pc s = Settling \<Longrightarrow> dm_hints s > 0 \<Longrightarrow> work_step s (s\<lparr>dm_hints := dm_hints s - 1\<rparr>)"
| settled: "dm_pc s = Settling \<Longrightarrow> work_step s (start_pass s)"

text \<open>
  A hint counts as announced to the daemon when its listener is subscribed; one that is under way when the stream is lost
  during a pass is lost with it, for the listener is then replaced without another pass.
\<close>

inductive env_step :: "daemon \<Rightarrow> daemon \<Rightarrow> bool" where
  fire: "env_step s (s\<lparr>dm_sent := Suc (dm_sent s), dm_owed_hint := (dm_owed_hint s \<or> dm_task s = Running \<and> dm_pos s \<noteq> None)\<rparr>)"
| change: "dm_triggers s < TRIGGER_CAP \<Longrightarrow> env_step s (s\<lparr>dm_triggers := Suc (dm_triggers s), dm_owed_local := True\<rparr>)"
| lose: "dm_task s = Running \<Longrightarrow>
    env_step s (s\<lparr>dm_task := Ended, dm_pos := None, dm_wire := 0, dm_owed_hint := (dm_owed_hint s \<and> dm_pc s \<noteq> InPass)\<rparr>)"
| orphan: "dm_orphans s > 0 \<Longrightarrow> dm_hints s < TRIGGER_CAP \<Longrightarrow> env_step s (s\<lparr>dm_hints := Suc (dm_hints s)\<rparr>)"
| orphan_ends: "dm_orphans s > 0 \<Longrightarrow> env_step s (s\<lparr>dm_orphans := dm_orphans s - 1\<rparr>)"
| interval: "dm_pc s = Waiting ho \<Longrightarrow> env_step s (start_pass s)"

inductive daemon_reachable :: "daemon \<Rightarrow> bool" where
  init: "daemon_reachable daemon_init"
| work: "daemon_reachable s \<Longrightarrow> work_step s s' \<Longrightarrow> daemon_reachable s'"
| env: "daemon_reachable s \<Longrightarrow> env_step s s' \<Longrightarrow> daemon_reachable s'"

inductive_cases work_stepE: "work_step s s'"
inductive_cases env_stepE: "env_step s s'"

section \<open>Nothing announced is forgotten\<close>

text \<open>Something that is under way to the loop, and what the loop listens to.\<close>

definition hint_under_way :: "daemon \<Rightarrow> bool" where
  "hint_under_way s \<longleftrightarrow>
     dm_pc s = Settling \<or> dm_pc s = Sleeping \<or> dm_task s = Ended \<and> dm_pc s \<noteq> InPass \<or>
     dm_task s = Running \<and> ((\<exists>p. dm_pos s = Some p \<and> p < dm_sent s) \<or> dm_wire s > 0 \<or> dm_hints s > 0)"

definition daemon_inv :: "daemon \<Rightarrow> bool" where
  "daemon_inv s \<longleftrightarrow>
     (dm_owed_hint s \<longrightarrow> hint_under_way s) \<and>
     (dm_owed_local s \<longrightarrow> dm_triggers s > 0 \<or> dm_pc s = Settling) \<and>
     (\<forall>ho. dm_pc s = Waiting ho \<and> dm_task s = Running \<longrightarrow> ho) \<and>
     (\<forall>p. dm_pos s = Some p \<longrightarrow> p \<le> dm_sent s) \<and>
     dm_hints s \<le> TRIGGER_CAP \<and> dm_triggers s \<le> TRIGGER_CAP \<and> 1 \<le> dm_backoff s \<and> dm_backoff s \<le> 60"

lemma hub_recv_bounds: "p < n \<Longrightarrow> p < hub_recv n p \<and> hub_recv n p \<le> n"
  by (auto simp: hub_recv_def HUB_CAP_def)

lemma daemon_init_inv: "daemon_inv daemon_init"
  by (simp add: daemon_inv_def daemon_init_def)

lemma work_step_inv: "work_step s s' \<Longrightarrow> daemon_inv s \<Longrightarrow> daemon_inv s'"
  by (erule work_stepE)
    (auto simp: daemon_inv_def hint_under_way_def notify_forward_def pass_succeeded_def pass_failed_def wake_up_def start_pass_def Let_def
      dest: hub_recv_bounds)

lemma env_step_inv: "env_step s s' \<Longrightarrow> daemon_inv s \<Longrightarrow> daemon_inv s'"
  by (erule env_stepE) (auto simp: daemon_inv_def hint_under_way_def start_pass_def)

lemma daemon_reachable_inv: "daemon_reachable s \<Longrightarrow> daemon_inv s"
  by (induction rule: daemon_reachable.induct) (auto intro: daemon_init_inv work_step_inv env_step_inv)

section \<open>A pass starts\<close>

text \<open>What is left to do before a pass starts.\<close>

definition pc_weight :: "daemon_pc \<Rightarrow> nat" where
  "pc_weight pc = (case pc of InPass \<Rightarrow> 4 | Waiting _ \<Rightarrow> 2 | Sleeping \<Rightarrow> 1 | Settling \<Rightarrow> 1)"

definition daemon_work :: "daemon \<Rightarrow> nat" where
  "daemon_work s =
     5 * (case dm_pos s of Some p \<Rightarrow> dm_sent s - p | None \<Rightarrow> 0) + 4 * dm_wire s + 3 * dm_hints s + 3 * dm_triggers s +
     (if dm_task s = Running \<and> dm_pos s = None then 1 else 0) + pc_weight (dm_pc s)"

lemma start_pass_passes [simp]: "dm_passes (start_pass s) = Suc (dm_passes s)"
  by (simp add: start_pass_def)

lemma forward_work:
  assumes "dm_pos s = Some p" and "p < dm_sent s"
  shows "daemon_work (notify_forward s) < daemon_work s"
proof -
  have "dm_sent s - hub_recv (dm_sent s) p < dm_sent s - p" using hub_recv_bounds [OF assms(2)] by linarith
  then show ?thesis using assms(1) by (simp add: daemon_work_def notify_forward_def)
qed

lemma work_step_work: "work_step s s' \<Longrightarrow> dm_passes s' = dm_passes s \<Longrightarrow> daemon_work s' < daemon_work s"
proof (erule work_stepE)
  fix p
  assume "s' = notify_forward s" "dm_pos s = Some p" "p < dm_sent s"
  then show ?thesis using forward_work by simp
qed (auto simp: daemon_work_def pc_weight_def pass_succeeded_def pass_failed_def wake_up_def Let_def split: option.split)

lemma work_step_passes: "work_step s s' \<Longrightarrow> dm_passes s \<le> dm_passes s'"
  by (erule work_stepE) (auto simp: notify_forward_def pass_succeeded_def pass_failed_def wake_up_def Let_def split: option.split)

definition owed :: "daemon \<Rightarrow> bool" where
  "owed s \<longleftrightarrow> dm_owed_hint s \<or> dm_owed_local s"

lemma work_step_owed: "work_step s s' \<Longrightarrow> dm_passes s' = dm_passes s \<Longrightarrow> owed s' = owed s"
  by (erule work_stepE)
    (auto simp: owed_def notify_forward_def pass_succeeded_def pass_failed_def wake_up_def Let_def split: option.split)

lemma owed_can_work:
  assumes "daemon_inv s" and "owed s"
  shows "\<exists>s'. work_step s s'"
proof (cases "dm_pc s")
  case (Waiting ho)
  show ?thesis
  proof (cases "dm_owed_local s")
    case True
    then show ?thesis using assms(1) Waiting work_step.local_trigger [OF Waiting] by (auto simp: daemon_inv_def)
  next
    case False
    then have way: "hint_under_way s" using assms by (simp add: owed_def daemon_inv_def)
    consider "dm_task s = Ended" | p where "dm_task s = Running" "dm_pos s = Some p" "p < dm_sent s"
      | "dm_task s = Running" "dm_wire s > 0" "dm_hints s < TRIGGER_CAP" | "dm_task s = Running" "dm_hints s > 0"
      using way Waiting by (auto simp: hint_under_way_def TRIGGER_CAP_def) fastforce
    then show ?thesis
    proof cases
      case 1
      then show ?thesis using work_step.stream_ended [OF Waiting] by blast
    next
      case 2
      then show ?thesis using work_step.forward by blast
    next
      case 3
      then show ?thesis using work_step.deliver [of s 1] by auto
    next
      case 4
      then have "dm_pc s = Waiting True" using assms(1) Waiting by (auto simp: daemon_inv_def)
      then show ?thesis using work_step.hint_trigger 4 by blast
    qed
  qed
qed (use work_step.fail work_step.wake work_step.settled in blast)+

text \<open>Runs of the programs, during which no pass starts.\<close>

lemma work_steps_stay:
  "work_step\<^sup>*\<^sup>* s s' \<Longrightarrow> daemon_inv s \<Longrightarrow> owed s \<Longrightarrow> dm_passes s \<le> dm_passes s' \<and> (dm_passes s' = dm_passes s \<longrightarrow> daemon_inv s' \<and> owed s')"
proof (induction rule: rtranclp_induct)
  case (step y z)
  then show ?case using work_step_passes [OF step.hyps(2)] work_step_inv [OF step.hyps(2)] work_step_owed [OF step.hyps(2)]
    by (metis le_antisym le_trans)
qed simp

lemma work_run_passes: "\<forall>i < n. work_step (f i) (f (Suc i)) \<Longrightarrow> dm_passes (f 0) \<le> dm_passes (f n)"
  by (induction n) (auto intro: le_trans [OF _ work_step_passes])

lemma work_run_work:
  assumes "f 0 = s" and "\<forall>i < n. work_step (f i) (f (Suc i))" and "dm_passes (f n) = dm_passes s"
  shows "daemon_work (f n) + n \<le> daemon_work s"
  using assms(2,3)
proof (induction n)
  case (Suc n)
  have mono: "dm_passes s \<le> dm_passes (f n)" using work_run_passes [of n f] Suc.prems(1) assms(1) by simp
  have step: "work_step (f n) (f (Suc n))" using Suc.prems(1) by simp
  then have "dm_passes (f n) = dm_passes s" using work_step_passes [OF step] mono Suc.prems(2) by simp
  then show ?case using Suc work_step_work [OF step] by fastforce
qed (simp add: assms(1))


text \<open>The first pass succeeds and opens a listener, which subscribes; then the server announces a change.\<close>

definition demo_listening :: daemon where
  "demo_listening = (pass_succeeded True daemon_init)\<lparr>dm_pos := Some 0\<rparr>"

lemmas daemon_defs = demo_listening_def pass_succeeded_def pass_failed_def daemon_init_def start_pass_def wake_up_def

lemma demo_listening_reachable: "daemon_reachable demo_listening"
proof -
  have "daemon_reachable (pass_succeeded True daemon_init)"
    by (rule daemon_reachable.work [OF daemon_reachable.init work_step.succeed]) (simp add: daemon_init_def)
  moreover have "work_step (pass_succeeded True daemon_init) demo_listening"
    using work_step.subscribe [of "pass_succeeded True daemon_init"] by (simp add: daemon_defs)
  ultimately show ?thesis by (rule daemon_reachable.work)
qed


section \<open>Listeners left behind\<close>

text \<open>
  A failed pass drops the client and the handle of the listener without closing the session: the listener goes on,
  and the next pass opens another tunnel.  Their number is not bounded.
\<close>

lemma failed_passes_leave_listeners: "\<exists>s. daemon_reachable s \<and> dm_orphans s = n \<and> dm_pc s = InPass \<and> dm_task s = NoListener"
proof (induction n)
  case 0
  show ?case using daemon_reachable.init by (intro exI [of _ daemon_init]) (simp add: daemon_init_def)
next
  case (Suc n)
  then obtain s where s: "daemon_reachable s" "dm_orphans s = n" "dm_pc s = InPass" "dm_task s = NoListener" by blast
  let ?a = "pass_succeeded True s"
  let ?b = "start_pass ?a"
  let ?c = "pass_failed ?b"
  have a: "daemon_reachable ?a" "dm_pc ?a = Waiting True"
    using daemon_reachable.work [OF s(1) work_step.succeed [OF s(3)]] by blast (use s(4) in \<open>simp add: daemon_defs\<close>)
  have b: "daemon_reachable ?b" by (rule daemon_reachable.env [OF a(1) env_step.interval [OF a(2)]])
  have c: "daemon_reachable ?c" by (rule daemon_reachable.work [OF b work_step.fail]) (simp add: daemon_defs)
  have "daemon_reachable (wake_up ?c)" by (rule daemon_reachable.work [OF c work_step.wake]) (simp add: daemon_defs)
  then show ?case using s by (intro exI [of _ "wake_up ?c"]) (simp add: daemon_defs)
qed

text \<open>
  A stream that is lost during a pass is replaced after it without another pass: a hint that was under way
  is lost, and only the interval, or another change, leads to the next pass.
\<close>

lemma hint_lost_with_stream:
  "\<exists>s s1 s2. daemon_reachable s \<and> dm_owed_hint s \<and> env_step s s1 \<and> work_step s1 s2 \<and> dm_pc s2 = Waiting True \<and>
     dm_passes s2 = dm_passes s \<and> dm_hints s2 = 0 \<and> dm_triggers s2 = 0 \<and> dm_wire s2 = 0 \<and> dm_pos s2 = None \<and> \<not> dm_owed_hint s2"
proof -
  let ?a = "start_pass demo_listening"
  let ?s = "?a\<lparr>dm_sent := 1, dm_owed_hint := True\<rparr>"
  let ?s1 = "?s\<lparr>dm_task := Ended, dm_pos := None, dm_wire := 0, dm_owed_hint := False\<rparr>"
  have a: "daemon_reachable ?a"
    by (rule daemon_reachable.env [OF demo_listening_reachable env_step.interval]) (simp add: daemon_defs)
  have "env_step ?a ?s" using env_step.fire [of ?a] by (simp add: daemon_defs)
  with a have "daemon_reachable ?s" by (rule daemon_reachable.env)
  moreover have "env_step ?s ?s1" using env_step.lose [of ?s] by (simp add: daemon_defs)
  moreover have "work_step ?s1 (pass_succeeded True ?s1)" by (rule work_step.succeed) (simp add: daemon_defs)
  ultimately show ?thesis by (intro exI [of _ ?s] exI [of _ ?s1] exI [of _ "pass_succeeded True ?s1"]) (simp add: daemon_defs)
qed

end
