(* ===== verification/SyncEntry.thy ===== *)
theory SyncEntry
  imports SyncSession SyncDaemon
begin

text \<open>
  Sessions as bytes: the task a sync server runs for a connection (\<open>apps/krymux-sync/src/main.rs\<close>), the reading
  loop of \<open>handle_sync_server\<close>, and the listener task of \<open>open_notify\<close> (\<open>daemon.rs\<close>).

  A connection is the list of its reads, an empty one being its end.  \<open>io\<close> gives the outcomes of the
  system calls made for the n-th message.

  Lemmas: a session depends only on the messages sent, not on how their bytes arrive, and the messages
  that come with the first are not lost; the listener turns hints into triggers, at least one and at most one
  for each.
\<close>

section \<open>The first batch\<close>

fun first_batch :: "sync_json \<Rightarrow> bytes \<Rightarrow> bytes list \<Rightarrow> (sync_message list \<times> bytes \<times> bytes list) option" where
  "first_batch J buf [] = None"
| "first_batch J buf (r # rs) =
     (if r = [] then None
      else case push J buf r of
        Inl e \<Rightarrow> None
      | Inr (msgs, buf) \<Rightarrow> if msgs \<noteq> [] then Some (msgs, buf, rs) else first_batch J buf rs)"

definition is_notify :: "sync_message list \<Rightarrow> bool" where
  "is_notify batch = (case batch of Json v # _ \<Rightarrow> str_field v ''t'' = T_NOTIFY_LISTEN | _ \<Rightarrow> False)"

section \<open>The loop of a session\<close>

text \<open>The n-th message and those after it, each with its outcomes.\<close>

fun numbered :: "(nat \<Rightarrow> srv_io) \<Rightarrow> nat \<Rightarrow> sync_message list \<Rightarrow> (srv_io \<times> sync_message) list" where
  "numbered io n [] = []"
| "numbered io n (m # ms) = (io n, m) # numbered io (Suc n) ms"

fun serve_sync ::
    "srv_env \<Rightarrow> sync_json \<Rightarrow> (nat \<Rightarrow> srv_io) \<Rightarrow> nat \<Rightarrow> sync_message list \<Rightarrow> bytes \<Rightarrow> bytes list \<Rightarrow> srv_st \<Rightarrow> srv_result" where
  "serve_sync E J io n messages buf reads st =
     (case srv_run E (numbered io n messages) st of
        (st, out, Continue) \<Rightarrow>
          (case reads of
             [] \<Rightarrow> (st, out, Continue)
           | r # rs \<Rightarrow>
               if r = [] then (st, out, Finished)
               else case push J buf r of
                 Inl e \<Rightarrow> (st, out, Failed)
               | Inr (ms, buf) \<Rightarrow>
                   (case serve_sync E J io (n + length messages) ms buf rs st of (st, out', v) \<Rightarrow> (st, out @ out', v)))
      | r \<Rightarrow> r)"

declare serve_sync.simps [simp del]

datatype session = NoSession | NotifySession "bytes list" | SyncSession srv_result

definition accept_session :: "srv_env \<Rightarrow> sync_json \<Rightarrow> (nat \<Rightarrow> srv_io) \<Rightarrow> bytes list \<Rightarrow> srv_st \<Rightarrow> session" where
  "accept_session E J io reads st =
     (case first_batch J [] reads of
        None \<Rightarrow> NoSession
      | Some (batch, buf, rs) \<Rightarrow>
          if is_notify batch then NotifySession rs else SyncSession (serve_sync E J io 0 batch buf rs st))"

section \<open>Notify sessions\<close>

datatype notify_event = HintSent | HintsMissed | HubClosed | ClientData nat | ReadError

text \<open>\<open>handle_notify_session\<close> after its acknowledgement: what its \<open>select\<close> yields; \<open>ok\<close> says whether the n-th write succeeds.\<close>

fun notify_loop :: "(nat \<Rightarrow> bool) \<Rightarrow> nat \<Rightarrow> notify_event list \<Rightarrow> sync_message list \<times> verdict" where
  "notify_loop ok n [] = ([], Continue)"
| "notify_loop ok n (e # es) =
     (case e of
        HubClosed \<Rightarrow> ([], Finished)
      | ReadError \<Rightarrow> ([], Failed)
      | ClientData k \<Rightarrow> if k = 0 then ([], Finished) else notify_loop ok n es
      | _ \<Rightarrow> if ok n then (case notify_loop ok (Suc n) es of (out, v) \<Rightarrow> (Json rescan_hint # out, v)) else ([], Failed))"

definition handle_notify_session :: "(nat \<Rightarrow> bool) \<Rightarrow> notify_event list \<Rightarrow> sync_message list \<times> verdict" where
  "handle_notify_session ok es =
     (if ok 0 then (case notify_loop ok 1 es of (out, v) \<Rightarrow> (Json notify_ack # out, v)) else ([], Failed))"

definition is_hint :: "sync_message \<Rightarrow> bool" where
  "is_hint m = (case m of Json v \<Rightarrow> str_field v ''t'' = T_RESCAN_HINT | Bin _ \<Rightarrow> False)"

text \<open>The task of \<open>open_notify\<close>: the triggers it sent and whether it has ended; \<open>opened\<close> says whether the n-th send finds a
  receiver.\<close>

fun notify_listener :: "sync_json \<Rightarrow> (nat \<Rightarrow> bool) \<Rightarrow> nat \<Rightarrow> bytes \<Rightarrow> bytes list \<Rightarrow> nat \<times> bool" where
  "notify_listener J opened n buf [] = (n, False)"
| "notify_listener J opened n buf (r # rs) =
     (if r = [] then (n, True)
      else case push J buf r of
        Inl e \<Rightarrow> (n, True)
      | Inr (msgs, buf) \<Rightarrow>
          if list_ex is_hint msgs then (if opened n then notify_listener J opened (Suc n) buf rs else (n, True))
          else notify_listener J opened n buf rs)"

section \<open>Cuts do not matter\<close>

lemma numbered_append: "numbered io n (a @ b) = numbered io n a @ numbered io (n + length a) b"
  by (induction a arbitrary: n) simp_all

lemma srv_run_append:
  "srv_run E (a @ b) st =
     (case srv_run E a st of (st', out, Continue) \<Rightarrow> (case srv_run E b st' of (st'', out', v) \<Rightarrow> (st'', out @ out', v)) | r \<Rightarrow> r)"
proof (induction a arbitrary: st)
  case (Cons x a)
  obtain io m where x: "x = (io, m)" by fastforce
  obtain st1 out1 v1 where one: "srv_msg E io m st = (st1, out1, v1)" by (metis prod_cases3)
  show ?case by (cases v1) (auto simp: x one Cons.IH split: prod.split verdict.split)
qed (simp split: prod.split)

lemma serve_sync_messages:
  assumes "push_all J buf reads = Ok (ms, r)" and "[] \<notin> set reads"
  shows "serve_sync E J io n messages buf reads st = srv_run E (numbered io n (messages @ ms)) st"
  using assms
proof (induction reads arbitrary: n messages buf st ms)
  case Nil
  then show ?case by (auto simp: serve_sync.simps split: prod.split verdict.split)
next
  case (Cons c cs)
  obtain ms1 buf1 ms2 where p: "push J buf c = Ok (ms1, buf1)" "push_all J buf1 cs = Ok (ms2, r)" "ms = ms1 @ ms2"
    using Cons.prems(1) by (auto split: sum.splits)
  have "serve_sync E J io k ms1 buf1 cs s = srv_run E (numbered io k (ms1 @ ms2)) s" for k s
    using Cons.IH [OF p(2)] Cons.prems(2) by simp
  moreover have "c \<noteq> []" using Cons.prems(2) by auto
  ultimately show ?case
    using p(1) by (subst serve_sync.simps) (auto simp: p(3) numbered_append [of io n messages] srv_run_append split: prod.split verdict.split)
qed

lemma first_batch_messages:
  assumes "push_all J buf reads = Ok (ms, r)" and "[] \<notin> set reads" and "ms \<noteq> []"
  shows "\<exists>batch buf' rs later. first_batch J buf reads = Some (batch, buf', rs) \<and> batch \<noteq> [] \<and>
    push_all J buf' rs = Ok (later, r) \<and> ms = batch @ later \<and> [] \<notin> set rs"
  using assms
proof (induction reads arbitrary: buf ms)
  case (Cons c cs)
  obtain ms1 buf1 ms2 where p: "push J buf c = Ok (ms1, buf1)" "push_all J buf1 cs = Ok (ms2, r)" "ms = ms1 @ ms2"
    using Cons.prems(1) by (auto split: sum.splits)
  have c: "c \<noteq> []" "[] \<notin> set cs" using Cons.prems(2) by auto
  show ?case
  proof (cases "ms1 = []")
    case True
    then show ?thesis using Cons.IH [OF p(2)] Cons.prems(3) p c by auto
  next
    case False
    then show ?thesis using p c by auto
  qed
qed simp

text \<open>
  C33.  A session depends only on the messages.  Whatever messages a client sends, and however their bytes
  are cut into reads, the server opens a notify session exactly when the first message asks for one, and otherwise
  handles all messages, those that came together with the first included, each once and in order: the state,
  the answers and the end of the session are those of handling the messages one by one.
\<close>

theorem session_independent_of_cuts:
  assumes "list_all (sync_sendable J) ms" and "ms \<noteq> []" and "concat reads = concat (map (encode_message J) ms)" and "[] \<notin> set reads"
  shows "if is_notify ms then \<exists>rs. accept_session E J io reads st = NotifySession rs
    else accept_session E J io reads st = SyncSession (srv_run E (numbered io 0 ms) st)"
proof -
  have "push_all J [] reads = Ok (ms, [])"
    using sync.reads_roundtrip [OF assms(1,3)] by (simp add: push_all_drain [OF sync.dec_nil])
  then obtain batch buf rs later where b: "first_batch J [] reads = Some (batch, buf, rs)" "batch \<noteq> []"
    "push_all J buf rs = Ok (later, [])" "ms = batch @ later" "[] \<notin> set rs"
    using first_batch_messages [OF _ assms(4,2)] by blast
  have "is_notify batch = is_notify ms" using b(2,4) by (cases batch) (auto simp: is_notify_def split: sync_message.split)
  then show ?thesis using b serve_sync_messages [OF b(3,5), of E io 0 batch st] by (simp add: accept_session_def)
qed

theorem session_independent_of_cuts_witness:
  "accept_session demo_srv demo_sync_json (\<lambda>_. demo_io) [[0, 0, 0], [1, 1, 0x6e, 0, 0, 0, 2, 2, 7], [8]] demo_st =
     SyncSession (srv_run demo_srv [(demo_io, Json JNull), (demo_io, Bin [7, 8])] demo_st)"
proof -
  have "\<not> is_notify [Json JNull, Bin [7, 8]]" by (simp add: is_notify_def str_field_def json_index_def T_NOTIFY_LISTEN_def)
  then show ?thesis
    using session_independent_of_cuts [of demo_sync_json "[Json JNull, Bin [7, 8]]" "[[0, 0, 0], [1, 1, 0x6e, 0, 0, 0, 2, 2, 7], [8]]"
        demo_srv "\<lambda>_. demo_io" demo_st]
    by (simp add: sync_sendable_def demo_sync_json_def MAX_MSG_def encode_message_def encode_json_def encode_bin_def
        encode_sync_frame_def MSG_JSON_def MSG_BIN_def u32_to_be_def be_simps)
qed

section \<open>Hints\<close>

text \<open>While the task finds a receiver, it sends a trigger for every read that completes a hint.\<close>

lemma listener_triggers:
  assumes "push_all J buf reads = Ok (ms, r)" and "[] \<notin> set reads"
  shows "\<exists>k. notify_listener J (\<lambda>_. True) n buf reads = (n + k, False) \<and> k \<le> length (filter is_hint ms) \<and> (list_ex is_hint ms \<longrightarrow> k > 0)"
  using assms
proof (induction reads arbitrary: n buf ms)
  case (Cons c cs)
  obtain ms1 buf1 ms2 where p: "push J buf c = Ok (ms1, buf1)" "push_all J buf1 cs = Ok (ms2, r)" "ms = ms1 @ ms2"
    using Cons.prems(1) by (auto split: sum.splits)
  have c: "c \<noteq> []" "[] \<notin> set cs" using Cons.prems(2) by auto
  show ?case
  proof (cases "list_ex is_hint ms1")
    case True
    obtain k where "notify_listener J (\<lambda>_. True) (Suc n) buf1 cs = (Suc n + k, False)" "k \<le> length (filter is_hint ms2)"
      using Cons.IH [OF p(2) c(2)] by blast
    moreover have "filter is_hint ms1 \<noteq> []" using True by (auto simp: filter_empty_conv list_ex_iff)
    then have "1 \<le> length (filter is_hint ms1)" by (simp add: Suc_le_eq)
    ultimately show ?thesis using True p c by (intro exI [of _ "Suc k"]) auto
  next
    case False
    then show ?thesis using Cons.IH [OF p(2) c(2), of n] p c by auto
  qed
qed simp

lemma notify_loop_hints:
  assumes "list_all (\<lambda>e. e = HintSent \<or> e = HintsMissed \<or> (\<exists>k > 0. e = ClientData k)) es"
  shows "notify_loop (\<lambda>_. True) n es = (map (\<lambda>_. Json rescan_hint) (filter (\<lambda>e. e = HintSent \<or> e = HintsMissed) es), Continue)"
  using assms by (induction es arbitrary: n) auto

text \<open>
  Hints cross the wire.  As long as the session and its writes hold, every hint the session takes from the hub,
  also the report that it missed some, is written once after the acknowledgement; and however the bytes
  are cut, the listener at the other end sends at least one trigger if there was a hint, and never more
  triggers than hints.
\<close>

theorem hints_cross_wire:
  assumes "list_all (\<lambda>e. e = HintSent \<or> e = HintsMissed \<or> (\<exists>k > 0. e = ClientData k)) es"
    and "handle_notify_session (\<lambda>_. True) es = (out, v)"
    and "sync_sendable J (Json notify_ack)" and "sync_sendable J (Json rescan_hint)"
    and "concat reads = concat (map (encode_message J) out)" and "[] \<notin> set reads"
  shows "out = Json notify_ack # replicate (length (filter (\<lambda>e. e = HintSent \<or> e = HintsMissed) es)) (Json rescan_hint) \<and> v = Continue \<and>
    (\<exists>k. notify_listener J (\<lambda>_. True) 0 [] reads = (k, False) \<and> k \<le> length (filter (\<lambda>e. e = HintSent \<or> e = HintsMissed) es) \<and>
       (list_ex (\<lambda>e. e = HintSent \<or> e = HintsMissed) es \<longrightarrow> k > 0))"
proof -
  let ?h = "filter (\<lambda>e. e = HintSent \<or> e = HintsMissed) es"
  have out: "out = Json notify_ack # replicate (length ?h) (Json rescan_hint)" "v = Continue"
    using assms(2) notify_loop_hints [OF assms(1), of 1] by (auto simp: handle_notify_session_def map_replicate_const)
  have "list_all (sync_sendable J) out" using assms(3,4) by (simp add: out list_all_iff)
  then have "push_all J [] reads = Ok (out, [])"
    using sync.reads_roundtrip [OF _ assms(5)] by (simp add: push_all_drain [OF sync.dec_nil])
  from listener_triggers [OF this assms(6), of 0] obtain k where
    k: "notify_listener J (\<lambda>_. True) 0 [] reads = (k, False)" "k \<le> length (filter is_hint out)" "list_ex is_hint out \<longrightarrow> k > 0" by auto
  have types: "\<not> is_hint (Json notify_ack)" "is_hint (Json rescan_hint)"
    by (simp_all add: is_hint_def notify_ack_def rescan_hint_def str_field_def json_index_def T_defs)
  have "length (filter is_hint out) = length ?h" using types by (simp add: out)
  moreover have "list_ex is_hint out" if "list_ex (\<lambda>e. e = HintSent \<or> e = HintsMissed) es"
  proof -
    have "?h \<noteq> []" using that by (auto simp: filter_empty_conv list_ex_iff)
    then show ?thesis using types by (simp add: out list_ex_iff)
  qed
  ultimately show ?thesis using out k by auto
qed

definition demo_hint_json :: sync_json where
  "demo_hint_json = \<lparr>sj_parse = (\<lambda>b. Ok (if b = [1] then notify_ack else rescan_hint)), sj_print = (\<lambda>v. if v = notify_ack then [1] else [2])\<rparr>"

theorem hints_cross_wire_witness:
  "\<exists>k. notify_listener demo_hint_json (\<lambda>_. True) 0 [] [[0, 0, 0, 1, 1, 1, 0, 0], [0, 1, 1], [2, 0, 0, 0, 1, 1, 2]] = (k, False) \<and> 0 < k \<and> k \<le> 2"
proof -
  have "rescan_hint \<noteq> notify_ack" by (simp add: rescan_hint_def notify_ack_def T_defs)
  then show ?thesis
    using hints_cross_wire [of "[HintSent, ClientData 1, HintsMissed]" "[Json notify_ack, Json rescan_hint, Json rescan_hint]" Continue demo_hint_json
        "[[0, 0, 0, 1, 1, 1, 0, 0], [0, 1, 1], [2, 0, 0, 0, 1, 1, 2]]"]
    by (auto simp: handle_notify_session_def sync_sendable_def demo_hint_json_def MAX_MSG_def encode_message_def encode_json_def
        encode_sync_frame_def MSG_JSON_def u32_to_be_def be_simps)
qed

end
