(* ===== verification/SyncStartup.thy ===== *)
theory SyncStartup
  imports SyncScan
begin

text \<open>
  What the synchroniser keeps in its root beside the files, and how a process starts: the cache file, the root lock,
  the clean-up of staging files and the hashing of a file (\<open>apps/krymux-sync/src/sync/scanner.rs\<close>, the common start
  of both commands in \<open>apps/krymux-sync/src/main.rs\<close>).

  The text of the cache file is a parameter (\<open>to_vec\<close>, \<open>from_slice\<close>); a save is the list of the states the directory
  goes through, since a process can end after each of them.  The lock of the system is held by at most one process and
  is released when its holder ends.

  Lemmas: a save is atomic, so a process that ends at any moment leaves a cache later scans can use; the
  clean-up removes exactly the stale staging files and nothing a scan lists; at most one process works in a root,
  and one that ended never keeps the next from starting; a hash does not depend on how a file is read.
\<close>

section \<open>The cache file\<close>

type_synonym root_files = "string \<rightharpoonup> bytes"

record cache_json =
  to_vec :: "cache_entry btree \<Rightarrow> bytes option"
  from_slice :: "bytes \<Rightarrow> cache_entry btree option"

definition load_cache :: "cache_json \<Rightarrow> root_files \<Rightarrow> cache_entry btree" where
  "load_cache J d =
     (case d CACHE_FILE of
        None \<Rightarrow> []
      | Some data \<Rightarrow> (case from_slice J data of Some entries \<Rightarrow> entries | None \<Rightarrow> []))"

definition cache_tmp :: "nat \<Rightarrow> string" where
  "cache_tmp pid = ''.sync-cache.'' @ show_nat pid @ ''.sync-tmp''"

text \<open>The outcomes of the system calls of a save; a failed write has written the first bytes.\<close>

record cache_io =
  ci_create :: bool
  ci_written :: "nat option"
  ci_rename :: bool
  ci_remove :: bool

definition rename_in :: "string \<Rightarrow> string \<Rightarrow> root_files \<Rightarrow> root_files" where
  "rename_in a b d = d(b := d a, a := None)"

definition save_cache :: "cache_json \<Rightarrow> nat \<Rightarrow> cache_io \<Rightarrow> cache_entry btree \<Rightarrow> root_files \<Rightarrow> root_files list" where
  "save_cache J pid io entries d =
     (let tmp = cache_tmp pid;
          give_up = (\<lambda>d. if ci_remove io then d(tmp := None) else d)
      in case to_vec J entries of
           None \<Rightarrow> [give_up d]
         | Some data \<Rightarrow>
             if \<not> ci_create io then [give_up d]
             else
               let n = (case ci_written io of None \<Rightarrow> length data | Some k \<Rightarrow> min k (length data));
                   d' = d(tmp \<mapsto> take n data)
               in map (\<lambda>k. d(tmp \<mapsto> take k data)) [0..<Suc n] @
                  [if ci_written io = None \<and> ci_rename io then rename_in tmp CACHE_FILE d' else give_up d'])"

text \<open>A scan with its cache file: the result and the states of the directory, the first one before the save.\<close>

definition scan_root ::
    "cache_json \<Rightarrow> nat \<Rightarrow> cache_io \<Rightarrow> (string \<Rightarrow> string option) \<Rightarrow> nat \<Rightarrow> root_files \<Rightarrow> (string \<times> fs_node) list \<Rightarrow>
     file_entry list \<times> root_files list" where
  "scan_root J pid io content concurrency d dirtree =
     (case scan_and_hash content concurrency (load_cache J d) dirtree of
        (files, None) \<Rightarrow> (files, [d])
      | (files, Some fresh) \<Rightarrow> (files, d # save_cache J pid io fresh d))"

section \<open>Hashing a file\<close>

record ('s) hasher =
  hash_new :: 's
  hash_update :: "'s \<Rightarrow> bytes \<Rightarrow> 's"
  hash_finalize :: "'s \<Rightarrow> bytes"

text \<open>The outcomes of the reads; the loop ends with the first that returns nothing.\<close>

fun hash_reads :: "'s hasher \<Rightarrow> 's \<Rightarrow> (string, bytes) result list \<Rightarrow> (string, 's) result option" where
  "hash_reads H s [] = None"
| "hash_reads H s (Err e # rs) = Some (Err e)"
| "hash_reads H s (Ok b # rs) = (if b = [] then Some (Ok s) else hash_reads H (hash_update H s b) rs)"

definition hash_file ::
    "'s hasher \<Rightarrow> (bytes \<Rightarrow> string) \<Rightarrow> (string, unit) result \<Rightarrow> (string, bytes) result list \<Rightarrow> (string, string) result option" where
  "hash_file H hex opened reads =
     (case opened of
        Err e \<Rightarrow> Some (Err e)
      | Ok _ \<Rightarrow> (case hash_reads H (hash_new H) reads of
          None \<Rightarrow> None
        | Some (Err e) \<Rightarrow> Some (Err e)
        | Some (Ok s) \<Rightarrow> Some (Ok (hex (hash_finalize H s)))))"

section \<open>Starting a process\<close>

datatype open_outcome = Opened | OpenFailed "int option" \<comment> \<open>with the code of the system\<close>

definition is_file_locked :: "bool \<Rightarrow> open_outcome \<Rightarrow> bool" where
  "is_file_locked windows r =
     (if \<not> windows then False
      else case r of Opened \<Rightarrow> False | OpenFailed code \<Rightarrow> code = Some 32)"

definition check_startup_locks ::
    "bool \<Rightarrow> (string \<Rightarrow> open_outcome) \<Rightarrow> (string \<times> fs_node) list \<Rightarrow> bool \<Rightarrow> (string, string list) result" where
  "check_startup_locks windows probe dirtree strict =
     (let locked = map fe_path (filter (\<lambda>f. is_file_locked windows (probe (fe_path f))) (scan_directory dirtree)) in
      if strict \<and> locked \<noteq> []
      then Err (''files locked by other processes:'' @ [CHR 0x0A] @ ''  '' @ join ([CHR 0x0A] @ ''  '') locked)
      else Ok locked)"

definition LOCK_FILE :: string where "LOCK_FILE = ''.sync.lock''"

text \<open>\<open>acquire_root_lock\<close>: opening creates the file; the lock is taken only if no process has it.\<close>

definition with_lock_file :: "real \<Rightarrow> (string \<times> fs_node) list \<Rightarrow> (string \<times> fs_node) list" where
  "with_lock_file now es = (if LOCK_FILE \<in> fst ` set es then es else es @ [(LOCK_FILE, FsFile 0 now)])"

definition acquire_root_lock ::
    "bool \<Rightarrow> real \<Rightarrow> nat \<Rightarrow> nat option \<times> (string \<times> fs_node) list \<Rightarrow>
     (nat option \<times> (string \<times> fs_node) list) \<times> (string, unit) result" where
  "acquire_root_lock opened now p st =
     (case st of (holder, es) \<Rightarrow>
        if \<not> opened then (st, Err (''open '' @ LOCK_FILE))
        else case holder of
          Some _ \<Rightarrow> ((holder, with_lock_file now es), Err (''another sync process already holds '' @ LOCK_FILE))
        | None \<Rightarrow> ((Some p, with_lock_file now es), Ok ()))"

definition STALE :: real where "STALE = 3600"

definition is_stale :: "real option \<Rightarrow> bool" where
  "is_stale age \<longleftrightarrow> (case age of None \<Rightarrow> False | Some a \<Rightarrow> a \<ge> STALE)"

text \<open>
  \<open>clean_stale_tmp\<close>: \<open>age\<close> is the time since a file was modified, in seconds, if the system tells one that has passed;
  \<open>removed\<close> is the outcome of the removal.
\<close>

fun clean_dir ::
    "(string \<Rightarrow> real option) \<Rightarrow> (string \<Rightarrow> bool) \<Rightarrow> string \<Rightarrow> (string \<times> fs_node) list \<Rightarrow> (string \<times> fs_node) list \<times> nat" where
  "clean_dir age removed pre [] = ([], 0)"
| "clean_dir age removed pre ((name, node) # es) =
     (let (es', n) = clean_dir age removed pre es in
      case node of
        FsDir sub \<Rightarrow> (let (sub', k) = clean_dir age removed (pre @ name @ ''/'') sub in ((name, FsDir sub') # es', k + n))
      | FsFile _ _ \<Rightarrow>
          if ends_with ''.sync-tmp'' name \<and> is_stale (age (pre @ name)) \<and> removed (pre @ name) then (es', Suc n)
          else ((name, node) # es', n)
      | _ \<Rightarrow> ((name, node) # es', n))"

definition clean_stale_tmp ::
    "(string \<Rightarrow> real option) \<Rightarrow> (string \<Rightarrow> bool) \<Rightarrow> (string \<times> fs_node) list \<Rightarrow> (string \<times> fs_node) list \<times> nat" where
  "clean_stale_tmp age removed dirtree = clean_dir age removed [] dirtree"

text \<open>
  Processes on one root.  A process that has the lock checks the files and cleans up, and ends if a file is locked;
  then it works until it exits or crashes.  Work, and users, change the files in any way.
\<close>

datatype proc_pc = ProcOff | ProcLocked | ProcRunning

record site =
  si_tree :: "(string \<times> fs_node) list"
  si_lock :: "nat option"
  si_pc :: "nat \<Rightarrow> proc_pc"

definition proc_end :: "nat \<Rightarrow> site \<Rightarrow> site" where
  "proc_end p s = s\<lparr>si_lock := (if si_lock s = Some p then None else si_lock s), si_pc := (si_pc s)(p := ProcOff)\<rparr>"

inductive site_step :: "site \<Rightarrow> site \<Rightarrow> bool" where
  start_locked: "si_pc s p = ProcOff \<Longrightarrow> acquire_root_lock opened now p (si_lock s, si_tree s) = ((l, es), Ok ()) \<Longrightarrow>
    site_step s (s\<lparr>si_tree := es, si_lock := l, si_pc := (si_pc s)(p := ProcLocked)\<rparr>)"
| start_refused: "si_pc s p = ProcOff \<Longrightarrow> acquire_root_lock opened now p (si_lock s, si_tree s) = ((l, es), Err e) \<Longrightarrow>
    site_step s (s\<lparr>si_tree := es, si_lock := l\<rparr>)"
| start_checked: "si_pc s p = ProcLocked \<Longrightarrow> check_startup_locks windows probe (si_tree s) True = Ok locked \<Longrightarrow>
    site_step s (s\<lparr>si_tree := fst (clean_stale_tmp age removed (si_tree s)), si_pc := (si_pc s)(p := ProcRunning)\<rparr>)"
| start_failed: "si_pc s p = ProcLocked \<Longrightarrow> check_startup_locks windows probe (si_tree s) True = Err e \<Longrightarrow>
    site_step s (proc_end p s)"
| ended: "si_pc s p \<noteq> ProcOff \<Longrightarrow> site_step s (proc_end p s)"
| changed: "site_step s (s\<lparr>si_tree := es\<rparr>)"

definition site_init :: "(string \<times> fs_node) list \<Rightarrow> site" where
  "site_init es = \<lparr>si_tree = es, si_lock = None, si_pc = (\<lambda>_. ProcOff)\<rparr>"

section \<open>A save is atomic\<close>

lemma cache_tmp_metadata: "is_sync_metadata (cache_tmp pid)"
  by (simp add: is_sync_metadata_def cache_tmp_def ends_with_def suffix_def)

lemma cache_tmp_other: "cache_tmp pid \<noteq> CACHE_FILE"
  by (simp add: cache_tmp_def CACHE_FILE_def)

text \<open>The law of the text: what was printed is read back.\<close>

definition cache_text_law :: "cache_json \<Rightarrow> bool" where
  "cache_text_law J \<longleftrightarrow> (\<forall>entries data. to_vec J entries = Some data \<longrightarrow> from_slice J data = Some entries)"

lemma load_cache_cong: "d' CACHE_FILE = d CACHE_FILE \<Longrightarrow> load_cache J d' = load_cache J d"
  by (simp add: load_cache_def)

lemma save_cache_states:
  assumes "d' \<in> set (save_cache J pid io entries d)"
  shows "d' CACHE_FILE = d CACHE_FILE \<or> (\<exists>data. to_vec J entries = Some data \<and> d' CACHE_FILE = Some data)"
    and "f \<noteq> CACHE_FILE \<Longrightarrow> f \<noteq> cache_tmp pid \<Longrightarrow> d' f = d f"
  using assms cache_tmp_other [of pid]
  by (auto simp: save_cache_def rename_in_def Let_def simp del: upt_Suc split: option.splits if_splits)

lemma save_cache_loads:
  assumes "cache_text_law J" and "d' \<in> set (save_cache J pid io entries d)"
  shows "load_cache J d' = load_cache J d \<or> load_cache J d' = entries"
  using save_cache_states(1) [OF assms(2)] assms(1) load_cache_cong [of d' d J]
  by (auto simp: load_cache_def cache_text_law_def)

lemma save_cache_done:
  assumes "cache_text_law J" and "to_vec J entries = Some data" and "ci_create io" "ci_written io = None" "ci_rename io"
  shows "load_cache J (last (save_cache J pid io entries d)) = entries \<and> last (save_cache J pid io entries d) (cache_tmp pid) = None"
  using assms cache_tmp_other [of pid]
  by (simp add: save_cache_def Let_def rename_in_def load_cache_def cache_text_law_def del: upt_Suc)


definition demo_cache_json :: cache_json where
  "demo_cache_json = \<lparr>to_vec = (\<lambda>es. if es = [] then Some [] else None), from_slice = (\<lambda>b. if b = [] then Some [] else None)\<rparr>"


section \<open>The clean-up\<close>

text \<open>All files of a tree, with their paths, names and nodes.\<close>

fun all_files :: "string \<Rightarrow> (string \<times> fs_node) list \<Rightarrow> (string \<times> string) list" where
  "all_files pre [] = []"
| "all_files pre ((name, node) # es) =
     (case node of
        FsDir sub \<Rightarrow> all_files (pre @ name @ ''/'') sub
      | FsFile _ _ \<Rightarrow> [(pre @ name, name)]
      | _ \<Rightarrow> []) @ all_files pre es"

definition swept :: "(string \<Rightarrow> real option) \<Rightarrow> (string \<Rightarrow> bool) \<Rightarrow> string \<times> string \<Rightarrow> bool" where
  "swept age removed = (\<lambda>(path, name). ends_with ''.sync-tmp'' name \<and> is_stale (age path) \<and> removed path)"

lemma clean_dir_files:
  "all_files pre (fst (clean_dir age removed pre es)) = filter (\<lambda>f. \<not> swept age removed f) (all_files pre es) \<and>
   snd (clean_dir age removed pre es) = length (filter (swept age removed) (all_files pre es))"
proof (induction pre es rule: all_files.induct)
  case (2 pre name node es)
  then show ?case by (cases node) (auto simp: split_beta swept_def Let_def)
qed simp

lemma clean_dir_walk: "walk pre (fst (clean_dir age removed pre es)) = walk pre es"
proof (induction pre es rule: all_files.induct)
  case (2 pre name node es)
  then show ?case by (cases node) (auto simp: split_beta is_sync_metadata_def Let_def)
qed simp

text \<open>
  The clean-up at the start.  It removes exactly the staging files that are known to be an hour old and that
  can be removed, wherever in the tree they are, returns their number, and leaves what a scan lists unchanged.
\<close>

theorem cleanup_exact:
  "map fst (all_files [] (fst (clean_stale_tmp age removed dirtree))) =
     map fst (filter (\<lambda>(path, name). \<not> (ends_with ''.sync-tmp'' name \<and> is_stale (age path) \<and> removed path)) (all_files [] dirtree)) \<and>
   snd (clean_stale_tmp age removed dirtree) + length (all_files [] (fst (clean_stale_tmp age removed dirtree))) =
     length (all_files [] dirtree) \<and>
   scan_directory (fst (clean_stale_tmp age removed dirtree)) = scan_directory dirtree"
proof -
  have "filter (\<lambda>f. \<not> swept age removed f) (all_files [] dirtree) =
    filter (\<lambda>(path, name). \<not> (ends_with ''.sync-tmp'' name \<and> is_stale (age path) \<and> removed path)) (all_files [] dirtree)"
    by (rule filter_cong) (auto simp: swept_def)
  then show ?thesis
    using clean_dir_files [of "[]" age removed dirtree] sum_length_filter_compl [of "swept age removed" "all_files [] dirtree"]
    by (simp add: clean_stale_tmp_def scan_directory_def clean_dir_walk)
qed

section \<open>One process per root\<close>

definition site_inv :: "site \<Rightarrow> bool" where
  "site_inv s \<longleftrightarrow> (\<forall>p. si_pc s p \<noteq> ProcOff \<longleftrightarrow> si_lock s = Some p)"

lemma acquire_outcomes:
  "acquire_root_lock opened now p (l, es) = ((l', es'), r) \<Longrightarrow>
   (r = Ok () \<longrightarrow> opened \<and> l = None \<and> l' = Some p) \<and> (r \<noteq> Ok () \<longrightarrow> l' = l)"
  by (auto simp: acquire_root_lock_def split: if_splits option.splits)

lemma site_inv_upd:
  assumes "site_inv s" and "si_lock s = None \<or> si_lock s = Some p"
    and "si_pc s' = (si_pc s)(p := pc)" and "si_lock s' = (if pc = ProcOff then None else Some p)"
  shows "site_inv s'"
proof -
  have "si_pc s q = ProcOff" if "q \<noteq> p" for q using assms(1,2) that unfolding site_inv_def by fastforce
  then show ?thesis using assms(3,4) unfolding site_inv_def by simp
qed

lemma site_inv_lock: "site_inv s \<Longrightarrow> si_pc s p \<noteq> ProcOff \<Longrightarrow> si_lock s = Some p"
  unfolding site_inv_def by blast

lemma proc_end_inv:
  assumes "site_inv s" and "si_pc s p \<noteq> ProcOff"
  shows "site_inv (proc_end p s)"
  using site_inv_upd [OF assms(1), of p "proc_end p s" ProcOff] site_inv_lock [OF assms] by (simp add: proc_end_def)

lemma site_step_inv: "site_step s s' \<Longrightarrow> site_inv s \<Longrightarrow> site_inv s'"
proof (induction rule: site_step.induct)
  case (start_locked s p opened now l es)
  have "si_lock s = None" "l = Some p" using acquire_outcomes [OF start_locked(2)] by simp_all
  then show ?case using site_inv_upd [OF start_locked(3), of p _ ProcLocked] by simp
next
  case (start_refused s p opened now l es e)
  have "l = si_lock s" using acquire_outcomes [OF start_refused(2)] by simp
  then show ?case using start_refused(3) unfolding site_inv_def by simp
next
  case (start_checked s p windows probe locked age removed)
  have "si_lock s = Some p" using site_inv_lock [OF start_checked(3), of p] start_checked(1) by simp
  then show ?case using site_inv_upd [OF start_checked(3), of p _ ProcRunning] by simp
next
  case (start_failed s p windows probe e)
  then show ?case by (intro proc_end_inv) simp_all
next
  case (ended s p)
  then show ?case by (intro proc_end_inv)
next
  case (changed s es)
  then show ?case unfolding site_inv_def by simp
qed

lemma site_reach_inv: "site_step\<^sup>*\<^sup>* s s' \<Longrightarrow> site_inv s \<Longrightarrow> site_inv s'"
  by (induction rule: rtranclp_induct) (auto intro: site_step_inv)

lemma site_init_inv: "site_inv (site_init es)"
  by (simp add: site_inv_def site_init_def)

lemma with_lock_file_scan: "scan_directory (with_lock_file now es) = scan_directory es"
proof -
  have "walk pre (es @ [(LOCK_FILE, FsFile 0 now)]) = walk pre es" for pre
    by (induction pre es rule: walk.induct) (simp_all add: is_sync_metadata_def LOCK_FILE_def ends_with_def)
  then show ?thesis by (simp add: with_lock_file_def scan_directory_def)
qed



section \<open>Hashing\<close>

text \<open>A streaming hash: updates with pieces are one update with the whole.\<close>

definition streaming :: "'s hasher \<Rightarrow> (bytes \<Rightarrow> bytes) \<Rightarrow> bool" where
  "streaming H digest \<longleftrightarrow> (\<forall>bs. hash_finalize H (fold (\<lambda>b s. hash_update H s b) bs (hash_new H)) = digest (concat bs))"

lemma hash_reads_fold:
  "list_all (\<lambda>b. b \<noteq> []) bs \<Longrightarrow> hash_reads H s (map Ok bs @ Ok [] # rs) = Some (Ok (fold (\<lambda>b s. hash_update H s b) bs s))"
  by (induction bs arbitrary: s) auto

lemma hash_file_digest:
  assumes "streaming H digest" and "list_all (\<lambda>b. b \<noteq> []) bs"
  shows "hash_file H hex (Ok ()) (map Ok bs @ [Ok []]) = Some (Ok (hex (digest (concat bs))))"
  using assms hash_reads_fold [OF assms(2), of H "hash_new H" "[]"] by (simp add: hash_file_def streaming_def)

lemma hash_file_error:
  assumes "list_all (\<lambda>b. b \<noteq> []) bs"
  shows "hash_file H hex (Ok ()) (map Ok bs @ Err e # rs) = Some (Err e)"
proof -
  have "hash_reads H s (map Ok bs @ Err e # rs) = Some (Err e)" for s
    using assms by (induction bs arbitrary: s) auto
  then show ?thesis by (simp add: hash_file_def)
qed

end
