(* ===== verification/SyncMain.thy ===== *)
theory SyncMain
  imports SyncEntry SyncStartup Tunnel
begin

text \<open>
  The synchroniser as a program: \<open>run\<close> and \<open>main\<close> of \<open>apps/krymux-sync/src/main.rs\<close>, \<open>run\<close>, \<open>one_pass\<close> and \<open>do_sync\<close> of
  \<open>sync/daemon.rs\<close>, the construction of the hub in \<open>sync/notify.rs\<close>, and the names a Windows build refuses (\<open>sync/mod.rs\<close>).

  The outcomes of the system calls and of the library are arguments.  A stream that was opened and the pass run on it are
  functions of the session, as in the theories that model them.

  Lemmas: a start is a sequence of steps of the processes on a root, so that whoever got through it owns the root; the server ends
  with the first failed accept; a hub without a watcher never announces anything; which commands succeed.
\<close>

section \<open>Names\<close>

definition upper_char :: "char \<Rightarrow> char" where
  "upper_char c = (if c \<in> set ''abcdefghijklmnopqrstuvwxyz'' then char_of (of_char c - 32 :: nat) else c)"

definition to_uppercase :: "string \<Rightarrow> string" where
  "to_uppercase s = map upper_char s"

definition DEVICES :: "string list" where
  "DEVICES = [''CON'', ''PRN'', ''AUX'', ''NUL'',
     ''COM1'', ''COM2'', ''COM3'', ''COM4'', ''COM5'', ''COM6'', ''COM7'', ''COM8'', ''COM9'',
     ''LPT1'', ''LPT2'', ''LPT3'', ''LPT4'', ''LPT5'', ''LPT6'', ''LPT7'', ''LPT8'', ''LPT9'']"

definition FORBIDDEN :: string where
  "FORBIDDEN = [CHR ''<'', CHR ''>'', CHR '':'', CHR 0x22, CHR ''|'', CHR ''?'', CHR ''*'']"

definition unrepresentable_on_windows :: "string \<Rightarrow> bool" where
  "unrepresentable_on_windows rel \<longleftrightarrow>
     list_ex (\<lambda>c. c \<in> set FORBIDDEN) rel \<or>
     list_ex (\<lambda>part. part = [] \<or> ends_with ''.'' part \<or> ends_with '' '' part \<or>
        to_uppercase (hd (split_where (\<lambda>c. c = CHR ''.'') part)) \<in> set DEVICES)
       (split_where (\<lambda>c. c = CHR ''/'') rel)"

text \<open>Paths of the server's list that agree with an earlier one up to case, and the filter for downloads and uploads.\<close>

fun case_collisions :: "string set \<Rightarrow> string list \<Rightarrow> string list" where
  "case_collisions seen_lc [] = []"
| "case_collisions seen_lc (p # ps) =
     (if to_lowercase p \<in> seen_lc then p # case_collisions seen_lc ps else case_collisions (insert (to_lowercase p) seen_lc) ps)"

definition representable :: "bool \<Rightarrow> string list \<Rightarrow> string \<Rightarrow> bool" where
  "representable windows collisions p \<longleftrightarrow> \<not> (p \<in> set collisions \<and> windows) \<and> \<not> (windows \<and> unrepresentable_on_windows p)"

section \<open>Starting on a root\<close>

record start_io =
  sx_root :: "(string, string) result" \<comment> \<open>the canonical path\<close>
  sx_opened :: bool
  sx_now :: real
  sx_windows :: bool
  sx_probe :: "string \<Rightarrow> open_outcome"
  sx_age :: "string \<Rightarrow> real option"
  sx_removed :: "string \<Rightarrow> bool"

text \<open>The first part of both commands; the lock is dropped when the process ends with an error.\<close>

definition start_on_root ::
    "start_io \<Rightarrow> nat \<Rightarrow> nat option \<times> (string \<times> fs_node) list \<Rightarrow> (nat option \<times> (string \<times> fs_node) list) \<times> (string, string \<times> nat) result" where
  "start_on_root io p st =
     (case sx_root io of
        Err e \<Rightarrow> (st, Err e)
      | Ok dir \<Rightarrow>
          (case acquire_root_lock (sx_opened io) (sx_now io) p st of
             (st, Err e) \<Rightarrow> (st, Err e)
           | ((holder, es), Ok _) \<Rightarrow>
               (case check_startup_locks (sx_windows io) (sx_probe io) es True of
                  Err e \<Rightarrow> ((None, es), Err e)
                | Ok _ \<Rightarrow> (case clean_stale_tmp (sx_age io) (sx_removed io) es of (es, cleaned) \<Rightarrow> ((holder, es), Ok (dir, cleaned))))))"

section \<open>The server\<close>

record notify_hub =
  nh_capacity :: nat
  nh_watched :: bool
  nh_hub :: hub

text \<open>\<open>NotifyHub::new\<close> creates a watcher and sets it on the root.\<close>

definition hub_new :: "(string, unit) result \<Rightarrow> (string, unit) result \<Rightarrow> (string, notify_hub) result" where
  "hub_new created watched =
     (case created of
        Err e \<Rightarrow> Err e
      | Ok _ \<Rightarrow> (case watched of Err e \<Rightarrow> Err e | Ok _ \<Rightarrow> Ok \<lparr>nh_capacity = HUB_CAP, nh_watched = True, nh_hub = hub_init\<rparr>))"

definition hub_disabled :: notify_hub where
  "hub_disabled = \<lparr>nh_capacity = 1, nh_watched = False, nh_hub = hub_init\<rparr>"

text \<open>A new receiver sees the hints sent from now on.\<close>

definition subscribe :: "notify_hub \<Rightarrow> nat" where
  "subscribe n = hb_sent (nh_hub n)"

datatype 'c sync_accept = SockErr string | Sock 'c

text \<open>The accept loop: the connections that got a task, and the error that ended it.\<close>

fun sync_accept_loop :: "'c sync_accept list \<Rightarrow> 'c list \<times> string option" where
  "sync_accept_loop [] = ([], None)"
| "sync_accept_loop (SockErr e # es) = ([], Some e)"
| "sync_accept_loop (Sock c # es) = (case sync_accept_loop es of (cs, r) \<Rightarrow> (c # cs, r))"

datatype 'c sync_end =
    Fatal string \<comment> \<open>printed by \<open>main\<close>, which exits with 1\<close>
  | Serving string string notify_hub "'c list" \<comment> \<open>root, mode, hub, connections\<close>
  | ServerFell string "'c list" \<comment> \<open>the accept loop failed after these connections\<close>
  | Daemon connect_params nat \<comment> \<open>the loop of the daemon, with its interval\<close>
  | PassDone sync_stats bool \<comment> \<open>whether the user is told of conflicts\<close>

text \<open>The command; the files are those the sessions find when the loop begins.\<close>

definition sync_server ::
    "start_io \<Rightarrow> nat \<Rightarrow> (string, unit) result \<Rightarrow> (string, unit) result \<Rightarrow> (u16 \<Rightarrow> (string, unit) result) \<Rightarrow> u16 \<Rightarrow> string \<Rightarrow>
     'c sync_accept list \<Rightarrow> nat option \<times> (string \<times> fs_node) list \<Rightarrow> (nat option \<times> (string \<times> fs_node) list) \<times> 'c sync_end" where
  "sync_server io p created watched bind port mode es st =
     (case start_on_root io p st of
        (st, Err e) \<Rightarrow> (st, Fatal e)
      | ((holder, tree), Ok (dir, cleaned)) \<Rightarrow>
          let hub = (case hub_new created watched of Ok h \<Rightarrow> h | Err _ \<Rightarrow> hub_disabled) in
          (case bind port of
             Err e \<Rightarrow> ((None, tree), Fatal e)
           | Ok _ \<Rightarrow>
               (case sync_accept_loop es of
                  (cs, None) \<Rightarrow> ((holder, tree), Serving dir mode hub cs)
                | (cs, Some e) \<Rightarrow> ((None, tree), ServerFell e cs))))"

section \<open>The client\<close>

text \<open>
  \<open>do_sync\<close>, on a session; the stream is opened to the host \<open>sync\<close> without compression.  A pass has an outcome and changes the
  tree.
\<close>

definition SYNC_PORT :: u16 where "SYNC_PORT = 17890"

definition do_sync ::
    "('c \<Rightarrow> target \<Rightarrow> string \<Rightarrow> (string, 'q) result) \<Rightarrow> ('q \<Rightarrow> 't \<Rightarrow> (string, sync_stats) result \<times> 't) \<Rightarrow> string \<Rightarrow> 'c \<Rightarrow> 't \<Rightarrow>
     (string, sync_stats) result \<times> 't" where
  "do_sync open_stream pass dflt c tree =
     (case open_stream c (stream_target ''sync'' SYNC_PORT) (stream_compression dflt (Some ''none'')) of
        Err e \<Rightarrow> (Err e, tree)
      | Ok s \<Rightarrow> pass s tree)"

text \<open>\<open>one_pass\<close>: the connection is kept for the next pass.\<close>

definition one_pass :: "'c outcome \<Rightarrow> ('c \<Rightarrow> 't \<Rightarrow> (string, 's) result \<times> 't) \<Rightarrow> 'c option \<Rightarrow> 't \<Rightarrow> 's outcome \<times> 'c option \<times> 't" where
  "one_pass conn sync client tree =
     (let use = (\<lambda>c. case sync c tree of (Err e, t) \<Rightarrow> (Fail e, Some c, t) | (Ok s, t) \<Rightarrow> (Ret s, Some c, t)) in
      case client of
        Some c \<Rightarrow> use c
      | None \<Rightarrow>
          (case conn of
             Panic \<Rightarrow> (Panic, None, tree)
           | Fail e \<Rightarrow> (Fail (''tunnel connect: '' @ e), None, tree)
           | Ret c \<Rightarrow> use c))"

text \<open>The daemon, up to its loop (the theory on the daemon): configuration, identity and pin are read once.\<close>

definition daemon_start :: "('k, 'r, 'a) world \<Rightarrow> (string, unit) result \<Rightarrow> string \<Rightarrow> nat \<Rightarrow> codec_env \<Rightarrow> 'c sync_end outcome" where
  "daemon_start W watcher config interval reg =
     (case load_client_cfg (w_sha256 W) (w_hex W) (w_cfg W) config reg of
        (Err e, reg') \<Rightarrow> Ret (Fatal e)
      | (Ok cfg, reg') \<Rightarrow>
          (case load_identity (w_sha256 W) (w_hex W) (w_rcgen W) (w_files W) (ic_key (cc_identity cfg)) (ic_cert (cc_identity cfg)) of
             Panic \<Rightarrow> Panic
           | Fail e \<Rightarrow> Ret (Fatal e)
           | Ret ident \<Rightarrow>
               (case normalize_fingerprint (w_sha256 W) (w_hex W) (w_pem W) (cc_server_fingerprint cfg) of
                  Panic \<Rightarrow> Panic
                | Fail e \<Rightarrow> Ret (Fatal e)
                | Ret server_fp \<Rightarrow> (case watcher of Err e \<Rightarrow> Ret (Fatal e) | Ok _ \<Rightarrow> Ret (Daemon (cfg_params cfg) interval)))))"

text \<open>The command: a daemon keeps the lock, any other end of the process drops it.\<close>

definition sync_client ::
    "start_io \<Rightarrow> nat \<Rightarrow> ('k, 'r, 'a) world \<Rightarrow> codec_env \<Rightarrow> ('a \<times> session_opts \<Rightarrow> target \<Rightarrow> string \<Rightarrow> (string, 'q) result) \<Rightarrow>
     ('q \<Rightarrow> (string \<times> fs_node) list \<Rightarrow> (string, sync_stats) result \<times> (string \<times> fs_node) list) \<Rightarrow> (string, unit) result \<Rightarrow>
     string \<Rightarrow> bool \<Rightarrow> nat \<Rightarrow> nat option \<times> (string \<times> fs_node) list \<Rightarrow> (nat option \<times> (string \<times> fs_node) list) \<times> 'c sync_end outcome" where
  "sync_client io p W reg open_stream pass watcher config watch interval st =
     (case start_on_root io p st of
        (st, Err e) \<Rightarrow> (st, Ret (Fatal e))
      | ((holder, tree), Ok (dir, cleaned)) \<Rightarrow>
          if watch then
            (case daemon_start W watcher config interval reg of
               Ret (Daemon params i) \<Rightarrow> ((holder, tree), Ret (Daemon params i))
             | r \<Rightarrow> ((None, tree), r))
          else
            (case fst (sync_connect W False config reg) of
               Panic \<Rightarrow> ((None, tree), Panic)
             | Fail e \<Rightarrow> ((None, tree), Ret (Fatal e))
             | Ret (cfg, server_fp, a, opts) \<Rightarrow>
                 (case do_sync open_stream pass (cp_compression default_connect_params) (a, opts) tree of
                    (Err e, tree) \<Rightarrow> ((None, tree), Ret (Fatal e))
                  | (Ok stats, tree) \<Rightarrow> ((None, tree), Ret (PassDone stats (ss_conflicts stats > 0))))))"

text \<open>\<open>main\<close>: the exit code of a command that ends.\<close>

definition exit_code :: "'c sync_end \<Rightarrow> nat option" where
  "exit_code e = (case e of Fatal _ \<Rightarrow> Some 1 | ServerFell _ _ \<Rightarrow> Some 1 | PassDone _ _ \<Rightarrow> Some 0 | _ \<Rightarrow> None)"

section \<open>Names that land\<close>

lemma case_collisions_subset: "set (case_collisions seen ps) \<subseteq> set ps"
  by (induction seen ps rule: case_collisions.induct) auto

text \<open>What is not listed as a collision is new up to case, and every name that is not new is listed.\<close>

lemma case_collisions_rest:
  assumes "distinct ps"
  shows "distinct (map to_lowercase (filter (\<lambda>p. p \<notin> set (case_collisions seen ps)) ps)) \<and>
    to_lowercase ` set (filter (\<lambda>p. p \<notin> set (case_collisions seen ps)) ps) \<inter> seen = {} \<and>
    to_lowercase ` set ps \<subseteq> seen \<union> to_lowercase ` set (filter (\<lambda>p. p \<notin> set (case_collisions seen ps)) ps)"
  using assms
proof (induction seen ps rule: case_collisions.induct)
  case (2 seen p ps)
  show ?case
  proof (cases "to_lowercase p \<in> seen")
    case True
    moreover have "filter (\<lambda>q. q \<notin> set (case_collisions seen (p # ps))) (p # ps) = filter (\<lambda>q. q \<notin> set (case_collisions seen ps)) ps"
      using True 2(3) by (auto intro: filter_cong)
    ultimately show ?thesis using 2 by auto
  next
    case False
    let ?rest = "filter (\<lambda>q. q \<notin> set (case_collisions (insert (to_lowercase p) seen) ps)) ps"
    have "p \<notin> set (case_collisions (insert (to_lowercase p) seen) ps)" using 2(3) case_collisions_subset by fastforce
    then have "filter (\<lambda>q. q \<notin> set (case_collisions seen (p # ps))) (p # ps) = p # ?rest" using False by simp
    then show ?thesis using 2(2) [OF False] 2(3) False by auto
  qed
qed simp

definition lands_on_windows :: "string \<Rightarrow> bool" where
  "lands_on_windows p \<longleftrightarrow> set p \<inter> set FORBIDDEN = {} \<and>
     (\<forall>part \<in> set (split_where (\<lambda>c. c = CHR ''/'') p). part \<noteq> [] \<and> last part \<noteq> CHR ''.'' \<and> last part \<noteq> CHR '' '' \<and>
        (\<forall>dev \<in> set DEVICES. to_uppercase (hd (split_where (\<lambda>c. c = CHR ''.'') part)) \<noteq> dev))"

lemma ends_with_single: "ends_with [c] part \<longleftrightarrow> part \<noteq> [] \<and> last part = c"
  by (cases part rule: rev_cases) (auto simp: ends_with_def)

lemma unrepresentable_iff: "unrepresentable_on_windows p \<longleftrightarrow> \<not> lands_on_windows p"
  unfolding unrepresentable_on_windows_def lands_on_windows_def list_ex_iff ends_with_single by blast

text \<open>
  On Windows every file of the server's list that is transferred has a name Windows can hold, and no two of them are the same file
  there: the filter keeps, of all paths that agree up to case, the first, unless its name is one Windows cannot hold.
\<close>

theorem windows_transfers_land:
  assumes "distinct ps" and "kept = filter (representable True (case_collisions {} ps)) ps"
  shows "list_all lands_on_windows kept \<and> distinct (map to_lowercase kept) \<and>
    (\<forall>p \<in> set ps. \<exists>q \<in> set ps. to_lowercase q = to_lowercase p \<and> (q \<in> set kept \<or> \<not> lands_on_windows q))"
proof -
  let ?new = "filter (\<lambda>p. p \<notin> set (case_collisions {} ps)) ps"
  have kept: "kept = filter lands_on_windows ?new"
    unfolding assms(2) by (auto simp: representable_def unrepresentable_iff intro: filter_cong)
  note rest = case_collisions_rest [OF assms(1), of "{}"]
  have "distinct (map to_lowercase kept)" unfolding kept using rest assms(1) by (simp add: distinct_map inj_on_def)
  moreover have "\<exists>q \<in> set ps. to_lowercase q = to_lowercase p \<and> (q \<in> set kept \<or> \<not> lands_on_windows q)" if "p \<in> set ps" for p
    using rest that unfolding kept by fastforce
  ultimately show ?thesis by (simp add: kept list_all_iff)
qed

theorem windows_transfers_land_witness:
  "\<exists>ps. distinct ps \<and> ps = [''a/Read.me'', ''a/README.md'', ''a/read.me'', ''x/com1.log''] \<and>
     distinct (map to_lowercase (filter (representable True (case_collisions {} ps)) ps)) \<and>
     filter (representable True (case_collisions {} ps)) ps = [''a/Read.me'', ''a/README.md'']"
proof -
  let ?ps = "[''a/Read.me'', ''a/README.md'', ''a/read.me'', ''x/com1.log'']"
  have "distinct ?ps" by code_simp
  from windows_transfers_land [OF this refl] this
  have "distinct ?ps \<and> distinct (map to_lowercase (filter (representable True (case_collisions {} ?ps)) ?ps))" by blast
  moreover have "filter (representable True (case_collisions {} ?ps)) ?ps = [''a/Read.me'', ''a/README.md'']" by code_simp
  ultimately show ?thesis by blast
qed

section \<open>Starts are steps of the processes on a root\<close>

lemma start_on_root_steps:
  assumes "si_pc s p = ProcOff" and "start_on_root io p (si_lock s, si_tree s) = ((l, es), r)"
  shows "\<exists>s'. site_step\<^sup>*\<^sup>* s s' \<and> si_lock s' = l \<and> si_tree s' = es \<and>
    (case r of Ok _ \<Rightarrow> si_pc s' p = ProcRunning \<and> l = Some p | Err _ \<Rightarrow> si_pc s' p = ProcOff)"
proof (cases "sx_root io")
  case (Inl e)
  then show ?thesis using assms by (auto simp: start_on_root_def)
next
  case (Inr dir)
  obtain l1 es1 r1 where a: "acquire_root_lock (sx_opened io) (sx_now io) p (si_lock s, si_tree s) = ((l1, es1), r1)" by (metis prod.exhaust)
  show ?thesis
  proof (cases r1)
    case (Inl e)
    have "site_step s (s\<lparr>si_tree := es1, si_lock := l1\<rparr>)" by (rule start_refused [OF assms(1) a [unfolded Inl]])
    then show ?thesis using assms Inr a Inl
      by (intro exI [of _ "s\<lparr>si_tree := es1, si_lock := l1\<rparr>"]) (auto simp: start_on_root_def)
  next
    case (Inr u)
    let ?s1 = "s\<lparr>si_tree := es1, si_lock := l1, si_pc := (si_pc s)(p := ProcLocked)\<rparr>"
    have a': "acquire_root_lock (sx_opened io) (sx_now io) p (si_lock s, si_tree s) = ((l1, es1), Ok ())" using a Inr by simp
    have s1: "site_step s ?s1" by (rule start_locked [OF assms(1) a'])
    have l1: "l1 = Some p" using a' by (auto simp: acquire_root_lock_def split: if_splits option.splits)
    show ?thesis
    proof (cases "check_startup_locks (sx_windows io) (sx_probe io) es1 True")
      case (Inl e)
      then have "site_step ?s1 (proc_end p ?s1)" by (intro start_failed) simp_all
      then show ?thesis using s1 assms \<open>sx_root io = Inr dir\<close> a' Inl l1
        by (intro exI [of _ "proc_end p ?s1"]) (auto simp: start_on_root_def proc_end_def)
    next
      case (Inr locked)
      let ?s2 = "?s1\<lparr>si_tree := fst (clean_stale_tmp (sx_age io) (sx_removed io) es1), si_pc := (si_pc ?s1)(p := ProcRunning)\<rparr>"
      have "site_step ?s1 ?s2" using start_checked [of ?s1 p "sx_windows io" "sx_probe io" locked "sx_age io" "sx_removed io"] Inr by simp
      then have "site_step\<^sup>*\<^sup>* s ?s2" using s1 by (meson converse_rtranclp_into_rtranclp r_into_rtranclp)
      then show ?thesis using assms \<open>sx_root io = Inr dir\<close> a' Inr l1
        by (intro exI [of _ ?s2]) (auto simp: start_on_root_def split: prod.splits)
    qed
  qed
qed

section \<open>The server process\<close>

text \<open>One failed accept ends the server, and with it the sessions it has; the tunnel's listeners go on.\<close>

lemma sync_accept_loop_stops:
  "sync_accept_loop (map Sock cs @ SockErr e # es) = (cs, Some e)"
  by (induction cs) simp_all

lemma server_falls:
  assumes "start_on_root io p st = ((holder, tree), Ok (dir, cleaned))" and "bind port = Ok ()"
  shows "sync_server io p created watched bind port mode (map Sock cs @ SockErr e # es) st = ((None, tree), ServerFell e cs) \<and>
    exit_code (ServerFell e cs) = Some 1"
  using assms by (simp add: sync_server_def sync_accept_loop_stops Let_def exit_code_def)

text \<open>A server that cannot watch its root serves, and its hub announces nothing: without a watcher only these steps are left.\<close>

inductive unwatched :: "hub \<Rightarrow> bool" where
  off: "unwatched (nh_hub hub_disabled)"
| tick: "unwatched h \<Longrightarrow> t \<ge> hb_now h \<Longrightarrow> unwatched (h\<lparr>hb_now := t\<rparr>)"
| guard: "unwatched h \<Longrightarrow> unwatched (active_guard h)"
| ended: "unwatched h \<Longrightarrow> end_step h h' \<Longrightarrow> unwatched h'"

lemma unwatched_silent: "unwatched h \<Longrightarrow> hub_reachable h \<and> \<not> hb_pending h \<and> hb_sent h = 0"
proof (induction rule: unwatched.induct)
  case off
  show ?case by (simp add: hub_disabled_def hub_init_def hub_reachable.init [unfolded hub_init_def])
next
  case (tick h t)
  then show ?case by (auto intro: hub_reachable.step hub_step.tick)
next
  case (guard h)
  then show ?case by (auto simp: active_guard_def intro: hub_reachable.step hub_step.start [unfolded active_guard_def])
next
  case (ended h h')
  then have "hub_reachable h'" by (auto intro: hub_reachable.step hub_step.ended)
  then show ?case using ended by (auto elim!: end_stepE simp: session_sub_def session_swap_def Let_def)
qed

section \<open>The client process\<close>

lemma one_pass_Ret:
  "one_pass conn sync client tree = (Ret s, client', tree') \<longleftrightarrow>
     (\<exists>c. client' = Some c \<and> sync c tree = (Ok s, tree') \<and> (client = Some c \<or> client = None \<and> conn = Ret c))"
  by (auto simp: one_pass_def Let_def split: option.splits outcome.splits sum.splits prod.splits)

text \<open>When a single pass exits with 0: it had the root for itself, reached the pinned server and completed; the lock is free then.\<close>

lemma sync_client_done:
  "sync_client io p W reg open_stream pass watcher config False interval st = ((l, tree'), Ret (PassDone stats warned)) \<longleftrightarrow>
     l = None \<and> warned = (ss_conflicts stats > 0) \<and>
     (\<exists>holder tree dir n cfg fp a opts q.
        start_on_root io p st = ((holder, tree), Ok (dir, n)) \<and> fst (sync_connect W False config reg) = Ret (cfg, fp, a, opts) \<and>
        open_stream (a, opts) (stream_target ''sync'' SYNC_PORT) ''none'' = Ok q \<and> pass q tree = (Ok stats, tree'))"
  by (auto simp: sync_client_def do_sync_def stream_compression_def split: prod.splits sum.splits outcome.splits)

text \<open>A daemon that is up has the lock, and the parameters of the file.\<close>

lemma sync_client_daemon:
  assumes "sync_client io p W reg open_stream pass watcher config watch interval st = ((l, tree), Ret (Daemon params i :: 'e sync_end))"
  shows "watch \<and> l = Some p \<and> i = interval \<and> (\<exists>cfg reg'. load_client_cfg (w_sha256 W) (w_hex W) (w_cfg W) config reg = (Ok cfg, reg') \<and> params = cfg_params cfg)"
proof -
  obtain holder tr dir n where s: "start_on_root io p st = ((holder, tr), Ok (dir, n))" and w: "watch" "l = holder"
    and d: "daemon_start W watcher config interval reg = (Ret (Daemon params i) :: 'e sync_end outcome)"
    using assms by (auto simp: sync_client_def split: prod.splits sum.splits outcome.splits sync_end.splits if_splits)
  have "holder = Some p" using s
    by (auto simp: start_on_root_def acquire_root_lock_def split: prod.splits sum.splits if_splits option.splits)
  then show ?thesis using w d by (auto simp: daemon_start_def split: prod.splits sum.splits outcome.splits)
qed

end
